(* ===== verification/Prelude.thy ===== *)
theory Prelude
  imports Main "HOL-Library.Word" "HOL-Library.Monad_Syntax" "HOL-Library.Signed_Division"
begin

text \<open>
  Shared vocabulary of the development: Rust's machine integers as words, the \<open>for\<close> loops
  of the source as iteration in the option monad (\<open>None\<close> stands for undefined behaviour, a
  panic or a loop that never ends, as each component says), and the arithmetic of indices
  that wrap around a power-of-two ring.
\<close>

unbundle bit_operations_syntax

type_synonym u8 = "8 word"
type_synonym u16 = "16 word"
type_synonym u32 = "32 word"
type_synonym u64 = "64 word"
type_synonym usize = "64 word"
type_synonym isize = "64 word"

named_theorems ring_simps \<open>windows over a power-of-two ring\<close>

section \<open>Loops in the option monad\<close>

text \<open>\<open>for i in xs { body }\<close>, where the body may fail.\<close>

primrec for_in :: "'i list \<Rightarrow> ('i \<Rightarrow> 's \<Rightarrow> 's option) \<Rightarrow> 's \<Rightarrow> 's option" where
  "for_in [] body s = Some s"
| "for_in (i # is) body s = do { s' \<leftarrow> body i s; for_in is body s' }"

lemma for_in_append:
  "for_in (xs @ ys) body s = do { s' \<leftarrow> for_in xs body s; for_in ys body s' }"
  by (induction xs arbitrary: s) (auto split: bind_splits)

lemma for_in_cong:
  "(\<And>i s. i \<in> set xs \<Longrightarrow> f i s = g i s) \<Longrightarrow> for_in xs f s = for_in xs g s"
  by (induction xs arbitrary: s) (auto split: bind_splits)

lemma for_in_Some:
  "for_in xs (\<lambda>i s. Some (f i s)) s = Some (fold f xs s)"
  by (induction xs arbitrary: s) auto

section \<open>Signed and unsigned readings of 64-bit words\<close>

lemma sint_small: "unat (d :: isize) < 2 ^ 63 \<Longrightarrow> sint d = int (unat d)"
proof -
  assume a: "unat d < 2 ^ 63"
  have b: "uint d < 2 ^ 63"
    using of_nat_less_iff [where 'a = int, THEN iffD2, OF a] by simp
  have "sint d = signed_take_bit 63 (uint d)"
    by (simp add: sint_uint)
  also have "\<dots> = uint d"
    by (rule signed_take_bit_int_eq_self) (use b in \<open>simp_all add: order_trans [OF _ unsigned_greater_eq]\<close>)
  finally show ?thesis by simp
qed

lemma unat_of_nat_small: "n < 2 ^ 64 \<Longrightarrow> unat (of_nat n :: 64 word) = n"
  by (simp add: unat_of_nat)

lemma sint_le_iff_unat: "\<lbrakk>unat (a::isize) < 2 ^ 63; unat (b::isize) < 2 ^ 63\<rbrakk> \<Longrightarrow> sint a \<le> sint b \<longleftrightarrow> unat a \<le> unat b"
  by (simp only: sint_small of_nat_le_iff)

lemma sint_less_iff_unat: "\<lbrakk>unat (a::isize) < 2 ^ 63; unat (b::isize) < 2 ^ 63\<rbrakk> \<Longrightarrow> sint a < sint b \<longleftrightarrow> unat a < unat b"
  by (simp only: sint_small of_nat_less_iff)

lemma unat_2_power: "k < 64 \<Longrightarrow> unat (2 ^ k :: usize) = 2 ^ k"
proof -
  assume "k < 64"
  then have "(2 :: nat) ^ k < 2 ^ 64"
    by (intro power_strict_increasing) simp_all
  then have "unat (of_nat (2 ^ k) :: usize) = 2 ^ k"
    by (rule unat_of_nat_small)
  then show ?thesis by simp
qed

lemma unat_sub_one_less: "x \<noteq> 0 \<Longrightarrow> unat (x - 1) < unat (x :: 'a :: len word)"
  by (metis unat_eq_zero unat_minus_one bot_nat_0.not_eq_extremum diff_less zero_less_one)

lemma unat_sub_le: "unat b \<le> unat a \<Longrightarrow> unat (a - b :: usize) = unat a - unat b"
  by (simp add: unat_sub word_le_nat_alt)

lemma wrapping_distance_decreases:
  "i \<noteq> b \<Longrightarrow> unat (b - (i + 1)) < unat (b - i :: 'a :: len word)"
  using unat_sub_one_less [of "b - i"] by (simp add: algebra_simps)

lemma wrapping_distance_Suc:
  assumes "unat (b - i :: 'a :: len word) = Suc n"
  shows "i \<noteq> b" "unat (b - (i + 1)) = n"
proof -
  show "i \<noteq> b" using assms by auto
  then have "unat (b - i - 1) = n" using assms by (simp add: unat_minus_one)
  then show "unat (b - (i + 1)) = n" by (simp add: algebra_simps)
qed

section \<open>Windows over a ring of cells\<close>

text \<open>
  A ring of \<open>c\<close> cells, \<open>c\<close> a power of two, is addressed by wrapping 64-bit indices:
  index \<open>i\<close> lives in cell \<open>i AND (c - 1)\<close>.
\<close>

definition ring_slot :: "usize \<Rightarrow> isize \<Rightarrow> nat" where
  "ring_slot c i = unat (i AND (c - 1))"

definition pow2 :: "usize \<Rightarrow> bool" where
  "pow2 c \<longleftrightarrow> (\<exists>k \<in> {0..62}. c = 2 ^ k)"

lemma pow2E:
  assumes "pow2 c"
  obtains k where "k \<le> 62" "c = 2 ^ k" "unat c = 2 ^ k"
proof -
  from assms obtain k where k: "k \<le> 62" "c = 2 ^ k" by (auto simp: pow2_def)
  have "unat (2 ^ k :: usize) = 2 ^ k" using k(1) by (intro unat_2_power) simp
  with k that show ?thesis by blast
qed

lemma pow2_unat:
  assumes "pow2 c" shows "0 < unat c" and "unat c \<le> 2 ^ 62" and "unat c dvd 2 ^ 64"
proof -
  from assms obtain k where k: "k \<le> 62" "unat c = 2 ^ k" by (rule pow2E)
  show "0 < unat c" using k(2) by simp
  show "unat c \<le> 2 ^ 62" unfolding k(2) by (rule power_increasing) (use k(1) in simp_all)
  show "unat c dvd 2 ^ 64" unfolding k(2) by (rule le_imp_power_dvd) (use k(1) in simp)
qed

lemma pow2_double:
  assumes "pow2 c" "unat c < 2 ^ 62"
  shows "pow2 (2 * c)" "unat (2 * c) = 2 * unat c"
proof -
  obtain k where k: "k \<le> 62" "c = 2 ^ k" "unat c = 2 ^ k" using assms(1) by (rule pow2E)
  have "k < 62" using assms(2) k(3) power_increasing_iff [of "2::nat" 62 k] by auto
  moreover have "2 * c = 2 ^ Suc k" using k(2) by simp
  ultimately show "pow2 (2 * c)" "unat (2 * c) = 2 * unat c"
    using unat_2_power [of "Suc k"] k(3) by (auto simp: pow2_def intro!: bexI [of _ "Suc k"])
qed

lemma pow2_half:
  assumes "pow2 c" "1 < unat c"
  shows "pow2 (c div 2)" "unat c = 2 * unat (c div 2)"
proof -
  obtain k where k: "k \<le> 62" "c = 2 ^ k" "unat c = 2 ^ k" using assms(1) by (rule pow2E)
  obtain j where j: "k = Suc j" using assms(2) k(3) by (cases k) auto
  have "unat (c div 2) = 2 ^ j" using k(3) j by (simp add: unat_div)
  moreover have "unat (2 ^ j :: usize) = 2 ^ j" using k(1) j by (intro unat_2_power) simp
  ultimately have "c div 2 = 2 ^ j" by (simp add: word_unat_eq_iff)
  then show "pow2 (c div 2)" "unat c = 2 * unat (c div 2)"
    using k j \<open>unat (c div 2) = 2 ^ j\<close> by (auto simp: pow2_def intro!: bexI [of _ j])
qed
lemma pow2_half_ge:
  assumes "pow2 c" "2 ^ m < unat c"
  shows "2 ^ m \<le> unat (c div 2)"
proof -
  obtain k where k: "unat c = 2 ^ k" using assms(1) by (rule pow2E)
  have "m < k" using assms(2) unfolding k by (rule power_less_imp_less_exp [rotated]) simp
  then obtain j where j: "k = Suc j" "m \<le> j" by (cases k) auto
  have "(2 :: nat) ^ m \<le> 2 ^ j" using j(2) by (rule power_increasing) simp
  then show ?thesis using k j(1) by (simp add: unat_div)
qed

lemma quarter_compare:
  assumes "pow2 c" "unat (len :: isize) < 2 ^ 63"
  shows "sint len \<le> sint c sdiv 4 \<longleftrightarrow> unat len \<le> unat c div 4"
    "sint len < sint c sdiv 4 \<longleftrightarrow> unat len < unat c div 4"
proof -
  have c: "unat c < 2 ^ 63" "0 < unat c" using pow2_unat(1,2) [OF assms(1)] by simp_all
  then have "sint c sdiv 4 = int (unat c) div 4"
    unfolding sint_small [OF c(1)] signed_divide_int_def by auto
  then have q: "sint c sdiv 4 = int (unat c div 4)" by (simp only: of_nat_div of_nat_numeral)
  show "sint len \<le> sint c sdiv 4 \<longleftrightarrow> unat len \<le> unat c div 4"
    "sint len < sint c sdiv 4 \<longleftrightarrow> unat len < unat c div 4"
    unfolding q sint_small [OF assms(2)] by (simp_all only: of_nat_le_iff of_nat_less_iff)
qed

lemma ring_slot_mod: "pow2 c \<Longrightarrow> ring_slot c i = unat i mod unat c"
proof (elim pow2E)
  fix k assume k: "k \<le> 62" "c = 2 ^ k" "unat c = 2 ^ k"
  have "i AND (2 ^ k - 1) = take_bit k i"
    by (simp only: mask_eq_exp_minus_1 [symmetric] take_bit_eq_mask)
  then show ?thesis
    by (simp add: ring_slot_def k(2) k(3) unsigned_take_bit_eq) (metis k(2) k(3) take_bit_eq_mod)
qed

lemma ring_slot_less: "pow2 c \<Longrightarrow> ring_slot c i < unat c"
  by (simp add: ring_slot_mod pow2_unat(1))

lemma ring_slot_add:
  assumes "pow2 c"
  shows "ring_slot c (i + of_nat n) = (unat i + n) mod unat c"
proof -
  have "unat (i + of_nat n) mod unat c = (unat i + n) mod 2 ^ 64 mod unat c"
    by (simp add: unat_word_ariths unat_of_nat mod_simps)
  also have "\<dots> = (unat i + n) mod unat c"
    using pow2_unat(3) [OF assms] by (simp add: mod_mod_cancel)
  finally show ?thesis using assms by (simp add: ring_slot_mod)
qed


lemma mod_add_inj:
  assumes "i < c" "j < c" "(a + i) mod c = (a + j) mod (c :: nat)"
  shows "i = j"
  using assms
proof (induction i j rule: linorder_wlog)
  case (le i j)
  then have "c dvd (a + j) - (a + i)"
    by (intro mod_eq_dvd_iff_nat [THEN iffD1]) auto
  then have "c dvd j - i" by simp
  with le show ?case by (auto dest: dvd_imp_le)
next
  case (sym i j)
  then show ?case by simp
qed

lemma ring_slot_inj:
  "\<lbrakk>pow2 c; i < unat c; j < unat c; ring_slot c (f + of_nat i) = ring_slot c (f + of_nat j)\<rbrakk> \<Longrightarrow> i = j"
  by (auto simp: ring_slot_add dest: mod_add_inj)

text \<open>The \<open>n\<close> cells from index \<open>f\<close> on, in index order.\<close>

definition window :: "usize \<Rightarrow> 'v list \<Rightarrow> isize \<Rightarrow> nat \<Rightarrow> 'v list" where
  "window c cs f n = map (\<lambda>i. cs ! ring_slot c (f + of_nat i)) [0..<n]"

lemma length_window: "length (window c cs f n) = n"
  by (simp add: window_def)

lemma nth_window: "i < n \<Longrightarrow> window c cs f n ! i = cs ! ring_slot c (f + of_nat i)"
  by (simp add: window_def)

lemma window_0: "window c cs f 0 = []"
  by (simp add: window_def)

lemma window_add: "window c cs f (m + n) = window c cs f m @ window c cs (f + of_nat m) n"
  by (rule nth_equalityI) (auto simp: length_window nth_window nth_append algebra_simps of_nat_diff)

lemma window_Suc_last: "window c cs f (Suc n) = window c cs f n @ [cs ! ring_slot c (f + of_nat n)]"
  by (simp add: window_def)

lemma window_Suc_first: "window c cs f (Suc n) = cs ! ring_slot c f # window c cs (f + 1) n"
  using window_add [of c cs f 1 n] by (simp add: window_def)

lemma window_drop: "k \<le> n \<Longrightarrow> window c cs (f + of_nat k) (n - k) = drop k (window c cs f n)"
  using window_add [of c cs f k "n - k"] by (simp add: length_window)

lemma window_take: "k \<le> n \<Longrightarrow> window c cs f k = take k (window c cs f n)"
  using window_add [of c cs f k "n - k"] by (simp add: length_window)

lemma window_update_outside:
  assumes "pow2 c" "n \<le> m" "m < unat c"
  shows "window c (cs[ring_slot c (f + of_nat m) := v]) f n = window c cs f n"
proof (rule nth_equalityI)
  fix i assume "i < length (window c (cs[ring_slot c (f + of_nat m) := v]) f n)"
  then have i: "i < n" by (simp add: length_window)
  with assms have "ring_slot c (f + of_nat m) \<noteq> ring_slot c (f + of_nat i)"
    using ring_slot_inj [of c m i f] by auto
  then show "window c (cs[ring_slot c (f + of_nat m) := v]) f n ! i = window c cs f n ! i"
    using i by (simp add: nth_window)
qed (simp add: length_window)

lemma window_update_last:
  assumes "pow2 c" "n < unat c" "length cs = unat c"
  shows "window c (cs[ring_slot c (f + of_nat n) := v]) f (Suc n) = window c cs f n @ [v]"
  using assms by (simp add: window_Suc_last window_update_outside ring_slot_less)

lemma window_cong:
  assumes "\<And>i. i < n \<Longrightarrow> cs ! ring_slot c (f + of_nat i) = ds ! ring_slot c (f + of_nat i)"
  shows "window c cs f n = window c ds f n"
  using assms by (simp add: window_def)

lemmas [ring_simps] = length_window nth_window window_0 window_update_outside window_update_last

end
