(* ===== verification/Buffer.thy ===== *)
theory Buffer
  imports Prelude
begin

text \<open>
  The circular task buffers of the work-stealing deque (\<^verbatim>\<open>struct Buffer\<close> of
  \<^verbatim>\<open>task/crossbeam.rs\<close>) and the memory they live in. A heap maps an allocation to its
  cells; a cell is \<open>None\<close> while its memory is uninitialised, and an allocation is
  \<open>None\<close> once it is freed. An operation returns \<open>None\<close> where the code would have
  undefined behaviour: an access outside a live allocation, a read of an uninitialised
  cell, or a second free.

  An \<^verbatim>\<open>Atomic<Buffer<T>>\<close> is a pointer to a boxed \<^verbatim>\<open>Buffer\<close>. Every box is created for one
  freshly allocated buffer and freed with it, so the allocation names both, and comparing
  two such pointers is comparing two \<open>buffer\<close> values.
\<close>

section \<open>Memory\<close>

type_synonym 'a cells = "'a option list"
type_synonym 'a heap = "nat \<Rightarrow> 'a cells option"

record buffer =
  ptr :: nat
  cap :: usize

record 'a memory =
  heap :: "'a heap"
  next_ptr :: nat

text \<open>
  \<open>Buffer::alloc\<close>: a vector of the given capacity whose elements are uninitialised. Its
  \<^verbatim>\<open>debug_assert\<close> is not compiled into the release build that the boot tool makes.
\<close>

definition buffer_alloc :: "usize \<Rightarrow> ('a, 'z) memory_scheme \<Rightarrow> buffer \<times> ('a, 'z) memory_scheme" where
  "buffer_alloc c m =
     (\<lparr>ptr = next_ptr m, cap = c\<rparr>,
      m\<lparr>heap := (heap m)(next_ptr m \<mapsto> replicate (unat c) None), next_ptr := Suc (next_ptr m)\<rparr>)"

definition buffer_dealloc :: "buffer \<Rightarrow> ('a, 'z) memory_scheme \<Rightarrow> ('a, 'z) memory_scheme option" where
  "buffer_dealloc buf m =
     (case heap m (ptr buf) of None \<Rightarrow> None | Some _ \<Rightarrow> Some (m\<lparr>heap := (heap m)(ptr buf := None)\<rparr>))"

definition buffer_at :: "buffer \<Rightarrow> isize \<Rightarrow> nat" where
  "buffer_at buf index = ring_slot (cap buf) index"

text \<open>
  The volatile accesses move a cell as it is. A thief may read a cell that its owner is
  overwriting or never wrote; the code forgets such a value unless the thief then wins the
  cell, so a load returns the cell, initialised or not. \<open>buffer_read\<close> is a read whose value is used.
\<close>

definition buffer_store :: "buffer \<Rightarrow> isize \<Rightarrow> 'a option \<Rightarrow> ('a, 'z) memory_scheme \<Rightarrow> ('a, 'z) memory_scheme option" where
  "buffer_store buf index cell m = do {
     cs \<leftarrow> heap m (ptr buf);
     if buffer_at buf index < length cs
     then Some (m\<lparr>heap := (heap m)(ptr buf \<mapsto> cs[buffer_at buf index := cell])\<rparr>)
     else None }"

definition buffer_load :: "buffer \<Rightarrow> isize \<Rightarrow> ('a, 'z) memory_scheme \<Rightarrow> 'a option option" where
  "buffer_load buf index m = do {
     cs \<leftarrow> heap m (ptr buf);
     if buffer_at buf index < length cs then Some (cs ! buffer_at buf index) else None }"

definition buffer_write :: "buffer \<Rightarrow> isize \<Rightarrow> 'a \<Rightarrow> ('a, 'z) memory_scheme \<Rightarrow> ('a, 'z) memory_scheme option" where
  "buffer_write buf index task m = buffer_store buf index (Some task) m"

definition buffer_read :: "buffer \<Rightarrow> isize \<Rightarrow> ('a, 'z) memory_scheme \<Rightarrow> 'a option" where
  "buffer_read buf index m = do { cell \<leftarrow> buffer_load buf index m; cell }"

text \<open>
  \<^verbatim>\<open>ptr::copy_nonoverlapping(buffer.at(i), new.at(i), 1)\<close>: copies the cell as it is.
\<close>

definition buffer_copy :: "buffer \<Rightarrow> buffer \<Rightarrow> isize \<Rightarrow> ('a, 'z) memory_scheme \<Rightarrow> ('a, 'z) memory_scheme option" where
  "buffer_copy old new i m = do {
     cs \<leftarrow> heap m (ptr old);
     ds \<leftarrow> heap m (ptr new);
     if buffer_at old i < length cs \<and> buffer_at new i < length ds
     then Some (m\<lparr>heap := (heap m)(ptr new \<mapsto> ds[buffer_at new i := cs ! buffer_at old i])\<rparr>)
     else None }"

text \<open>The copy loop of \<open>resize\<close>: \<^verbatim>\<open>while i != b\<close>, with a wrapping increment.\<close>

function copy_loop :: "buffer \<Rightarrow> buffer \<Rightarrow> isize \<Rightarrow> isize \<Rightarrow> ('a, 'z) memory_scheme \<Rightarrow> ('a, 'z) memory_scheme option" where
  "copy_loop old new i b m =
     (if i \<noteq> b then do { m' \<leftarrow> buffer_copy old new i m; copy_loop old new (i + 1) b m' } else Some m)"
  by pat_completeness auto
termination
  by (relation "measure (\<lambda>(old, new, i, b, m). unat (b - i))") (auto intro: wrapping_distance_decreases)

declare copy_loop.simps [simp del]

text \<open>The drop loop of \<^verbatim>\<open>Drop for Inner\<close>: the tasks dropped, from \<open>i\<close> up to \<open>b\<close>.\<close>

function drop_loop :: "buffer \<Rightarrow> isize \<Rightarrow> isize \<Rightarrow> ('a, 'z) memory_scheme \<Rightarrow> 'a list option" where
  "drop_loop buf i b m =
     (if i \<noteq> b then do { t \<leftarrow> buffer_read buf i m; ts \<leftarrow> drop_loop buf (i + 1) b m; Some (t # ts) }
      else Some [])"
  by pat_completeness auto
termination
  by (relation "measure (\<lambda>(buf, i, b, m). unat (b - i))") (auto intro: wrapping_distance_decreases)

declare drop_loop.simps [simp del]

section \<open>Laws of buffers of live memory\<close>

definition live :: "('a, 'z) memory_scheme \<Rightarrow> buffer \<Rightarrow> bool" where
  "live m buf \<longleftrightarrow> pow2 (cap buf) \<and> (\<exists>cs. heap m (ptr buf) = Some cs \<and> length cs = unat (cap buf))"

definition cells_of :: "('a, 'z) memory_scheme \<Rightarrow> buffer \<Rightarrow> 'a cells" where
  "cells_of m buf = the (heap m (ptr buf))"

text \<open>The \<open>n\<close> cells of a buffer from index \<open>f\<close> on.\<close>

definition buffer_window :: "('a, 'z) memory_scheme \<Rightarrow> buffer \<Rightarrow> isize \<Rightarrow> nat \<Rightarrow> 'a cells" where
  "buffer_window m buf f n = window (cap buf) (cells_of m buf) f n"

lemma liveD:
  assumes "live m buf"
  shows "pow2 (cap buf)" "heap m (ptr buf) = Some (cells_of m buf)"
    "length (cells_of m buf) = unat (cap buf)" "buffer_at buf i < unat (cap buf)"
  using assms by (auto simp: live_def cells_of_def buffer_at_def ring_slot_less)

lemma buffer_load_live: "live m buf \<Longrightarrow> buffer_load buf i m = Some (cells_of m buf ! buffer_at buf i)"
  by (simp add: buffer_load_def liveD)

lemma buffer_read_live: "live m buf \<Longrightarrow> buffer_read buf i m = cells_of m buf ! buffer_at buf i"
  by (simp add: buffer_read_def buffer_load_live)

lemma buffer_store_live:
  "live m buf \<Longrightarrow> buffer_store buf i c m =
     Some (m\<lparr>heap := (heap m)(ptr buf \<mapsto> (cells_of m buf)[buffer_at buf i := c])\<rparr>)"
  by (simp add: buffer_store_def liveD)

lemma buffer_write_live:
  "live m buf \<Longrightarrow> buffer_write buf i t m =
     Some (m\<lparr>heap := (heap m)(ptr buf \<mapsto> (cells_of m buf)[buffer_at buf i := Some t])\<rparr>)"
  by (simp add: buffer_write_def buffer_store_live)

lemma buffer_read_window:
  "\<lbrakk>live m buf; i < n\<rbrakk> \<Longrightarrow> buffer_read buf (f + of_nat i) m = buffer_window m buf f n ! i"
  by (simp add: buffer_read_live buffer_window_def nth_window buffer_at_def)

lemma buffer_load_window:
  "\<lbrakk>live m buf; i < n\<rbrakk> \<Longrightarrow> buffer_load buf (f + of_nat i) m = Some (buffer_window m buf f n ! i)"
  by (simp add: buffer_load_live buffer_window_def nth_window buffer_at_def)

lemma live_heap_other:
  "\<lbrakk>live m buf; heap m' (ptr buf) = heap m (ptr buf)\<rbrakk> \<Longrightarrow> live m' buf"
  by (simp add: live_def)

lemma buffer_window_other:
  "heap m' (ptr buf) = heap m (ptr buf) \<Longrightarrow> buffer_window m' buf f n = buffer_window m buf f n"
  by (simp add: buffer_window_def cells_of_def)

lemma buffer_alloc_live:
  assumes "buffer_alloc c m = (buf, m')" "pow2 c"
  shows "live m' buf" "cap buf = c" "ptr buf = next_ptr m"
    "m' = m\<lparr>heap := heap m', next_ptr := Suc (next_ptr m)\<rparr>"
    "heap m' p = (if p = next_ptr m then Some (replicate (unat c) None) else heap m p)"
  using assms by (auto simp: buffer_alloc_def live_def)

lemma buffer_copy_live:
  assumes "live m old" "live m new"
  shows "buffer_copy old new i m =
    Some (m\<lparr>heap := (heap m)(ptr new \<mapsto> (cells_of m new)[buffer_at new i := cells_of m old ! buffer_at old i])\<rparr>)"
  using assms by (simp add: buffer_copy_def liveD)

text \<open>
  The copy loop moves the window \<open>[i, b)\<close> of the old buffer into the new one, whatever the two
  capacities, as long as the window fits the new buffer; nothing else of the heap changes.
\<close>

lemma copy_loop_window:
  assumes "live m old" "live m new" "ptr old \<noteq> ptr new" "unat (b - i) = n" "n \<le> unat (cap new)"
  shows "\<exists>ds. copy_loop old new i b m = Some (m\<lparr>heap := (heap m)(ptr new \<mapsto> ds)\<rparr>)
     \<and> length ds = unat (cap new) \<and> window (cap new) ds i n = buffer_window m old i n
     \<and> (\<forall>j. (\<forall>k<n. ring_slot (cap new) (i + of_nat k) \<noteq> j) \<longrightarrow> ds ! j = cells_of m new ! j)"
  using assms
proof (induction n arbitrary: i m)
  case 0
  then have "i = b" by (simp add: unat_eq_zero)
  with 0 show ?case
    by (intro exI [of _ "cells_of m new"])
      (auto simp: copy_loop.simps liveD(2,3) window_0 buffer_window_def fun_upd_idem)
next
  case (Suc n)
  let ?v = "cells_of m old ! buffer_at old i" and ?c = "cap new"
  let ?ds = "(cells_of m new)[buffer_at new i := ?v]"
  let ?m = "m\<lparr>heap := (heap m)(ptr new \<mapsto> ?ds)\<rparr>"
  have ib: "i \<noteq> b" and n: "unat (b - (i + 1)) = n"
    using wrapping_distance_Suc [OF Suc.prems(4)] by auto
  have live: "live ?m old" "live ?m new" and same: "cells_of ?m old = cells_of m old" "cells_of ?m new = ?ds"
    using Suc.prems by (auto simp: live_def cells_of_def)
  have "n \<le> unat ?c" using Suc.prems(5) by simp
  from Suc.IH [OF live Suc.prems(3) n this] obtain ds where
    ds: "copy_loop old new (i + 1) b ?m = Some (?m\<lparr>heap := (heap ?m)(ptr new \<mapsto> ds)\<rparr>)"
      "length ds = unat ?c" "window ?c ds (i + 1) n = buffer_window ?m old (i + 1) n"
      "\<And>j. \<forall>k<n. ring_slot ?c (i + 1 + of_nat k) \<noteq> j \<Longrightarrow> ds ! j = ?ds ! j"
    unfolding same by blast
  have fresh: "\<forall>k<n. ring_slot ?c (i + 1 + of_nat k) \<noteq> ring_slot ?c i"
  proof (intro allI impI notI)
    fix k assume k: "k < n" and eq: "ring_slot ?c (i + 1 + of_nat k) = ring_slot ?c i"
    have "Suc k = 0"
      by (rule ring_slot_inj [where c = ?c and f = i])
        (use Suc.prems k eq in \<open>simp_all add: liveD(1) add.assoc\<close>)
    then show False by simp
  qed
  have at_i: "ds ! ring_slot ?c i = ?v"
    using ds(4) [OF fresh] liveD(3) [OF Suc.prems(2)] liveD(4) [OF Suc.prems(2), of i] by (simp add: buffer_at_def)
  have "window ?c ds i (Suc n) = buffer_window m old i (Suc n)"
    using ds(3) [unfolded buffer_window_def same] at_i
    by (simp add: window_Suc_first buffer_window_def buffer_at_def)
  moreover have "ds ! j = cells_of m new ! j" if "\<forall>k<Suc n. ring_slot ?c (i + of_nat k) \<noteq> j" for j
  proof -
    have "ring_slot ?c (i + 1 + of_nat k) \<noteq> j" if "k < n" for k
      using \<open>\<forall>k<Suc n. ring_slot ?c (i + of_nat k) \<noteq> j\<close> [rule_format, of "Suc k"] that
      by (simp add: add.assoc)
    moreover have "ring_slot ?c i \<noteq> j" using that [rule_format, of 0] by simp
    ultimately show ?thesis using ds(4) [of j] by (simp add: buffer_at_def)
  qed
  moreover have "copy_loop old new i b m = Some (m\<lparr>heap := (heap m)(ptr new \<mapsto> ds)\<rparr>)"
    using ds(1) ib Suc.prems(1,2) by (simp add: copy_loop.simps [of old new i] buffer_copy_live)
  ultimately show ?case using ds(2) by blast
qed

text \<open>The drop loop visits the window once, in order.\<close>

lemma drop_loop_window:
  assumes "live m buf" "unat (b - i) = length ts" "buffer_window m buf i (length ts) = map Some ts"
  shows "drop_loop buf i b m = Some ts"
  using assms
proof (induction ts arbitrary: i)
  case Nil
  then show ?case by (simp add: drop_loop.simps unat_eq_zero)
next
  case (Cons t ts)
  have "i \<noteq> b" and "unat (b - (i + 1)) = length ts"
    using wrapping_distance_Suc [of b i "length ts"] Cons.prems(2) by auto
  with Cons show ?case
    by (simp add: drop_loop.simps [of buf i] buffer_window_def window_Suc_first buffer_read_live buffer_at_def)
qed

end
