(* ===== verification/Steal_Outcome.thy ===== *)
theory Steal_Outcome
  imports Prelude
begin

text \<open>
  The outcome of a steal operation (\<^verbatim>\<open>enum Steal\<close> of \<^verbatim>\<open>task/crossbeam.rs\<close>): its
  observers, the combinator \<open>or_else\<close> and the collection of an iterator of outcomes.
\<close>

section \<open>The enum and its operations\<close>

datatype 'a steal = Empty | Success 'a | Retry

fun steal_is_empty :: "'a steal \<Rightarrow> bool" where
  "steal_is_empty Empty = True"
| "steal_is_empty _ = False"

fun steal_is_success :: "'a steal \<Rightarrow> bool" where
  "steal_is_success (Success _) = True"
| "steal_is_success _ = False"

fun steal_is_retry :: "'a steal \<Rightarrow> bool" where
  "steal_is_retry Retry = True"
| "steal_is_retry _ = False"

fun steal_success :: "'a steal \<Rightarrow> 'a option" where
  "steal_success (Success res) = Some res"
| "steal_success _ = None"

text \<open>
  The closure of \<open>or_else\<close> acts on the state \<open>'s\<close> of the queues, so it is a state transformer
  that runs only where the source calls it; it may fail (\<open>None\<close>) as the queue operations may.
\<close>

fun steal_or_else :: "'a steal \<Rightarrow> ('s \<Rightarrow> ('a steal \<times> 's) option) \<Rightarrow> 's \<Rightarrow> ('a steal \<times> 's) option" where
  "steal_or_else Empty f s = f s"
| "steal_or_else (Success x) f s = Some (Success x, s)"
| "steal_or_else Retry f s = do {
     (r, s) \<leftarrow> f s;
     case r of Success res \<Rightarrow> Some (Success res, s) | _ \<Rightarrow> Some (Retry, s) }"

text \<open>
  \<open>from_iter\<close> pulls one outcome after the other from an iterator whose items are computed on
  demand (each item is a state transformer), and stops at the first success.
\<close>

fun steal_from_iter_loop :: "bool \<Rightarrow> ('s \<Rightarrow> ('a steal \<times> 's) option) list \<Rightarrow> 's \<Rightarrow> ('a steal \<times> 's) option" where
  "steal_from_iter_loop retry [] s = Some (if retry then Retry else Empty, s)"
| "steal_from_iter_loop retry (f # fs) s = do {
     (r, s) \<leftarrow> f s;
     case r of
       Empty \<Rightarrow> steal_from_iter_loop retry fs s
     | Success x \<Rightarrow> Some (Success x, s)
     | Retry \<Rightarrow> steal_from_iter_loop True fs s }"

definition steal_from_iter :: "('s \<Rightarrow> ('a steal \<times> 's) option) list \<Rightarrow> 's \<Rightarrow> ('a steal \<times> 's) option" where
  "steal_from_iter fs s = steal_from_iter_loop False fs s"

section \<open>What collecting outcomes means\<close>

text \<open>An item of an iterator over outcomes that are already there; the state counts the items pulled.\<close>

definition ready_item :: "'a steal \<Rightarrow> nat \<Rightarrow> ('a steal \<times> nat) option" where
  "ready_item r n = Some (r, Suc n)"

text \<open>The outcome as the documentation of \<open>from_iter\<close> and of \<open>or_else\<close> words it.\<close>

definition first_or_retry :: "'a steal list \<Rightarrow> 'a steal" where
  "first_or_retry rs =
     (case filter steal_is_success rs of
        r # _ \<Rightarrow> r
      | [] \<Rightarrow> if Retry \<in> set rs then Retry else Empty)"

definition pulled :: "'a steal list \<Rightarrow> nat" where
  "pulled rs = min (length rs) (Suc (length (takeWhile (\<lambda>r. \<not> steal_is_success r) rs)))"

lemma steal_from_iter_loop_ready:
  "steal_from_iter_loop retry (map ready_item rs) n =
     Some (case filter steal_is_success rs of
        r # _ \<Rightarrow> r
      | [] \<Rightarrow> if retry \<or> Retry \<in> set rs then Retry else Empty, n + pulled rs)"
proof (induction rs arbitrary: retry n)
  case (Cons r rs)
  then show ?case by (cases r) (auto simp: ready_item_def pulled_def split: list.splits)
qed (simp add: pulled_def)

lemma steal_or_else_from_iter:
  "steal_or_else r (steal_from_iter fs) s = steal_from_iter ((\<lambda>s. Some (r, s)) # fs) s"
proof (cases r)
  case Retry
  have "do { (r, s) \<leftarrow> steal_from_iter_loop retry fs s;
        case r of Success res \<Rightarrow> Some (Success res, s) | _ \<Rightarrow> Some (Retry, s) }
    = steal_from_iter_loop True fs s" for retry
  proof (induction fs arbitrary: retry s)
    case (Cons f fs)
    show ?case
    proof (cases "f s")
      case (Some rs)
      obtain r' s' where "rs = (r', s')" by (cases rs)
      with Some show ?thesis by (cases r') (simp_all add: Cons.IH)
    qed simp
  qed simp
  with Retry show ?thesis by (simp add: steal_from_iter_def)
qed (simp_all add: steal_from_iter_def)

lemma steal_success_iff: "steal_success r = Some x \<longleftrightarrow> r = Success x"
  by (cases r) auto

lemma steal_is_success_iff: "steal_is_success r \<longleftrightarrow> (\<exists>x. r = Success x)"
  by (cases r) auto

lemma steal_is_retry_iff: "steal_is_retry r \<longleftrightarrow> r = Retry"
  by (cases r) auto

section \<open>Properties\<close>

text \<open>
  C29: collecting an iterator of outcomes gives the first success, pulling no item after it;
  without a success it gives \<open>Retry\<close> if there is one and \<open>Empty\<close> otherwise, as the
  documentation of \<open>from_iter\<close> says; \<open>or_else\<close> with a collection as its second attempt acts
  as one more item in front.
\<close>

theorem steal_collect:
  "steal_or_else r (steal_from_iter (map ready_item rs)) n =
     Some (first_or_retry (r # rs), n + (if steal_is_success r then 0 else pulled rs))"
  by (cases r) (simp_all add: steal_or_else_from_iter steal_from_iter_def steal_from_iter_loop_ready
      first_or_retry_def)

end
