(* ===== verification/Queue_Interface.thy ===== *)
theory Queue_Interface
  imports Steal_Outcome
begin

text \<open>
  What the users of a task queue rely on, as locales over the list of tasks a queue holds. A
  \<open>task_queue\<close> is the owner's view (push, pop, is_empty); its two extensions fix which end
  \<open>pop\<close> takes from. A \<open>steal_source\<close> is a thief's view. \<open>None\<close> as the result of an
  operation stands for undefined behaviour or divergence, so each law also says that the
  operation returns.
\<close>

section \<open>Pushing and popping several tasks\<close>

text \<open>Pop \<open>n\<close> times, collecting the popped tasks; stop at the first empty answer.\<close>

fun pop_n :: "('q \<Rightarrow> ('a option \<times> 'q) option) \<Rightarrow> nat \<Rightarrow> 'q \<Rightarrow> ('a list \<times> 'q) option" where
  "pop_n pop 0 q = Some ([], q)"
| "pop_n pop (Suc n) q = do {
     (r, q') \<leftarrow> pop q;
     case r of
       None \<Rightarrow> Some ([], q')
     | Some x \<Rightarrow> do { (xs, q'') \<leftarrow> pop_n pop n q'; Some (x # xs, q'') } }"

text \<open>One steal, seen as a pop.\<close>

definition steal_once :: "('q \<Rightarrow> ('a steal \<times> 'q) option) \<Rightarrow> 'q \<Rightarrow> ('a option \<times> 'q) option" where
  "steal_once steal q = do { (r, q') \<leftarrow> steal q; Some (steal_success r, q') }"

section \<open>The owner's view\<close>

locale task_queue =
  fixes push :: "'a \<Rightarrow> 'q \<Rightarrow> 'q option"
    and pop :: "'q \<Rightarrow> ('a option \<times> 'q) option"
    and is_empty :: "'q \<Rightarrow> bool"
    and tasks_of :: "'q \<Rightarrow> 'a list"
    and invar :: "'q \<Rightarrow> bool"
    and limit :: nat
  assumes push_law: "\<lbrakk>invar q; length (tasks_of q) < limit\<rbrakk>
      \<Longrightarrow> \<exists>q'. push x q = Some q' \<and> invar q' \<and> tasks_of q' = tasks_of q @ [x]"
    and pop_empty: "\<lbrakk>invar q; tasks_of q = []\<rbrakk> \<Longrightarrow> \<exists>q'. pop q = Some (None, q') \<and> invar q' \<and> tasks_of q' = []"
    and is_empty_law: "invar q \<Longrightarrow> is_empty q \<longleftrightarrow> tasks_of q = []"
begin

lemma push_all:
  assumes "invar q" "length (tasks_of q) + length xs \<le> limit"
  shows "\<exists>q'. for_in xs push q = Some q' \<and> invar q' \<and> tasks_of q' = tasks_of q @ xs"
  using assms
proof (induction xs arbitrary: q)
  case (Cons x xs)
  then have "length (tasks_of q) < limit" by simp
  with Cons.prems(1) obtain q1 where q1: "push x q = Some q1" "invar q1" "tasks_of q1 = tasks_of q @ [x]"
    using push_law by blast
  with Cons show ?case using Cons.IH [of q1] by simp
qed simp

end

locale fifo_queue = task_queue +
  assumes pop_front: "\<lbrakk>invar q; tasks_of q = x # xs\<rbrakk>
      \<Longrightarrow> \<exists>q'. pop q = Some (Some x, q') \<and> invar q' \<and> tasks_of q' = xs"
begin

lemma pop_n_front:
  assumes "invar q" "n \<le> length (tasks_of q)"
  shows "\<exists>q'. pop_n pop n q = Some (take n (tasks_of q), q') \<and> invar q' \<and> tasks_of q' = drop n (tasks_of q)"
  using assms
proof (induction n arbitrary: q)
  case (Suc n)
  then obtain x xs where split: "tasks_of q = x # xs" by (cases "tasks_of q") auto
  with Suc.prems(1) obtain q1 where q1: "pop q = Some (Some x, q1)" "invar q1" "tasks_of q1 = xs"
    using pop_front by blast
  with Suc.IH [of q1] Suc.prems(2) split show ?case by auto
qed simp

text \<open>First in, first out: what was pushed comes back in order, after what was there.\<close>

lemma push_all_pop_n:
  assumes "invar q" "length (tasks_of q) + length xs \<le> limit"
  shows "\<exists>q1 q2. for_in xs push q = Some q1
    \<and> pop_n pop (length (tasks_of q) + length xs) q1 = Some (tasks_of q @ xs, q2) \<and> tasks_of q2 = []"
proof -
  obtain q1 where q1: "for_in xs push q = Some q1" "invar q1" "tasks_of q1 = tasks_of q @ xs"
    using push_all [OF assms] by blast
  have "length (tasks_of q) + length xs \<le> length (tasks_of q1)" by (simp add: q1(3))
  from pop_n_front [OF q1(2) this] show ?thesis using q1(1,3) by auto
qed

end

locale lifo_queue = task_queue +
  assumes pop_rear: "\<lbrakk>invar q; tasks_of q = xs @ [x]\<rbrakk>
      \<Longrightarrow> \<exists>q'. pop q = Some (Some x, q') \<and> invar q' \<and> tasks_of q' = xs"
begin

lemma pop_n_rear:
  assumes "invar q" "tasks_of q = ys @ xs"
  shows "\<exists>q'. pop_n pop (length xs) q = Some (rev xs, q') \<and> invar q' \<and> tasks_of q' = ys"
  using assms
proof (induction xs arbitrary: q rule: rev_induct)
  case (snoc x xs)
  then obtain q1 where q1: "pop q = Some (Some x, q1)" "invar q1" "tasks_of q1 = ys @ xs"
    using pop_rear [of q "ys @ xs" x] by auto
  with snoc.IH [of q1] show ?case by auto
qed simp

text \<open>Last in, first out: what was pushed comes back in reverse, and the older tasks stay.\<close>

lemma push_all_pop_n:
  assumes "invar q" "length (tasks_of q) + length xs \<le> limit"
  shows "\<exists>q1 q2. for_in xs push q = Some q1
    \<and> pop_n pop (length xs) q1 = Some (rev xs, q2) \<and> tasks_of q2 = tasks_of q"
proof -
  obtain q1 where q1: "for_in xs push q = Some q1" "invar q1" "tasks_of q1 = tasks_of q @ xs"
    using push_all [OF assms] by blast
  from pop_n_rear [OF q1(2,3)] show ?thesis using q1(1) by auto
qed

end

section \<open>The thief's view\<close>

locale steal_source =
  fixes steal :: "'q \<Rightarrow> ('a steal \<times> 'q) option"
    and tasks_of :: "'q \<Rightarrow> 'a list"
    and invar :: "'q \<Rightarrow> bool"
  assumes steal_front: "\<lbrakk>invar q; tasks_of q = x # xs\<rbrakk>
      \<Longrightarrow> \<exists>q'. steal q = Some (Success x, q') \<and> invar q' \<and> tasks_of q' = xs"
    and steal_empty: "\<lbrakk>invar q; tasks_of q = []\<rbrakk> \<Longrightarrow> \<exists>q'. steal q = Some (Empty, q') \<and> invar q' \<and> tasks_of q' = []"
begin

text \<open>A thief that meets no other thread takes the tasks oldest first, and then finds the source empty.\<close>

lemma steal_all:
  assumes "invar q"
  shows "\<exists>q'. pop_n (steal_once steal) (Suc (length (tasks_of q))) q = Some (tasks_of q, q')
    \<and> invar q' \<and> tasks_of q' = []"
  using assms
proof (induction "tasks_of q" arbitrary: q)
  case Nil
  then show ?case using steal_empty [of q] by (auto simp: steal_once_def)
next
  case (Cons x xs)
  then obtain q1 where q1: "steal q = Some (Success x, q1)" "invar q1" "tasks_of q1 = xs"
    using steal_front [of q x xs] by auto
  obtain q' where q': "pop_n (steal_once steal) (Suc (length xs)) q1 = Some (xs, q')" "invar q'" "tasks_of q' = []"
    using Cons.hyps(1) [of q1] q1(2,3) by auto
  have "steal_once steal q = Some (Some x, q1)" by (simp add: steal_once_def q1(1))
  with q' show ?case unfolding Cons.hyps(2) [symmetric] pop_n.simps(2) [of _ "length (x # xs)"]
    by (simp del: pop_n.simps)
qed

end

end
