(* ===== verification/Worker_Queue.thy ===== *)
theory Worker_Queue
  imports Buffer Queue_Interface
begin

text \<open>
  The owner's side of the work-stealing deque (\<^verbatim>\<open>Inner\<close>, \<^verbatim>\<open>Worker\<close> and \<^verbatim>\<open>Drop for Inner\<close> of
  \<^verbatim>\<open>task/crossbeam.rs\<close>): creation, \<open>push\<close>, \<open>pop\<close>, \<open>resize\<close>, \<open>reserve\<close>, the observers and the
  destructor, with the wrapping 64-bit indices of the code.

  The queue is shared with thieves. An operation takes an environment \<open>env\<close>: \<open>env k\<close> is what
  the other threads do to the queue at the operation's \<open>k\<close>-th gap, between two of its own
  accesses to shared memory; \<open>quiet\<close> is the environment in which nothing happens. Memory is
  sequentially consistent, so fences are no steps of the model. Pinning the epoch collector
  has no effect on the queue; \<open>defer_unchecked\<close> puts a retired buffer on the list
  \<open>garbage\<close>, to be freed by the collector later, and \<open>flush\<close> is counted.
\<close>

section \<open>State\<close>

definition MIN_CAP :: usize where "MIN_CAP = 64"
definition FLUSH_THRESHOLD_BYTES :: usize where "FLUSH_THRESHOLD_BYTES = push_bit 10 1"

datatype flavor = Fifo | Lifo

text \<open>
  The fields of \<^verbatim>\<open>Inner\<close> (\<open>front\<close>, \<open>back_index\<close>, \<open>ibuf\<close>) and of \<^verbatim>\<open>Worker\<close> (\<open>wbuf\<close>, its copy of
  \<open>ibuf\<close>, and \<open>flavor\<close>), on top of the memory of the queue's buffers; \<open>elem_size\<close> is
  \<^verbatim>\<open>mem::size_of::<T>()\<close>.
\<close>

record 'a worker = "'a memory" +
  front :: isize
  back_index :: isize
  ibuf :: buffer
  wbuf :: buffer
  flavor :: flavor
  elem_size :: usize
  garbage :: "buffer list"
  flushes :: nat

type_synonym 'a env = "nat \<Rightarrow> 'a worker \<Rightarrow> 'a worker"

definition quiet :: "'a env" where "quiet = (\<lambda>k q. q)"

section \<open>Operations\<close>

definition worker_new :: "flavor \<Rightarrow> usize \<Rightarrow> 'a worker" where
  "worker_new fl sz =
     (let (buf, m) = buffer_alloc MIN_CAP \<lparr>heap = Map.empty, next_ptr = 0\<rparr>
      in \<lparr>heap = heap m, next_ptr = next_ptr m, front = 0, back_index = 0, ibuf = buf, wbuf = buf,
          flavor = fl, elem_size = sz, garbage = [], flushes = 0\<rparr>)"

definition worker_new_fifo :: "usize \<Rightarrow> 'a worker" where
  "worker_new_fifo sz = worker_new Fifo sz"

definition worker_new_lifo :: "usize \<Rightarrow> 'a worker" where
  "worker_new_lifo sz = worker_new Lifo sz"

text \<open>Gap 0 is before the load of \<open>front\<close>, gap 1 before the swap of the shared buffer.\<close>

definition resize :: "'a env \<Rightarrow> usize \<Rightarrow> 'a worker \<Rightarrow> 'a worker option" where
  "resize env new_cap q =
     (let b = back_index q; q = env 0 q; f = front q; buf = wbuf q; (new, q) = buffer_alloc new_cap q
      in do {
        q \<leftarrow> copy_loop buf new f b q;
        let q = env 1 (q\<lparr>wbuf := new\<rparr>);
        let old = ibuf q;
        let q = q\<lparr>ibuf := new, garbage := garbage q @ [old]\<rparr>;
        Some (if FLUSH_THRESHOLD_BYTES \<le> elem_size q * new_cap
              then q\<lparr>flushes := Suc (flushes q)\<rparr> else q) })"

text \<open>\<^verbatim>\<open>while new_cap - len < reserve_cap { new_cap *= 2 }\<close>; \<open>None\<close> if the loop never ends.\<close>

partial_function (option) grow_loop :: "usize \<Rightarrow> usize \<Rightarrow> usize \<Rightarrow> usize option" where
  "grow_loop new_cap len reserve_cap =
     (if new_cap - len < reserve_cap then grow_loop (new_cap * 2) len reserve_cap else Some new_cap)"

definition worker_reserve :: "'a env \<Rightarrow> usize \<Rightarrow> 'a worker \<Rightarrow> 'a worker option" where
  "worker_reserve env reserve_cap q =
     (if 0 < reserve_cap then
        let b = back_index q; q = env 0 q; f = front q; len = b - f; c = cap (wbuf q)
        in if c - len < reserve_cap
           then do { new_cap \<leftarrow> grow_loop (c * 2) len reserve_cap; resize (\<lambda>k. env (k + 1)) new_cap q }
           else Some q
      else Some q)"

definition worker_is_empty :: "'a worker \<Rightarrow> bool" where
  "worker_is_empty q = (let b = back_index q; f = front q in sint (b - f) \<le> 0)"

definition worker_len :: "'a worker \<Rightarrow> usize" where
  "worker_len q = (let b = back_index q; f = front q in if sint (b - f) < 0 then 0 else b - f)"

text \<open>Gap 0 is before the load of \<open>front\<close>; gaps 1 and 2 are those of \<open>resize\<close>; gap 3 is before the store of \<open>back\<close>.\<close>

definition worker_push :: "'a env \<Rightarrow> 'a \<Rightarrow> 'a worker \<Rightarrow> 'a worker option" where
  "worker_push env task q =
     (let b = back_index q; q = env 0 q; f = front q; buf = wbuf q; len = b - f
      in do {
        q \<leftarrow> (if sint (cap buf) \<le> sint len then resize (\<lambda>k. env (k + 1)) (2 * cap buf) q else Some q);
        q \<leftarrow> buffer_write (wbuf q) b task q;
        let q = env 3 q;
        Some (q\<lparr>back_index := b + 1\<rparr>) })"

text \<open>
  Gap 0 is before the load of \<open>front\<close>. A FIFO pop has gap 1 before the \<open>fetch_add\<close>, gap 2 before
  the store that takes it back. A LIFO pop has gap 1 before its second load of \<open>front\<close> and gap 2
  before the \<open>compare_exchange\<close>. Gaps 3 and 4 are those of \<open>resize\<close>.
\<close>

definition worker_pop_fifo :: "'a env \<Rightarrow> isize \<Rightarrow> isize \<Rightarrow> 'a worker \<Rightarrow> ('a option \<times> 'a worker) option" where
  "worker_pop_fifo env b len q =
     (let q = env 1 q; f = front q; q = q\<lparr>front := f + 1\<rparr>; new_f = f + 1
      in if sint (b - new_f) < 0 then Some (None, (env 2 q)\<lparr>front := f\<rparr>)
         else do {
           let buf = wbuf q;
           task \<leftarrow> buffer_read buf f q;
           q \<leftarrow> (if MIN_CAP < cap buf \<and> sint len \<le> sint (cap buf) sdiv 4
                 then resize (\<lambda>k. env (k + 3)) (cap buf div 2) q else Some q);
           Some (Some task, q) })"

definition worker_pop_lifo :: "'a env \<Rightarrow> isize \<Rightarrow> 'a worker \<Rightarrow> ('a option \<times> 'a worker) option" where
  "worker_pop_lifo env b q =
     (let b = b - 1; q = q\<lparr>back_index := b\<rparr>; q = env 1 q; f = front q; len = b - f
      in if sint len < 0 then Some (None, q\<lparr>back_index := b + 1\<rparr>)
         else do {
           let buf = wbuf q;
           task \<leftarrow> buffer_read buf b q;
           if len = 0 then
             let q = env 2 q
             in if front q = f
                then Some (Some task, q\<lparr>front := f + 1, back_index := b + 1\<rparr>)
                else Some (None, q\<lparr>back_index := b + 1\<rparr>)
           else do {
             q \<leftarrow> (if MIN_CAP < cap buf \<and> sint len < sint (cap buf) sdiv 4
                   then resize (\<lambda>k. env (k + 3)) (cap buf div 2) q else Some q);
             Some (Some task, q) } })"

definition worker_pop :: "'a env \<Rightarrow> 'a worker \<Rightarrow> ('a option \<times> 'a worker) option" where
  "worker_pop env q =
     (let b = back_index q; q = env 0 q; f = front q; len = b - f
      in if sint len \<le> 0 then Some (None, q)
         else case flavor q of
           Fifo \<Rightarrow> worker_pop_fifo env b len q
         | Lifo \<Rightarrow> worker_pop_lifo env b q)"

text \<open>\<^verbatim>\<open>Drop for Inner\<close>: the dropped tasks and the memory without the current buffer.\<close>

definition inner_drop :: "'a worker \<Rightarrow> ('a list \<times> 'a worker) option" where
  "inner_drop q =
     (let b = back_index q; f = front q; buf = ibuf q
      in do { ts \<leftarrow> drop_loop buf f b q; q \<leftarrow> buffer_dealloc buf q; Some (ts, q) })"

section \<open>Abstraction to a list of tasks\<close>

definition shape :: "'a worker \<Rightarrow> bool" where
  "shape q \<longleftrightarrow> live q (wbuf q) \<and> ibuf q = wbuf q \<and> MIN_CAP \<le> cap (wbuf q) \<and>
     (\<forall>p \<ge> next_ptr q. heap q p = None) \<and>
     (\<forall>buf \<in> set (garbage q). heap q (ptr buf) \<noteq> None \<and> ptr buf \<noteq> ptr (wbuf q)) \<and>
     distinct (map ptr (garbage q))"

definition represents :: "'a worker \<Rightarrow> 'a list \<Rightarrow> bool" where
  "represents q xs \<longleftrightarrow> shape q \<and> unat (back_index q - front q) = length xs \<and>
     length xs \<le> unat (cap (wbuf q)) \<and>
     buffer_window q (wbuf q) (front q) (length xs) = map Some xs"

lemma representsD:
  assumes "represents q xs"
  shows "shape q" "live q (wbuf q)" "ibuf q = wbuf q" "pow2 (cap (wbuf q))"
    "unat (back_index q - front q) = length xs" "length xs \<le> unat (cap (wbuf q))"
    "back_index q = front q + of_nat (length xs)"
    "back_index q - front q = of_nat (length xs)"
    "buffer_window q (wbuf q) (front q) (length xs) = map Some xs"
    "length xs \<le> 2 ^ 62" "sint (back_index q - front q) = int (length xs)"
proof -
  show s: "shape q" and l: "live q (wbuf q)" "ibuf q = wbuf q" and p: "pow2 (cap (wbuf q))"
    and d: "unat (back_index q - front q) = length xs" and b: "length xs \<le> unat (cap (wbuf q))"
    and "buffer_window q (wbuf q) (front q) (length xs) = map Some xs"
    using assms by (auto simp: represents_def shape_def live_def)
  show e: "back_index q - front q = of_nat (length xs)" by (simp flip: d)
  then show "back_index q = front q + of_nat (length xs)" by (simp add: algebra_simps)
  show le: "length xs \<le> 2 ^ 62" using b pow2_unat(2) [OF p] by simp
  show "sint (back_index q - front q) = int (length xs)"
    unfolding d [symmetric] by (rule sint_small) (use d le in simp)
qed

lemma representsI:
  assumes "shape q" "back_index q = front q + of_nat (length xs)" "length xs \<le> unat (cap (wbuf q))"
    "buffer_window q (wbuf q) (front q) (length xs) = map Some xs"
  shows "represents q xs"
proof -
  have "length xs \<le> 2 ^ 62"
    using assms(1,3) pow2_unat(2) [of "cap (wbuf q)"] by (simp add: shape_def live_def)
  with assms show ?thesis by (simp add: represents_def unat_of_nat_small)
qed

lemma represents_drop:
  assumes "represents q xs" "n \<le> length xs"
  shows "represents (q\<lparr>front := front q + of_nat n\<rparr>) (drop n xs)"
proof -
  note r = representsD [OF assms(1)]
  have "back_index q = front q + of_nat n + of_nat (length xs - n)"
    using r(7) assms(2) by (simp add: of_nat_diff)
  moreover have "buffer_window q (wbuf q) (front q + of_nat n) (length xs - n) = map Some (drop n xs)"
    using r(9) assms(2) by (simp add: buffer_window_def window_drop drop_map)
  moreover have "shape (q\<lparr>front := front q + of_nat n\<rparr>)"
    using r(1) by (simp add: shape_def live_def)
  ultimately show ?thesis using r(6) by (intro representsI) (simp_all add: buffer_window_def cells_of_def)
qed

lemma represents_read:
  "\<lbrakk>represents q xs; i < length xs\<rbrakk> \<Longrightarrow> buffer_read (wbuf q) (front q + of_nat i) q = Some (xs ! i)"
  using buffer_read_window [of q "wbuf q" i "length xs" "front q"] by (simp add: representsD)

lemma represents_butlast:
  assumes "represents q (xs @ [x])"
  shows "represents (q\<lparr>back_index := back_index q - 1\<rparr>) xs"
proof -
  note r = representsD [OF assms]
  have "back_index q - 1 = front q + of_nat (length xs)" using r(7) by simp
  moreover have "buffer_window q (wbuf q) (front q) (length xs) = map Some xs"
    using r(9) by (simp add: buffer_window_def window_Suc_last)
  moreover have "shape (q\<lparr>back_index := back_index q - 1\<rparr>)"
    using r(1) by (simp add: shape_def live_def)
  ultimately show ?thesis using r(6) by (intro representsI) (simp_all add: buffer_window_def cells_of_def)
qed

text \<open>A step that touches the memory of the buffers only.\<close>

definition mem_only :: "'a worker \<Rightarrow> 'a worker \<Rightarrow> bool" where
  "mem_only q q' \<longleftrightarrow> q' = q\<lparr>heap := heap q', next_ptr := next_ptr q'\<rparr>"

lemma mem_onlyD:
  assumes "mem_only q q'"
  shows "front q' = front q" "back_index q' = back_index q" "ibuf q' = ibuf q" "wbuf q' = wbuf q"
    "flavor q' = flavor q" "elem_size q' = elem_size q" "garbage q' = garbage q" "flushes q' = flushes q"
  by (subst assms [unfolded mem_only_def], simp)+

lemma represents_write:
  assumes "represents q xs" "length xs < unat (cap (wbuf q))"
  shows "\<exists>q'. buffer_write (wbuf q) (back_index q) t q = Some q'
     \<and> mem_only q q'
     \<and> represents (q'\<lparr>back_index := back_index q + 1\<rparr>) (xs @ [t])"
proof -
  note r = representsD [OF assms(1)]
  let ?cs = "(cells_of q (wbuf q))[buffer_at (wbuf q) (back_index q) := Some t]"
  let ?q = "q\<lparr>heap := (heap q)(ptr (wbuf q) \<mapsto> ?cs)\<rparr>"
  have "window (cap (wbuf q)) ?cs (front q) (Suc (length xs)) = map Some xs @ [Some t]"
    using window_update_last [OF r(4) assms(2) liveD(3) [OF r(2)], of "front q" "Some t"] r(9)
    by (simp add: buffer_at_def buffer_window_def r(7))
  moreover have "shape ?q"
    using r(1) by (auto simp: shape_def live_def cells_of_def)
  ultimately have "represents (?q\<lparr>back_index := back_index q + 1\<rparr>) (xs @ [t])"
    using assms(2) r(7)
    by (intro representsI) (auto simp: shape_def live_def buffer_window_def cells_of_def add.assoc)
  then show ?thesis by (auto simp: buffer_write_live r(2) mem_only_def)
qed

lemma represents_flushes [simp]: "represents (q\<lparr>flushes := n\<rparr>) xs = represents q xs"
  by (simp add: represents_def shape_def live_def buffer_window_def cells_of_def)

section \<open>Thieves\<close>

text \<open>
  What stealers may do to the queue of its owner at a gap: move \<open>front\<close> forward over tasks that
  are in the queue.
\<close>

definition theft :: "'a worker \<Rightarrow> 'a worker \<Rightarrow> bool" where
  "theft q q' \<longleftrightarrow> (\<exists>n \<le> nat (sint (back_index q - front q)). q' = q\<lparr>front := front q + of_nat n\<rparr>)"

text \<open>
  Thieves by schedule: at gap \<open>k\<close> they take \<open>ks k\<close> tasks, or all of them if there are fewer, so that the result of an
  operation can be given as a function of what was taken when.
\<close>

definition thieves_take :: "(nat \<Rightarrow> nat) \<Rightarrow> 'a env" where
  "thieves_take ks k q = q\<lparr>front := front q + of_nat (min (ks k) (nat (sint (back_index q - front q))))\<rparr>"

lemma theft_scheduled: "theft q q' \<longleftrightarrow> (\<exists>n. q' = thieves_take (\<lambda>_. n) k q)"
proof
  assume "theft q q'"
  then obtain n where "n \<le> nat (sint (back_index q - front q))" "q' = q\<lparr>front := front q + of_nat n\<rparr>" by (auto simp: theft_def)
  then show "\<exists>n. q' = thieves_take (\<lambda>_. n) k q" by (intro exI [of _ n]) (simp add: thieves_take_def min_absorb1)
next
  assume "\<exists>n. q' = thieves_take (\<lambda>_. n) k q"
  then obtain n where "q' = thieves_take (\<lambda>_. n) k q" ..
  then show "theft q q'" unfolding theft_def thieves_take_def by (intro exI [of _ "min n (nat (sint (back_index q - front q)))"]) simp
qed

lemma thieves_take_shift [simp]: "(\<lambda>k. thieves_take ks (k + i)) = thieves_take (\<lambda>k. ks (k + i))"
  by (simp add: thieves_take_def fun_eq_iff)

lemma quiet_take: "quiet = thieves_take (\<lambda>_. 0)"
  by (simp add: quiet_def thieves_take_def fun_eq_iff)

lemma quiet_shift [simp]: "(\<lambda>k. quiet (k + i)) = quiet" "(\<lambda>k. quiet (Suc k)) = quiet"
  by (simp_all add: quiet_def)

lemma thieves_take_sel [simp]:
  "back_index (thieves_take ks k q) = back_index q" "wbuf (thieves_take ks k q) = wbuf q"
  "flavor (thieves_take ks k q) = flavor q" "elem_size (thieves_take ks k q) = elem_size q"
  by (simp_all add: thieves_take_def)

lemma thieves_take_drop:
  assumes "represents q xs"
  shows "represents (thieves_take ks k q) (drop (ks k) xs)"
proof -
  have "nat (sint (back_index q - front q)) = length xs" using representsD(11) [OF assms] by simp
  moreover have "drop (min (ks k) (length xs)) xs = drop (ks k) xs" by (simp add: min_def)
  ultimately show ?thesis using represents_drop [OF assms, of "min (ks k) (length xs)"] by (simp add: thieves_take_def)
qed

definition grown :: "'a worker \<Rightarrow> 'a worker \<Rightarrow> bool" where
  "grown q q' \<longleftrightarrow> back_index q' = back_index q \<and> flavor q' = flavor q \<and> elem_size q' = elem_size q"

lemma represents_copied:
  assumes r: "represents q xs" and c: "pow2 c" "MIN_CAP \<le> c" "length xs \<le> unat c"
    and a: "buffer_alloc c q = (new, q2)"
  shows "\<exists>q3. copy_loop (wbuf q) new (front q) (back_index q) q2 = Some q3
    \<and> mem_only q q3
    \<and> represents (q3\<lparr>wbuf := new, ibuf := new, garbage := garbage q @ [wbuf q]\<rparr>) xs"
proof -
  note d = representsD [OF r] and al = buffer_alloc_live [OF a c(1)]
  have fresh: "heap q (next_ptr q) = None" "heap q (ptr (wbuf q)) \<noteq> None"
    using d(1) by (auto simp: shape_def live_def)
  then have ne: "ptr (wbuf q) \<noteq> ptr new" using al(3) by metis
  have old: "live q2 (wbuf q)"
    using d(2) al(5) ne al(3) by (auto intro: live_heap_other)
  have same: "buffer_window q2 (wbuf q) (front q) (length xs) = map Some xs"
    using buffer_window_other [of q2 "wbuf q" q] al(3,5) ne d(9) by simp
  obtain ds where ds: "copy_loop (wbuf q) new (front q) (back_index q) q2
      = Some (q2\<lparr>heap := (heap q2)(ptr new \<mapsto> ds)\<rparr>)"
    "length ds = unat (cap new)" "window (cap new) ds (front q) (length xs) = map Some xs"
    using copy_loop_window [OF old al(1) ne d(5)] c(3) al(2) same by auto
  let ?q3 = "q2\<lparr>heap := (heap q2)(ptr new \<mapsto> ds)\<rparr>"
  let ?q4 = "?q3\<lparr>wbuf := new, ibuf := new, garbage := garbage q @ [wbuf q]\<rparr>"
  have q2: "q2 = q\<lparr>heap := (heap q)(next_ptr q \<mapsto> replicate (unat c) None), next_ptr := Suc (next_ptr q)\<rparr>"
    and new: "new = \<lparr>ptr = next_ptr q, cap = c\<rparr>"
    using a by (simp_all add: buffer_alloc_def)
  have q3: "mem_only q ?q3" unfolding q2 by (simp add: mem_only_def)
  have "shape ?q4"
    using d(1) c(1,2) ds(2) ne fresh unfolding q2 new by (auto simp: shape_def live_def)
  then have "represents ?q4 xs"
    using d(7) c(3) ds(3) unfolding q2 new
    by (intro representsI) (simp_all add: buffer_window_def cells_of_def)
  with ds(1) q3 show ?thesis by blast
qed

section \<open>The operations on the list of tasks\<close>

lemma resize_represents:
  assumes r: "represents q xs" and c: "pow2 c" "MIN_CAP \<le> c" "length xs \<le> unat c"
  obtains q' where "resize (thieves_take ks) c q = Some q'" "represents q' (drop (ks 0 + ks 1) xs)"
    "cap (wbuf q') = c" "grown q q'"
proof -
  let ?q0 = "thieves_take ks 0 q"
  have r0: "represents ?q0 (drop (ks 0) xs)" by (rule thieves_take_drop [OF r])
  obtain new q2 where a: "buffer_alloc c ?q0 = (new, q2)" by fastforce
  have "length (drop (ks 0) xs) \<le> unat c" using c(3) by simp
  with represents_copied [OF r0 c(1,2) _ a] obtain q3 where
    q3: "copy_loop (wbuf ?q0) new (front ?q0) (back_index ?q0) q2 = Some q3" "mem_only ?q0 q3"
    and r3: "represents (q3\<lparr>wbuf := new, ibuf := new, garbage := garbage ?q0 @ [wbuf ?q0]\<rparr>) (drop (ks 0) xs)"
    by blast
  let ?q3 = "q3\<lparr>wbuf := new, ibuf := new, garbage := garbage q3 @ [ibuf q3]\<rparr>"
  have r3': "represents ?q3 (drop (ks 0) xs)"
    using r3 representsD(3) [OF r0] by (simp add: mem_onlyD [OF q3(2)])
  let ?q4 = "thieves_take ks 1 (q3\<lparr>wbuf := new\<rparr>)"
  let ?q5 = "?q4\<lparr>ibuf := new, garbage := garbage ?q4 @ [ibuf ?q4]\<rparr>"
  have "?q5 = thieves_take ks 1 ?q3" by (simp add: thieves_take_def)
  then have r5: "represents ?q5 (drop (ks 0 + ks 1) xs)"
    using thieves_take_drop [OF r3', of ks 1] by (simp add: add.commute)
  let ?q6 = "if FLUSH_THRESHOLD_BYTES \<le> elem_size ?q5 * c then ?q5\<lparr>flushes := Suc (flushes ?q5)\<rparr> else ?q5"
  have res: "resize (thieves_take ks) c q = Some ?q6"
    using q3(1) a by (simp add: resize_def Let_def)
  have "cap new = c" using a by (auto simp: buffer_alloc_def)
  moreover have "represents ?q6 (drop (ks 0 + ks 1) xs)" using r5 by simp
  ultimately show ?thesis by (intro that [OF res]) (simp_all add: grown_def mem_onlyD [OF q3(2)])
qed

lemma MIN_CAP_le: "MIN_CAP \<le> c \<longleftrightarrow> 64 \<le> unat c"
  by (simp add: MIN_CAP_def word_le_nat_alt)

lemma MIN_CAP_less: "MIN_CAP < c \<longleftrightarrow> 64 < unat c"
  by (simp add: MIN_CAP_def word_less_nat_alt)

text \<open>The growing step of a push: after it the buffer has room for one more task.\<close>

lemma grow_represents:
  assumes r: "represents q xs" and bound: "length xs < 2 ^ 62"
  defines "full \<equiv> unat (cap (wbuf q)) \<le> length xs"
  obtains q' where
    "(if sint (cap (wbuf q)) \<le> sint (back_index q - front q) then resize (thieves_take ks) (2 * cap (wbuf q)) q else Some q) = Some q'"
    "represents q' (drop (if full then ks 0 + ks 1 else 0) xs)" "grown q q'"
    "cap (wbuf q') = (if full then 2 * cap (wbuf q) else cap (wbuf q))" "length xs < unat (cap (wbuf q'))"
proof -
  let ?c = "cap (wbuf q)"
  have cmp: "sint ?c \<le> sint (back_index q - front q) \<longleftrightarrow> full"
    using pow2_unat(2) [OF representsD(4) [OF r]] representsD(5,10) [OF r] unfolding full_def
    by (subst sint_le_iff_unat) auto
  show ?thesis
  proof (cases full)
    case True
    then have len: "unat ?c = length xs" using representsD(6) [OF r] by (simp add: full_def)
    then have c: "pow2 (2 * ?c)" "unat (2 * ?c) = 2 * unat ?c"
      using pow2_double [OF representsD(4) [OF r]] bound by auto
    have m: "MIN_CAP \<le> 2 * ?c" using representsD(1) [OF r] c(2) by (simp add: shape_def MIN_CAP_le)
    have "length xs \<le> unat (2 * ?c)" using len c(2) by simp
    from resize_represents [OF r c(1) m this] obtain q' where "resize (thieves_take ks) (2 * ?c) q = Some q'"
      "represents q' (drop (ks 0 + ks 1) xs)" "cap (wbuf q') = 2 * ?c" "grown q q'" .
    then show ?thesis
      using True cmp len c(2) pow2_unat(1) [OF representsD(4) [OF r]] by (intro that [of q']) auto
  next
    case False
    then show ?thesis using cmp r by (intro that [of q]) (auto simp: grown_def full_def)
  qed
qed

lemma worker_push_represents:
  fixes ks :: "nat \<Rightarrow> nat"
  assumes r: "represents q xs" and bound: "length xs < 2 ^ 62"
  defines "full \<equiv> unat (cap (wbuf q)) \<le> length xs - ks 0"
  obtains q' where "worker_push (thieves_take ks) x q = Some q'"
    "represents q' (drop (ks 0 + (if full then ks 1 + ks 2 else 0) + ks 3) xs @ [x])"
    "cap (wbuf q') = (if full then 2 * cap (wbuf q) else cap (wbuf q))" "flavor q' = flavor q" "elem_size q' = elem_size q"
proof -
  let ?q0 = "thieves_take ks 0 q" and ?xs = "drop (ks 0) xs"
  have r0: "represents ?q0 ?xs" by (rule thieves_take_drop [OF r])
  have "length ?xs < 2 ^ 62" using bound by simp
  from grow_represents [OF r0 this, of "\<lambda>k. ks (k + 1)"] obtain q1 where
    q1: "(if sint (cap (wbuf ?q0)) \<le> sint (back_index ?q0 - front ?q0)
      then resize (thieves_take (\<lambda>k. ks (k + 1))) (2 * cap (wbuf ?q0)) ?q0 else Some ?q0) = Some q1"
    "represents q1 (drop (if unat (cap (wbuf ?q0)) \<le> length ?xs then ks (0 + 1) + ks (1 + 1) else 0) ?xs)" "grown ?q0 q1"
    "cap (wbuf q1) = (if unat (cap (wbuf ?q0)) \<le> length ?xs then 2 * cap (wbuf ?q0) else cap (wbuf ?q0))"
    "length ?xs < unat (cap (wbuf q1))" .
  have c1: "cap (wbuf q1) = (if full then 2 * cap (wbuf q) else cap (wbuf q))" using q1(4) by (simp add: full_def)
  have r1: "represents q1 (drop (ks 0 + (if full then ks 1 + ks 2 else 0)) xs)" (is "represents q1 ?ys")
    using q1(2) by (simp add: full_def add.commute numeral_2_eq_2 split: if_splits)
  have back1: "back_index q1 = back_index q" using q1(3) by (simp add: grown_def)
  have "length ?ys < unat (cap (wbuf q1))" using q1(5) by simp
  from represents_write [OF r1 this, of x] obtain q2 where
    q2: "buffer_write (wbuf q1) (back_index q) x q1 = Some q2" "mem_only q1 q2"
    "represents (q2\<lparr>back_index := back_index q + 1\<rparr>) (?ys @ [x])"
    using back1 by (auto simp: add.commute)
  note m2 = mem_onlyD [OF q2(2)]
  have taken: "thieves_take ks 3 q2 = q2\<lparr>front := front q2 + of_nat (min (ks 3) (length ?ys))\<rparr>"
    using representsD(11) [OF r1] by (simp add: thieves_take_def m2)
  let ?q3 = "(q2\<lparr>back_index := back_index q + 1\<rparr>)\<lparr>front := front q2 + of_nat (min (ks 3) (length ?ys))\<rparr>"
  have "drop (min (ks 3) (length ?ys)) (?ys @ [x]) = drop (ks 3) ?ys @ [x]" by (simp add: min_def)
  then have r3: "represents ?q3 (drop (ks 0 + (if full then ks 1 + ks 2 else 0) + ks 3) xs @ [x])"
    using represents_drop [OF q2(3), of "min (ks 3) (length ?ys)"] by (simp add: add.commute)
  have push: "worker_push (thieves_take ks) x q = Some ?q3"
    by (simp only: worker_push_def Let_def thieves_take_sel thieves_take_shift q1(1) [unfolded thieves_take_sel] q2(1) taken bind.bind_lunit) simp
  show ?thesis using push r3 q1(3) c1 by (intro that [of ?q3]) (simp_all add: m2 grown_def)
qed

text \<open>
  The shrinking step of both pops: whether or not the buffer is halved, the queue holds the
  tasks that the thieves left.
\<close>

lemma shrink_represents:
  assumes r: "represents q xs" and short: "shrink \<Longrightarrow> 64 < unat (cap (wbuf q)) \<and> length xs \<le> unat (cap (wbuf q)) div 4"
  obtains q' where "(if shrink then resize (thieves_take ks) (cap (wbuf q) div 2) q else Some q) = Some q'"
    "represents q' (drop (if shrink then ks 0 + ks 1 else 0) xs)"
    "cap (wbuf q') = (if shrink then cap (wbuf q) div 2 else cap (wbuf q))" "grown q q'"
proof (cases shrink)
  case True
  have c: "pow2 (cap (wbuf q) div 2)" "unat (cap (wbuf q)) = 2 * unat (cap (wbuf q) div 2)"
    using short [OF True] pow2_half [OF representsD(4) [OF r]] by auto
  have m: "MIN_CAP \<le> cap (wbuf q) div 2"
    using short [OF True] pow2_half_ge [OF representsD(4) [OF r], of 6] by (simp add: MIN_CAP_le)
  have "length xs \<le> unat (cap (wbuf q) div 2)" using short [OF True] c(2) by linarith
  from resize_represents [OF r c(1) m this] obtain q' where "resize (thieves_take ks) (cap (wbuf q) div 2) q = Some q'"
    "represents q' (drop (ks 0 + ks 1) xs)" "cap (wbuf q') = cap (wbuf q) div 2" "grown q q'" .
  then show ?thesis using True by (intro that [of q']) auto
next
  case False
  then show ?thesis using r by (intro that [of q]) (auto simp: grown_def)
qed

lemma worker_pop_fifo_represents:
  fixes ks :: "nat \<Rightarrow> nat"
  assumes r: "represents q xs" and len: "unat len \<le> 2 ^ 62" "length xs \<le> unat len"
  defines "shrinks \<equiv> ks 1 < length xs \<and> 64 < unat (cap (wbuf q)) \<and> unat len \<le> unat (cap (wbuf q)) div 4"
  obtains q' where
    "worker_pop_fifo (thieves_take ks) (back_index q) len q = Some (if ks 1 < length xs then Some (xs ! ks 1) else None, q')"
    "represents q' (drop (Suc (ks 1) + (if shrinks then ks 3 + ks 4 else 0)) xs)"
    "cap (wbuf q') = (if shrinks then cap (wbuf q) div 2 else cap (wbuf q))" "grown q q'"
proof -
  let ?q1 = "thieves_take ks 1 q"
  let ?f = "front ?q1"
  let ?q2 = "?q1\<lparr>front := ?f + 1\<rparr>"
  have r1: "represents ?q1 (drop (ks 1) xs)" by (rule thieves_take_drop [OF r])
  have dist: "back_index q - ?f = of_nat (length xs - ks 1)" using representsD(8) [OF r1] by simp
  show ?thesis
  proof (cases "ks 1 < length xs")
    case False
    have neg: "back_index q - (?f + 1) = - 1" using dist False by (simp add: algebra_simps)
    then have "thieves_take ks 2 ?q2 = ?q2" unfolding thieves_take_def [of ks 2] by simp
    then have "worker_pop_fifo (thieves_take ks) (back_index q) len q = Some (None, ?q1)"
      using neg by (simp add: worker_pop_fifo_def Let_def)
    then show ?thesis using r1 False by (intro that [of ?q1]) (auto simp: grown_def shrinks_def)
  next
    case True
    have r2: "represents ?q2 (drop (Suc (ks 1)) xs)" using represents_drop [OF r1, of 1] True by simp
    have nonneg: "\<not> sint (back_index q - (?f + 1)) < 0" using representsD(11) [OF r2] by simp
    have rd: "buffer_read (wbuf q) ?f ?q2 = Some (xs ! ks 1)"
      using represents_read [OF r1, of 0] True by (simp add: buffer_read_def buffer_load_def)
    have sh: "MIN_CAP < cap (wbuf q) \<and> sint len \<le> sint (cap (wbuf q)) sdiv 4 \<longleftrightarrow> shrinks"
      using True len(1) quarter_compare(1) [OF representsD(4) [OF r], of len] by (simp add: MIN_CAP_less shrinks_def)
    have "64 < unat (cap (wbuf ?q2)) \<and> length (drop (Suc (ks 1)) xs) \<le> unat (cap (wbuf ?q2)) div 4" if shrinks
      using that len(2) by (auto simp: shrinks_def)
    from shrink_represents [where ks = "\<lambda>k. ks (k + 3)", OF r2 this] obtain q' where
      q': "(if shrinks then resize (thieves_take (\<lambda>k. ks (k + 3))) (cap (wbuf ?q2) div 2) ?q2 else Some ?q2) = Some q'"
      "represents q' (drop (if shrinks then ks (0 + 3) + ks (1 + 3) else 0) (drop (Suc (ks 1)) xs))"
      "cap (wbuf q') = (if shrinks then cap (wbuf ?q2) div 2 else cap (wbuf ?q2))" "grown ?q2 q'" .
    have "worker_pop_fifo (thieves_take ks) (back_index q) len q = Some (Some (xs ! ks 1), q')"
      using nonneg rd q'(1) unfolding worker_pop_fifo_def Let_def
      by (simp add: sh del: One_nat_def split: if_splits)
    then show ?thesis using True q'(2-4)
      by (intro that [of q']) (simp_all add: grown_def add.commute split: if_splits)
  qed
qed

text \<open>
  While a LIFO pop has announced itself by lowering \<open>back_index\<close> (gaps 1 and 2), a thief that
  saw the queue before may still take the very last task, so \<open>front\<close> may pass \<open>back_index\<close> by one.
\<close>

definition race :: "'a worker \<Rightarrow> 'a worker \<Rightarrow> bool" where
  "race q q' \<longleftrightarrow> (\<exists>n \<le> nat (sint (back_index q + 1 - front q)). q' = q\<lparr>front := front q + of_nat n\<rparr>)"

definition racers_take :: "(nat \<Rightarrow> nat) \<Rightarrow> 'a env" where
  "racers_take ks k q =
     (if k = 1 \<or> k = 2 then q\<lparr>front := front q + of_nat (min (ks k) (nat (sint (back_index q + 1 - front q))))\<rparr>
      else thieves_take ks k q)"

lemma race_scheduled: "k = 1 \<or> k = 2 \<Longrightarrow> race q q' \<longleftrightarrow> (\<exists>n. q' = racers_take (\<lambda>_. n) k q)"
proof (intro iffI)
  assume k: "k = 1 \<or> k = 2" and "race q q'"
  then obtain n where "n \<le> nat (sint (back_index q + 1 - front q))" "q' = q\<lparr>front := front q + of_nat n\<rparr>" by (auto simp: race_def)
  with k show "\<exists>n. q' = racers_take (\<lambda>_. n) k q" by (intro exI [of _ n]) (auto simp: racers_take_def min_absorb1)
next
  assume k: "k = 1 \<or> k = 2" and "\<exists>n. q' = racers_take (\<lambda>_. n) k q"
  then obtain n where "q' = racers_take (\<lambda>_. n) k q" by blast
  with k show "race q q'" unfolding race_def racers_take_def
    by (intro exI [of _ "min n (nat (sint (back_index q + 1 - front q)))"]) simp
qed

lemma racers_take_shift: "(\<lambda>k. racers_take ks (k + 3)) = thieves_take (\<lambda>k. ks (k + 3))"
  by (simp add: racers_take_def thieves_take_def fun_eq_iff)

lemma racers_take_0: "racers_take ks 0 = thieves_take ks 0"
  by (simp add: racers_take_def fun_eq_iff)

lemma quiet_race: "quiet = racers_take (\<lambda>_. 0)"
  by (simp add: quiet_take racers_take_def thieves_take_def fun_eq_iff)

lemma shape_front_back: "shape q \<Longrightarrow> shape (q\<lparr>front := f, back_index := b\<rparr>)"
  by (simp add: shape_def live_def)

lemma represents_Nil: "shape q \<Longrightarrow> front q = back_index q \<Longrightarrow> represents q []"
  by (intro representsI) (simp_all add: buffer_window_def window_0)

text \<open>
  The three ways a LIFO pop can go after gap 1: the thieves got the last task, they race for it, or
  they left more than one task.
\<close>

lemma lifo_gap1:
  assumes "represents q (ys @ [x])"
  shows "racers_take ks 1 (q\<lparr>back_index := back_index q - 1\<rparr>)
    = q\<lparr>back_index := back_index q - 1, front := front q + of_nat (min (ks 1) (Suc (length ys)))\<rparr>"
proof -
  have "nat (sint (back_index q - front q)) = Suc (length ys)" using representsD(11) [OF assms] by simp
  then show ?thesis by (simp add: racers_take_def)
qed

lemma lifo_lost:
  assumes r: "represents q (ys @ [x])" and n: "length ys < ks 1"
  shows "\<exists>q'. worker_pop_lifo (racers_take ks) (back_index q) q = Some (None, q') \<and> represents q' []
    \<and> wbuf q' = wbuf q \<and> flavor q' = flavor q \<and> elem_size q' = elem_size q"
proof -
  have bk: "back_index q = front q + of_nat (length ys) + 1" using representsD(7) [OF r] by simp
  let ?q2 = "q\<lparr>front := front q + of_nat (Suc (length ys)), back_index := back_index q\<rparr>"
  have "min (ks 1) (Suc (length ys)) = Suc (length ys)" using n by simp
  then have e: "racers_take ks 1 (q\<lparr>back_index := back_index q - 1\<rparr>)
      = q\<lparr>back_index := back_index q - 1, front := front q + of_nat (Suc (length ys))\<rparr>" using lifo_gap1 [OF r, of ks] by simp
  have "worker_pop_lifo (racers_take ks) (back_index q) q = Some (None, ?q2)"
    using e bk by (simp add: worker_pop_lifo_def Let_def del: One_nat_def)
  moreover have "represents ?q2 []"
    using shape_front_back [OF representsD(1) [OF r]] bk
    by (intro represents_Nil) (simp_all add: shape_def live_def)
  ultimately show ?thesis by auto
qed

lemma lifo_last:
  assumes r: "represents q (ys @ [x])" and n: "ks 1 = length ys"
  shows "\<exists>q'. worker_pop_lifo (racers_take ks) (back_index q) q = Some (if ks 2 = 0 then Some x else None, q')
    \<and> represents q' [] \<and> wbuf q' = wbuf q \<and> flavor q' = flavor q \<and> elem_size q' = elem_size q"
proof -
  let ?f = "front q + of_nat (length ys)"
  let ?q2 = "q\<lparr>back_index := back_index q - 1, front := ?f\<rparr>"
  have e: "racers_take ks 1 (q\<lparr>back_index := back_index q - 1\<rparr>) = ?q2" using lifo_gap1 [OF r, of ks] n by simp
  have bk: "back_index q = ?f + 1" using representsD(7) [OF r] by simp
  have rd: "buffer_read (wbuf q) (back_index q - 1) ?q2 = Some x"
    using represents_read [OF r, of "length ys"] bk by (simp add: buffer_read_def buffer_load_def)
  have m: "racers_take ks 2 ?q2 = ?q2\<lparr>front := ?f + (if ks 2 = 0 then 0 else 1)\<rparr>"
    using bk by (cases "ks 2") (simp_all add: racers_take_def)
  let ?q3 = "?q2\<lparr>front := ?f + 1, back_index := back_index q\<rparr>"
  have "represents ?q3 []"
    using shape_front_back [OF representsD(1) [OF r]] bk
    by (intro represents_Nil) (simp_all add: shape_def live_def)
  moreover have "worker_pop_lifo (racers_take ks) (back_index q) q = Some (if ks 2 = 0 then Some x else None, ?q3)"
    using e m rd bk by (auto simp: worker_pop_lifo_def Let_def simp del: One_nat_def)
  ultimately show ?thesis by auto
qed

lemma lifo_more:
  fixes ks :: "nat \<Rightarrow> nat"
  assumes r: "represents q (ys @ [x])" and n: "ks 1 < length ys"
  defines "shrinks \<equiv> 64 < unat (cap (wbuf q)) \<and> length ys - ks 1 < unat (cap (wbuf q)) div 4"
  shows "\<exists>q'. worker_pop_lifo (racers_take ks) (back_index q) q = Some (Some x, q')
    \<and> represents q' (drop (ks 1 + (if shrinks then ks 3 + ks 4 else 0)) ys)
    \<and> cap (wbuf q') = (if shrinks then cap (wbuf q) div 2 else cap (wbuf q))
    \<and> flavor q' = flavor q \<and> elem_size q' = elem_size q"
proof -
  let ?b = "back_index q - 1" and ?f = "front q + of_nat (ks 1)"
  let ?q2 = "q\<lparr>back_index := ?b, front := ?f\<rparr>"
  have e: "racers_take ks 1 (q\<lparr>back_index := ?b\<rparr>) = ?q2" using lifo_gap1 [OF r, of ks] n by (simp add: min_def)
  have r1: "represents (q\<lparr>back_index := ?b\<rparr>) ys" using represents_butlast [OF r] .
  have r2: "represents ?q2 (drop (ks 1) ys)" using represents_drop [OF r1, of "ks 1"] n by simp
  have len: "unat (?b - ?f) = length ys - ks 1" "sint (?b - ?f) = int (length ys - ks 1)"
    using representsD(5,11) [OF r2] by simp_all
  then have nz: "?b - ?f \<noteq> 0" using n by (auto simp: unat_eq_zero)
  have small: "unat (?b - ?f) < 2 ^ 63" using len(1) representsD(10) [OF r1] by simp
  have rd: "buffer_read (wbuf q) ?b ?q2 = Some x"
    using represents_read [OF r, of "length ys"] representsD(7) [OF r] by (simp add: buffer_read_def buffer_load_def)
  have sh: "MIN_CAP < cap (wbuf q) \<and> sint (?b - ?f) < sint (cap (wbuf q)) sdiv 4 \<longleftrightarrow> shrinks"
    using len(1) quarter_compare(2) [OF representsD(4) [OF r] small] by (simp add: MIN_CAP_less shrinks_def)
  have "64 < unat (cap (wbuf ?q2)) \<and> length (drop (ks 1) ys) \<le> unat (cap (wbuf ?q2)) div 4" if shrinks
    using that by (simp add: shrinks_def)
  from shrink_represents [where ks = "\<lambda>k. ks (k + 3)", OF r2 this] obtain q' where
    q': "(if shrinks then resize (thieves_take (\<lambda>k. ks (k + 3))) (cap (wbuf ?q2) div 2) ?q2 else Some ?q2) = Some q'"
      "represents q' (drop (if shrinks then ks (0 + 3) + ks (1 + 3) else 0) (drop (ks 1) ys))"
      "cap (wbuf q') = (if shrinks then cap (wbuf ?q2) div 2 else cap (wbuf ?q2))" "grown ?q2 q'" .
  have "worker_pop_lifo (racers_take ks) (back_index q) q = Some (Some x, q')"
    using rd nz q'(1) unfolding worker_pop_lifo_def Let_def e
    by (simp add: sh [unfolded len(2)] len(2) racers_take_shift del: One_nat_def split: if_splits)
  then show ?thesis using q'(2-4) by (intro exI [of _ q']) (simp_all add: grown_def add.commute split: if_splits)
qed

lemma worker_pop_lifo_represents:
  fixes ks :: "nat \<Rightarrow> nat"
  assumes r: "represents q (ys @ [x])"
  defines "shrinks \<equiv> ks 1 < length ys \<and> 64 < unat (cap (wbuf q)) \<and> length ys - ks 1 < unat (cap (wbuf q)) div 4"
  obtains q' where "worker_pop_lifo (racers_take ks) (back_index q) q
      = Some (if ks 1 < length ys \<or> ks 1 = length ys \<and> ks 2 = 0 then Some x else None, q')"
    "represents q' (drop (ks 1 + (if shrinks then ks 3 + ks 4 else 0)) ys)"
    "cap (wbuf q') = (if shrinks then cap (wbuf q) div 2 else cap (wbuf q))" "flavor q' = flavor q" "elem_size q' = elem_size q"
proof -
  consider "length ys < ks 1" | "ks 1 = length ys" | "ks 1 < length ys" by linarith
  then show ?thesis
  proof cases
    case 1
    from lifo_lost [where ks = ks, OF r 1] show ?thesis using that 1 by (auto simp: shrinks_def)
  next
    case 2
    from lifo_last [where ks = ks, OF r 2] show ?thesis using that 2 by (auto simp: shrinks_def)
  next
    case 3
    from lifo_more [where ks = ks, OF r 3] show ?thesis using that 3 by (auto simp: shrinks_def)
  qed
qed

text \<open>A pop on a queue without tasks, and how the two flavors go on from gap 0.\<close>

lemma worker_pop_start:
  assumes g: "env 0 = thieves_take ks 0" and r: "represents q xs"
  shows "represents (env 0 q) (drop (ks 0) xs)"
    "worker_pop env q =
      (if length xs \<le> ks 0 then Some (None, env 0 q)
       else case flavor q of
          Fifo \<Rightarrow> worker_pop_fifo env (back_index (env 0 q)) (back_index (env 0 q) - front (env 0 q)) (env 0 q)
        | Lifo \<Rightarrow> worker_pop_lifo env (back_index (env 0 q)) (env 0 q))"
proof -
  show r0: "represents (env 0 q) (drop (ks 0) xs)" unfolding g by (rule thieves_take_drop [OF r])
  have "sint (back_index q - front (env 0 q)) \<le> 0 \<longleftrightarrow> length xs \<le> ks 0"
    using representsD(11) [OF r0] by (simp add: g)
  then show "worker_pop env q =
      (if length xs \<le> ks 0 then Some (None, env 0 q)
       else case flavor q of
          Fifo \<Rightarrow> worker_pop_fifo env (back_index (env 0 q)) (back_index (env 0 q) - front (env 0 q)) (env 0 q)
        | Lifo \<Rightarrow> worker_pop_lifo env (back_index (env 0 q)) (env 0 q))"
    by (simp add: worker_pop_def Let_def g split: flavor.splits)
qed

lemma worker_pop_fifo_spec:
  fixes ks :: "nat \<Rightarrow> nat"
  assumes r: "represents q xs" and fl: "flavor q = Fifo"
  defines "n \<equiv> ks 0 + ks 1"
  defines "shrinks \<equiv> n < length xs \<and> 64 < unat (cap (wbuf q)) \<and> length xs - ks 0 \<le> unat (cap (wbuf q)) div 4"
  obtains q' where "worker_pop (thieves_take ks) q = Some (if n < length xs then Some (xs ! n) else None, q')"
    "represents q' (drop (Suc n + (if shrinks then ks 3 + ks 4 else 0)) xs)"
    "cap (wbuf q') = (if shrinks then cap (wbuf q) div 2 else cap (wbuf q))" "flavor q' = Fifo" "elem_size q' = elem_size q"
proof -
  let ?q0 = "thieves_take ks 0 q" and ?xs = "drop (ks 0) xs"
  note start = worker_pop_start [where env = "thieves_take ks", OF refl r]
  show ?thesis
  proof (cases "length xs \<le> ks 0")
    case True
    then show ?thesis using start fl by (intro that [of ?q0]) (simp_all add: n_def shrinks_def)
  next
    case False
    let ?len = "back_index ?q0 - front ?q0"
    have len: "unat ?len \<le> 2 ^ 62" "length ?xs \<le> unat ?len" "unat ?len = length xs - ks 0"
      using representsD(5,10) [OF start(1)] by simp_all
    have s: "ks 1 < length ?xs \<and> 64 < unat (cap (wbuf ?q0)) \<and> unat ?len \<le> unat (cap (wbuf ?q0)) div 4 \<longleftrightarrow> shrinks"
      unfolding len(3) using False by (auto simp: shrinks_def n_def)
    from worker_pop_fifo_represents [where ks = ks, OF start(1) len(1,2), unfolded s] obtain q' where
      "worker_pop_fifo (thieves_take ks) (back_index ?q0) ?len ?q0 = Some (if ks 1 < length ?xs then Some (?xs ! ks 1) else None, q')"
      "represents q' (drop (Suc (ks 1) + (if shrinks then ks 3 + ks 4 else 0)) ?xs)"
      "cap (wbuf q') = (if shrinks then cap (wbuf ?q0) div 2 else cap (wbuf ?q0))" "grown ?q0 q'" .
    then show ?thesis using False start(2) fl
      by (intro that [of q']) (auto simp: grown_def n_def add.commute add.left_commute less_diff_conv split: if_splits)
  qed
qed

lemma worker_pop_lifo_spec:
  fixes ks :: "nat \<Rightarrow> nat"
  assumes r: "represents q xs" and fl: "flavor q = Lifo"
  defines "n \<equiv> ks 0 + ks 1"
  defines "shrinks \<equiv> Suc n < length xs \<and> 64 < unat (cap (wbuf q)) \<and> length xs - Suc n < unat (cap (wbuf q)) div 4"
  obtains q' where "worker_pop (racers_take ks) q
      = Some (if Suc n < length xs \<or> Suc n = length xs \<and> ks 2 = 0 then Some (last xs) else None, q')"
    "represents q' (drop (n + (if shrinks then ks 3 + ks 4 else 0)) (butlast xs))"
    "cap (wbuf q') = (if shrinks then cap (wbuf q) div 2 else cap (wbuf q))" "flavor q' = Lifo" "elem_size q' = elem_size q"
proof -
  let ?q0 = "thieves_take ks 0 q" and ?xs = "drop (ks 0) xs"
  note start = worker_pop_start [where env = "racers_take ks", OF racers_take_0 r, unfolded racers_take_0]
  show ?thesis
  proof (cases "length xs \<le> ks 0")
    case True
    then show ?thesis using start fl by (intro that [of ?q0]) (simp_all add: n_def shrinks_def)
  next
    case False
    then have "?xs \<noteq> []" by simp
    from start(1) have r0: "represents ?q0 (butlast ?xs @ [last ?xs])" unfolding append_butlast_last_id [OF \<open>?xs \<noteq> []\<close>] .
    have s: "ks 1 < length (butlast ?xs) \<and> 64 < unat (cap (wbuf ?q0)) \<and> length (butlast ?xs) - ks 1 < unat (cap (wbuf ?q0)) div 4 \<longleftrightarrow> shrinks"
      using False by (auto simp: shrinks_def n_def)
    from worker_pop_lifo_represents [where ks = ks, OF r0, unfolded s] obtain q' where
      q': "worker_pop_lifo (racers_take ks) (back_index ?q0) ?q0
        = Some (if ks 1 < length (butlast ?xs) \<or> ks 1 = length (butlast ?xs) \<and> ks 2 = 0 then Some (last ?xs) else None, q')"
      "represents q' (drop (ks 1 + (if shrinks then ks 3 + ks 4 else 0)) (butlast ?xs))"
      "cap (wbuf q') = (if shrinks then cap (wbuf ?q0) div 2 else cap (wbuf ?q0))"
      "flavor q' = flavor ?q0" "elem_size q' = elem_size ?q0" .
    have c: "ks 1 < length (butlast ?xs) \<longleftrightarrow> Suc n < length xs" "ks 1 = length (butlast ?xs) \<longleftrightarrow> Suc n = length xs"
      using False by (auto simp: n_def)
    have l: "last ?xs = last xs" "butlast ?xs = drop (ks 0) (butlast xs)" using False by (simp_all add: last_drop butlast_drop)
    have "represents q' (drop (n + (if shrinks then ks 3 + ks 4 else 0)) (butlast xs))"
      using q'(2) unfolding l drop_drop by (simp add: n_def add.commute add.left_commute split: if_splits)
    moreover have "worker_pop (racers_take ks) q
        = Some (if Suc n < length xs \<or> Suc n = length xs \<and> ks 2 = 0 then Some (last xs) else None, q')"
      using False start(2) fl q'(1) [unfolded c, unfolded l] by simp
    ultimately show ?thesis using fl q'(3-5) by (intro that [of q']) (simp_all split: if_splits)
  qed
qed

section \<open>Schedules cover all thieves\<close>

text \<open>
  Environments in which thieves act as they like, and that in one run each of them does what a schedule does: the properties below, which
  are about schedules, thus hold for whatever thieves do.
\<close>

definition thieves :: "'a env \<Rightarrow> bool" where
  "thieves env \<longleftrightarrow> (\<forall>k q. theft q (env k q))"

definition racing_thieves :: "'a env \<Rightarrow> bool" where
  "racing_thieves env \<longleftrightarrow> (\<forall>k q. if k = 1 \<or> k = 2 then race q (env k q) else theft q (env k q))"

lemma thieves_shift: "thieves env \<Longrightarrow> thieves (\<lambda>k. env (k + i))"
  by (simp add: thieves_def)

lemma racing_thieves_shift: "racing_thieves env \<Longrightarrow> thieves (\<lambda>k. env (k + 3))"
  by (auto simp: thieves_def racing_thieves_def)

lemma thieves_gap:
  assumes "thieves env"
  shows "\<exists>n. \<forall>ks. ks k = n \<longrightarrow> thieves_take ks k q = env k q"
proof -
  have "theft q (env k q)" using assms by (simp add: thieves_def)
  then obtain n where "env k q = thieves_take (\<lambda>_. n) k q" unfolding theft_scheduled [of _ _ k] ..
  then show ?thesis by (intro exI [of _ n]) (simp add: thieves_take_def)
qed

lemma racing_gap:
  assumes "racing_thieves env"
  shows "\<exists>n. \<forall>ks. ks k = n \<longrightarrow> racers_take ks k q = env k q"
proof (cases "k = 1 \<or> k = 2")
  case True
  have "if k = 1 \<or> k = 2 then race q (env k q) else theft q (env k q)" using assms unfolding racing_thieves_def by blast
  then obtain n where "env k q = racers_take (\<lambda>_. n) k q" using True race_scheduled [OF True] by auto
  then show ?thesis using True by (intro exI [of _ n]) (auto simp: racers_take_def)
next
  case False
  with assms have "theft q (env k q)" by (simp add: racing_thieves_def)
  then obtain n where "env k q = thieves_take (\<lambda>_. n) k q" unfolding theft_scheduled [of _ _ k] ..
  then show ?thesis using False by (intro exI [of _ n]) (simp add: racers_take_def thieves_take_def)
qed

lemma resize_scheduled:
  assumes "thieves env"
  shows "\<exists>n0 n1. \<forall>ks. ks 0 = n0 \<longrightarrow> ks 1 = n1 \<longrightarrow> resize (thieves_take ks) c q = resize env c q"
proof -
  obtain n0 where n0: "\<forall>ks. ks 0 = n0 \<longrightarrow> thieves_take ks 0 q = env 0 q" using thieves_gap [OF assms] by blast
  obtain new q2 where a: "buffer_alloc c (env 0 q) = (new, q2)" by fastforce
  show ?thesis
  proof (cases "copy_loop (wbuf (env 0 q)) new (front (env 0 q)) (back_index q) q2")
    case None
    then show ?thesis using n0 a by (intro exI [of _ n0]) (simp add: resize_def Let_def)
  next
    case (Some q3)
    obtain n1 where "\<forall>ks. ks 1 = n1 \<longrightarrow> thieves_take ks 1 (q3\<lparr>wbuf := new\<rparr>) = env 1 (q3\<lparr>wbuf := new\<rparr>)"
      using thieves_gap [OF assms] by blast
    then have "resize (thieves_take ks) c q = resize env c q" if "ks 0 = n0" "ks 1 = n1" for ks
      using n0 a Some that unfolding resize_def Let_def by (simp del: thieves_take_sel)
    then show ?thesis by blast
  qed
qed

lemma worker_push_scheduled:
  assumes t: "thieves env"
  shows "\<exists>ks. worker_push env x q = worker_push (thieves_take ks) x q"
proof -
  obtain n0 where n0: "\<forall>ks. ks 0 = n0 \<longrightarrow> thieves_take ks 0 q = env 0 q" using thieves_gap [OF t] by blast
  let ?q0 = "env 0 q"
  let ?grow = "\<lambda>e. if sint (cap (wbuf ?q0)) \<le> sint (back_index q - front ?q0) then resize e (2 * cap (wbuf ?q0)) ?q0 else Some ?q0"
  obtain n1 n2 where r: "\<forall>ks. ks 0 = n1 \<longrightarrow> ks 1 = n2 \<longrightarrow>
      resize (thieves_take ks) (2 * cap (wbuf ?q0)) ?q0 = resize (\<lambda>k. env (k + 1)) (2 * cap (wbuf ?q0)) ?q0"
    using resize_scheduled [OF thieves_shift [OF t, of 1]] by blast
  define q2 where "q2 = (case ?grow (\<lambda>k. env (k + 1)) of None \<Rightarrow> None | Some q1 \<Rightarrow> buffer_write (wbuf q1) (back_index q) x q1)"
  obtain n3 where n3: "\<forall>ks. ks 3 = n3 \<longrightarrow> thieves_take ks 3 (the q2) = env 3 (the q2)" using thieves_gap [OF t] by blast
  let ?ks = "\<lambda>k :: nat. [n0, n1, n2, n3] ! k"
  have k: "thieves_take ?ks 0 q = ?q0" "thieves_take ?ks 3 (the q2) = env 3 (the q2)" using n0 n3 by simp_all
  have g: "?grow (\<lambda>k. thieves_take ?ks (k + 1)) = ?grow (\<lambda>k. env (k + 1))"
    using r [THEN spec, of "\<lambda>k. ?ks (k + 1)"] unfolding thieves_take_shift by (simp add: numeral_2_eq_2)
  have "worker_push (thieves_take ?ks) x q = worker_push env x q"
    unfolding worker_push_def Let_def k(1) g using k(2)
    by (cases "?grow (\<lambda>k. env (k + 1))"; cases q2) (auto simp: q2_def split: option.splits)
  then show ?thesis by metis
qed

lemma worker_pop_scheduled_fifo:
  assumes t: "thieves env" and fl: "flavor q = Fifo"
  shows "\<exists>ks. worker_pop env q = worker_pop (thieves_take ks) q"
proof -
  let ?q0 = "env 0 q"
  let ?q1 = "env 1 ?q0"
  let ?q2 = "?q1\<lparr>front := front ?q1 + 1\<rparr>"
  obtain n0 where n0: "\<forall>ks. ks 0 = n0 \<longrightarrow> thieves_take ks 0 q = ?q0" using thieves_gap [OF t] by blast
  obtain n1 where n1: "\<forall>ks. ks 1 = n1 \<longrightarrow> thieves_take ks 1 ?q0 = ?q1" using thieves_gap [OF t] by blast
  obtain n2 where n2: "\<forall>ks. ks 2 = n2 \<longrightarrow> thieves_take ks 2 ?q2 = env 2 ?q2" using thieves_gap [OF t] by blast
  obtain n3 n4 where r: "\<forall>ks. ks 0 = n3 \<longrightarrow> ks 1 = n4 \<longrightarrow>
      resize (thieves_take ks) (cap (wbuf ?q2) div 2) ?q2 = resize (\<lambda>k. env (k + 3)) (cap (wbuf ?q2) div 2) ?q2"
    using resize_scheduled [OF thieves_shift [OF t, of 3]] by blast
  let ?ks = "\<lambda>k :: nat. [n0, n1, n2, n3, n4] ! k"
  have k: "thieves_take ?ks 0 q = ?q0" "thieves_take ?ks 1 ?q0 = ?q1" "thieves_take ?ks 2 ?q2 = env 2 ?q2" using n0 n1 n2 by simp_all
  have rs: "resize (\<lambda>k. thieves_take ?ks (k + 3)) (cap (wbuf ?q2) div 2) ?q2 = resize (\<lambda>k. env (k + 3)) (cap (wbuf ?q2) div 2) ?q2"
    using r [THEN spec, of "\<lambda>k. ?ks (k + 3)"] unfolding thieves_take_shift by simp
  have "flavor ?q0 = Fifo" using fl k(1) thieves_take_sel(3) by metis
  then have "worker_pop (thieves_take ?ks) q = worker_pop env q"
    unfolding worker_pop_def worker_pop_fifo_def Let_def k rs by simp
  then show ?thesis by metis
qed

lemma worker_pop_scheduled_lifo:
  assumes t: "racing_thieves env" and fl: "flavor q = Lifo"
  shows "\<exists>ks. worker_pop env q = worker_pop (racers_take ks) q"
proof -
  let ?q0 = "env 0 q"
  let ?q1 = "env 1 (?q0\<lparr>back_index := back_index q - 1\<rparr>)"
  obtain n0 where n0: "\<forall>ks. ks 0 = n0 \<longrightarrow> racers_take ks 0 q = ?q0" using racing_gap [OF t] by blast
  obtain n1 where n1: "\<forall>ks. ks 1 = n1 \<longrightarrow> racers_take ks 1 (?q0\<lparr>back_index := back_index q - 1\<rparr>) = ?q1" using racing_gap [OF t] by blast
  obtain n2 where n2: "\<forall>ks. ks 2 = n2 \<longrightarrow> racers_take ks 2 ?q1 = env 2 ?q1" using racing_gap [OF t] by blast
  obtain n3 n4 where r: "\<forall>ks. ks 0 = n3 \<longrightarrow> ks 1 = n4 \<longrightarrow>
      resize (thieves_take ks) (cap (wbuf ?q1) div 2) ?q1 = resize (\<lambda>k. env (k + 3)) (cap (wbuf ?q1) div 2) ?q1"
    using resize_scheduled [OF racing_thieves_shift [OF t]] by blast
  let ?ks = "\<lambda>k :: nat. [n0, n1, n2, n3, n4] ! k"
  have k: "racers_take ?ks 0 q = ?q0" "racers_take ?ks 1 (?q0\<lparr>back_index := back_index q - 1\<rparr>) = ?q1" "racers_take ?ks 2 ?q1 = env 2 ?q1"
    using n0 n1 n2 by simp_all
  have rs: "resize (\<lambda>k. racers_take ?ks (k + 3)) (cap (wbuf ?q1) div 2) ?q1 = resize (\<lambda>k. env (k + 3)) (cap (wbuf ?q1) div 2) ?q1"
    using r [THEN spec, of "\<lambda>k. ?ks (k + 3)"] unfolding racers_take_shift by simp
  have "flavor ?q0 = Lifo" using fl k(1) racers_take_0 thieves_take_sel(3) by metis
  then have "worker_pop (racers_take ?ks) q = worker_pop env q"
    unfolding worker_pop_def worker_pop_lifo_def Let_def k rs by simp
  then show ?thesis by metis
qed

lemma worker_reserve_scheduled:
  assumes t: "thieves env"
  shows "\<exists>ks. worker_reserve env c q = worker_reserve (thieves_take ks) c q"
proof -
  let ?q0 = "env 0 q"
  let ?new = "grow_loop (cap (wbuf ?q0) * 2) (back_index q - front ?q0) c"
  obtain n0 where n0: "\<forall>ks. ks 0 = n0 \<longrightarrow> thieves_take ks 0 q = ?q0" using thieves_gap [OF t] by blast
  obtain n1 n2 where r: "\<forall>ks. ks 0 = n1 \<longrightarrow> ks 1 = n2 \<longrightarrow> resize (thieves_take ks) (the ?new) ?q0 = resize (\<lambda>k. env (k + 1)) (the ?new) ?q0"
    using resize_scheduled [OF thieves_shift [OF t, of 1]] by blast
  let ?ks = "\<lambda>k :: nat. [n0, n1, n2] ! k"
  have k: "thieves_take ?ks 0 q = ?q0" using n0 by simp
  have rs: "resize (\<lambda>k. thieves_take ?ks (k + 1)) (the ?new) ?q0 = resize (\<lambda>k. env (k + 1)) (the ?new) ?q0"
    using r [THEN spec, of "\<lambda>k. ?ks (k + 1)"] unfolding thieves_take_shift by simp
  have "worker_reserve (thieves_take ?ks) c q = worker_reserve env c q"
    unfolding worker_reserve_def Let_def k using rs by (cases ?new) auto
  then show ?thesis by metis
qed

definition tasks :: "'a worker \<Rightarrow> 'a list" where
  "tasks q = map the (buffer_window q (wbuf q) (front q) (unat (back_index q - front q)))"

definition wf_worker :: "'a worker \<Rightarrow> bool" where
  "wf_worker q \<longleftrightarrow> represents q (tasks q)"

lemma represents_iff: "represents q xs \<longleftrightarrow> wf_worker q \<and> tasks q = xs"
proof
  assume r: "represents q xs"
  have "tasks q = xs" by (simp add: tasks_def representsD(5,9) [OF r] comp_def)
  with r show "wf_worker q \<and> tasks q = xs" by (simp add: wf_worker_def)
qed (auto simp: wf_worker_def)

lemma represents_worker_new: "represents (worker_new fl sz) []"
proof (rule represents_Nil)
  have "pow2 (64 :: usize)" by (auto simp: pow2_def intro!: bexI [of _ 6])
  then show "shape (worker_new fl sz)"
    by (auto simp: shape_def worker_new_def buffer_alloc_def live_def MIN_CAP_def)
qed (simp add: worker_new_def buffer_alloc_def)

lemma grow_loop_enough:
  assumes "pow2 c" "unat len \<le> unat c" "unat len + unat r \<le> 2 ^ 62"
  shows "\<exists>c'. grow_loop c len r = Some c' \<and> pow2 c' \<and> unat c \<le> unat c' \<and> unat len + unat r \<le> unat c'"
  using assms
proof (induction "2 ^ 62 - unat c" arbitrary: c rule: less_induct)
  case less
  have sub: "unat (c - len) = unat c - unat len" using less.prems(2) by (simp add: unat_sub word_le_nat_alt)
  show ?case
  proof (cases "c - len < r")
    case True
    then have lt: "unat c < unat len + unat r" using sub less.prems(2) by (simp add: word_less_nat_alt)
    then have d: "pow2 (2 * c)" "unat (2 * c) = 2 * unat c"
      using pow2_double [OF less.prems(1)] less.prems(3) by auto
    have "\<exists>c'. grow_loop (2 * c) len r = Some c' \<and> pow2 c' \<and> unat (2 * c) \<le> unat c' \<and> unat len + unat r \<le> unat c'"
      using lt less.prems d pow2_unat(1) [OF less.prems(1)] by (intro less.hyps) auto
    then show ?thesis using True d(2) by (auto simp: grow_loop.simps [of c] mult.commute)
  next
    case False
    then have "unat r \<le> unat c - unat len" using sub by (simp add: word_less_nat_alt)
    then show ?thesis using False less.prems by (auto simp: grow_loop.simps [of c])
  qed
qed

lemma worker_reserve_represents:
  fixes ks :: "nat \<Rightarrow> nat"
  assumes r: "represents q xs" and bound: "length xs + unat k \<le> 2 ^ 62"
  defines "n \<equiv> if k = 0 then 0 else ks 0 + (if unat (cap (wbuf q)) < length xs - ks 0 + unat k then ks 1 + ks 2 else 0)"
  obtains q' where "worker_reserve (thieves_take ks) k q = Some q'" "represents q' (drop n xs)"
    "length xs - n + unat k \<le> unat (cap (wbuf q'))" "grown q q'"
proof (cases "k = 0")
  case True
  then show ?thesis using r representsD(6) [OF r] by (intro that [of q]) (auto simp: worker_reserve_def grown_def n_def)
next
  case k: False
  let ?q0 = "thieves_take ks 0 q" and ?c = "cap (wbuf q)" and ?len = "back_index q - front (thieves_take ks 0 q)"
  have r0: "represents ?q0 (drop (ks 0) xs)" by (rule thieves_take_drop [OF r])
  have len: "unat ?len = length xs - ks 0" using representsD(5) [OF r0] by simp
  have cap: "length xs - ks 0 \<le> unat ?c" using representsD(6) [OF r0] by simp
  have sub: "?c - ?len < k \<longleftrightarrow> unat ?c < length xs - ks 0 + unat k"
    using cap len by (simp add: word_less_nat_alt unat_sub word_le_nat_alt less_diff_conv2 add.commute)
  show ?thesis
  proof (cases "?c - ?len < k")
    case short: True
    then have "unat ?c < 2 ^ 62" using sub bound by simp
    then have d: "pow2 (2 * ?c)" "unat (2 * ?c) = 2 * unat ?c" using pow2_double [OF representsD(4) [OF r]] by auto
    obtain c' where c': "grow_loop (2 * ?c) ?len k = Some c'" "pow2 c'" "unat (2 * ?c) \<le> unat c'"
      "length xs - ks 0 + unat k \<le> unat c'"
      using grow_loop_enough [OF d(1), of ?len k] len cap d(2) bound by fastforce
    have m: "MIN_CAP \<le> c'" using representsD(1) [OF r] c'(3) d(2) by (simp add: shape_def MIN_CAP_le)
    have "length (drop (ks 0) xs) \<le> unat c'" using c'(4) by simp
    from resize_represents [OF r0 c'(2) m this, of "\<lambda>k. ks (k + 1)"] obtain q' where
      q': "resize (thieves_take (\<lambda>k. ks (k + 1))) c' ?q0 = Some q'" "represents q' (drop (ks (0 + 1) + ks (1 + 1)) (drop (ks 0) xs))"
      "cap (wbuf q') = c'" "grown ?q0 q'" .
    have n: "n = ks 0 + (ks 1 + ks 2)" using k short sub by (simp add: n_def)
    have "worker_reserve (thieves_take ks) k q = Some q'"
      using k short q'(1) c'(1) unfolding worker_reserve_def Let_def thieves_take_shift
      by (simp add: word_neq_0_conv mult.commute)
    then show ?thesis using q'(2-4) c'(4) n by (intro that [of q']) (auto simp: grown_def add.commute numeral_2_eq_2)
  next
    case enough: False
    then have "n = ks 0" using k sub by (simp add: n_def)
    then show ?thesis using k enough sub r0
      by (intro that [of ?q0]) (auto simp: worker_reserve_def Let_def grown_def word_neq_0_conv)
  qed
qed

lemma worker_is_empty_represents: "represents q xs \<Longrightarrow> worker_is_empty q \<longleftrightarrow> xs = []"
  using representsD(11) [of q xs] by (simp add: worker_is_empty_def)

lemma worker_len_represents: "represents q xs \<Longrightarrow> unat (worker_len q) = length xs"
  using representsD(5,11) [of q xs] by (simp add: worker_len_def)

lemma inner_drop_represents:
  assumes r: "represents q xs"
  shows "\<exists>q'. inner_drop q = Some (xs, q') \<and> heap q' (ptr (wbuf q)) = None
    \<and> (\<forall>p. p \<noteq> ptr (wbuf q) \<longrightarrow> heap q' p = heap q p)"
  using drop_loop_window [OF representsD(2) [OF r] representsD(5) [OF r] representsD(9) [OF r]]
    liveD(2) [OF representsD(2) [OF r]] representsD(3) [OF r]
  by (simp add: inner_drop_def buffer_dealloc_def)

section \<open>The worker queue provides the interface of its flavor\<close>

lemma worker_push_quiet:
  assumes "represents q xs" "length xs < 2 ^ 62"
  shows "\<exists>q'. worker_push quiet x q = Some q' \<and> represents q' (xs @ [x]) \<and> flavor q' = flavor q"
  by (rule worker_push_represents [where ks = "\<lambda>_. 0" and x = x, OF assms]) (auto simp: quiet_take cong: if_cong)

lemma worker_pop_quiet_fifo:
  assumes "represents q xs" "flavor q = Fifo"
  shows "\<exists>q'. worker_pop quiet q = Some (case xs of [] \<Rightarrow> None | x # _ \<Rightarrow> Some x, q')
    \<and> represents q' (tl xs) \<and> flavor q' = Fifo"
  by (rule worker_pop_fifo_spec [where ks = "\<lambda>_. 0", OF assms]) (auto simp: quiet_take drop_Suc cong: if_cong split: list.splits)

lemma worker_pop_quiet_lifo:
  assumes "represents q xs" "flavor q = Lifo"
  shows "\<exists>q'. worker_pop quiet q = Some (if xs = [] then None else Some (last xs), q')
    \<and> represents q' (butlast xs) \<and> flavor q' = Lifo"
proof -
  have "Suc 0 < length xs \<or> Suc 0 = length xs \<longleftrightarrow> xs \<noteq> []" by (cases xs) auto
  then show ?thesis using worker_pop_lifo_spec [where ks = "\<lambda>_. 0", OF assms] unfolding quiet_race
    by (cases "xs = []") (auto cong: if_cong)
qed

interpretation fifo: fifo_queue "worker_push quiet" "worker_pop quiet" worker_is_empty tasks
  "\<lambda>q. wf_worker q \<and> flavor q = Fifo" "2 ^ 62"
proof
  fix q :: "'a worker" and x
  assume q: "wf_worker q \<and> flavor q = Fifo"
  then have r: "represents q (tasks q)" by (simp add: represents_iff)
  show "\<exists>q'. worker_push quiet x q = Some q' \<and> (wf_worker q' \<and> flavor q' = Fifo) \<and> tasks q' = tasks q @ [x]"
    if "length (tasks q) < 2 ^ 62"
    using worker_push_quiet [OF r that, of x] q by (auto simp: represents_iff)
  show "\<exists>q'. worker_pop quiet q = Some (None, q') \<and> (wf_worker q' \<and> flavor q' = Fifo) \<and> tasks q' = []"
    if "tasks q = []"
    using worker_pop_quiet_fifo [OF r] q that by (auto simp: represents_iff)
  show "worker_is_empty q \<longleftrightarrow> tasks q = []" by (rule worker_is_empty_represents [OF r])
  show "\<exists>q'. worker_pop quiet q = Some (Some x, q') \<and> (wf_worker q' \<and> flavor q' = Fifo) \<and> tasks q' = xs"
    if "tasks q = x # xs" for xs
    using worker_pop_quiet_fifo [OF r] q that by (auto simp: represents_iff)
qed

interpretation lifo: lifo_queue "worker_push quiet" "worker_pop quiet" worker_is_empty tasks
  "\<lambda>q. wf_worker q \<and> flavor q = Lifo" "2 ^ 62"
proof
  fix q :: "'a worker" and x
  assume q: "wf_worker q \<and> flavor q = Lifo"
  then have r: "represents q (tasks q)" by (simp add: represents_iff)
  show "\<exists>q'. worker_push quiet x q = Some q' \<and> (wf_worker q' \<and> flavor q' = Lifo) \<and> tasks q' = tasks q @ [x]"
    if "length (tasks q) < 2 ^ 62"
    using worker_push_quiet [OF r that, of x] q by (auto simp: represents_iff)
  show "\<exists>q'. worker_pop quiet q = Some (None, q') \<and> (wf_worker q' \<and> flavor q' = Lifo) \<and> tasks q' = []"
    if "tasks q = []"
    using worker_pop_quiet_lifo [OF r] q that by (auto simp: represents_iff)
  show "worker_is_empty q \<longleftrightarrow> tasks q = []" by (rule worker_is_empty_represents [OF r])
  show "\<exists>q'. worker_pop quiet q = Some (Some x, q') \<and> (wf_worker q' \<and> flavor q' = Lifo) \<and> tasks q' = xs"
    if "tasks q = xs @ [x]" for xs
    using worker_pop_quiet_lifo [OF r] q that by (auto simp: represents_iff)
qed


section \<open>Properties\<close>

lemma worker_new_wf:
  "wf_worker (worker_new fl sz)" "tasks (worker_new fl sz) = []" "flavor (worker_new fl sz) = fl"
  using represents_worker_new [of fl sz] by (auto simp: represents_iff) (simp add: worker_new_def buffer_alloc_def)

lemma queue_exists:
  assumes "length xs \<le> 2 ^ 62"
  shows "\<exists>q. represents q xs \<and> flavor q = fl"
  using fifo.push_all [of "worker_new fl 8" xs] lifo.push_all [of "worker_new fl 8" xs] assms
  by (cases fl) (auto simp: represents_iff worker_new_wf)

lemma some_queue: "\<exists>q. represents (q :: nat worker) [5, 6, 7] \<and> flavor q = fl"
  by (rule queue_exists) simp

text \<open>
  C4: \<open>Worker::push\<close> returns, whatever thieves take in its gaps: with \<open>ks k\<close> tasks taken at gap \<open>k\<close> (or all, if there are
  fewer), the queue holds exactly the tasks that were not taken, in order, and the new task behind them. The buffer is
  doubled if and only if the tasks that are left when \<open>front\<close> is loaded fill it, and only then are there the gaps 1 and 2.
\<close>

theorem worker_push_under_theft:
  assumes "represents q xs" "length xs < 2 ^ 62"
  shows "let full = unat (cap (wbuf q)) \<le> length xs - ks 0;
             taken = ks 0 + (if full then ks 1 + ks 2 else 0) + ks 3
         in \<exists>q'. worker_push (thieves_take ks) x q = Some q' \<and> represents q' (drop taken xs @ [x])
           \<and> cap (wbuf q') = (if full then 2 * cap (wbuf q) else cap (wbuf q)) \<and> flavor q' = flavor q"
  unfolding Let_def by (rule worker_push_represents [where ks = ks and x = x, OF assms]) blast

theorem worker_push_under_theft_witness:
  "\<exists>q :: nat worker. represents q [5, 6, 7] \<and> (\<exists>q'. worker_push (thieves_take (\<lambda>k. if k = 3 then 1 else 0)) 8 q = Some q'
    \<and> represents q' [6, 7, 8] \<and> cap (wbuf q') = cap (wbuf q) \<and> flavor q' = Fifo)"
proof -
  obtain q :: "nat worker" where q: "represents q [5, 6, 7]" "flavor q = Fifo" using some_queue by blast
  have "64 \<le> unat (cap (wbuf q))" using representsD(1) [OF q(1)] by (simp add: shape_def MIN_CAP_le)
  then show ?thesis using worker_push_under_theft [OF q(1), of "\<lambda>k. if k = 3 then 1 else 0" 8] q by auto
qed

text \<open>
  C5: \<open>Worker::pop\<close> of a FIFO queue returns, whatever thieves take in its gaps. With \<open>n\<close> tasks taken before the
  \<open>fetch_add\<close> it yields the task at position \<open>n\<close>, the oldest one left, and nothing exactly if none is left; the queue
  keeps the tasks behind it, less those taken during the \<open>resize\<close> if the buffer is halved. It is halved if and only if a task is yielded,
  the capacity is above the minimum and the length seen at the first load is at most a quarter of it.
\<close>

theorem worker_pop_fifo_under_theft:
  assumes "represents q xs" "flavor q = Fifo"
  shows "let n = ks 0 + ks 1;
             shrinks = n < length xs \<and> 64 < unat (cap (wbuf q)) \<and> length xs - ks 0 \<le> unat (cap (wbuf q)) div 4
         in \<exists>q'. worker_pop (thieves_take ks) q = Some (if n < length xs then Some (xs ! n) else None, q')
           \<and> represents q' (drop (Suc n + (if shrinks then ks 3 + ks 4 else 0)) xs)
           \<and> cap (wbuf q') = (if shrinks then cap (wbuf q) div 2 else cap (wbuf q)) \<and> flavor q' = Fifo"
  unfolding Let_def by (rule worker_pop_fifo_spec [where ks = ks, OF assms]) blast

theorem worker_pop_fifo_under_theft_witness:
  "\<exists>q :: nat worker. represents q [5, 6, 7] \<and> (\<exists>q'. worker_pop (thieves_take (\<lambda>k. if k = 1 then 1 else 0)) q = Some (Some 6, q')
    \<and> represents q' [7] \<and> flavor q' = Fifo)"
proof -
  obtain q :: "nat worker" where q: "represents q [5, 6, 7]" "flavor q = Fifo" using some_queue by blast
  show ?thesis using worker_pop_fifo_under_theft [OF q, of "\<lambda>k. if k = 1 then 1 else 0"] q
    by (auto cong: if_cong)
qed

text \<open>
  C6: \<open>Worker::pop\<close> of a LIFO queue returns, whatever thieves take in its gaps, the race for the last task included. With
  \<open>n\<close> tasks taken before its second load of \<open>front\<close> it yields the newest task if more than one is left; if exactly one is left, it yields it
  if and only if no thief takes it before the \<open>compare_exchange\<close> (\<open>ks 2 = 0\<close>), so that a task lost to a thief is never returned as well; and otherwise nothing. The
  queue keeps the other tasks that were not taken.
\<close>

theorem worker_pop_lifo_under_race:
  assumes "represents q xs" "flavor q = Lifo"
  shows "let n = ks 0 + ks 1;
             shrinks = Suc n < length xs \<and> 64 < unat (cap (wbuf q)) \<and> length xs - Suc n < unat (cap (wbuf q)) div 4
         in \<exists>q'. worker_pop (racers_take ks) q
               = Some (if Suc n < length xs \<or> Suc n = length xs \<and> ks 2 = 0 then Some (last xs) else None, q')
           \<and> represents q' (drop (n + (if shrinks then ks 3 + ks 4 else 0)) (butlast xs))
           \<and> cap (wbuf q') = (if shrinks then cap (wbuf q) div 2 else cap (wbuf q)) \<and> flavor q' = Lifo"
  unfolding Let_def by (rule worker_pop_lifo_spec [where ks = ks, OF assms]) blast

theorem worker_pop_lifo_under_race_witness:
  "\<exists>q :: nat worker. represents q [5, 6, 7] \<and> (\<exists>q'. worker_pop (racers_take (\<lambda>k. if k = 1 then 2 else if k = 2 then 1 else 0)) q = Some (None, q')
    \<and> represents q' [] \<and> flavor q' = Lifo)"
proof -
  obtain q :: "nat worker" where q: "represents q [5, 6, 7]" "flavor q = Lifo" using some_queue by blast
  show ?thesis using worker_pop_lifo_under_race [OF q, of "\<lambda>k. if k = 1 then 2 else if k = 2 then 1 else 0"] q
    by (auto cong: if_cong)
qed

text \<open>
  C9: a FIFO queue returns what was pushed in the order of the pushes: after any number of
  pushes on a new queue (up to the largest capacity), with every growth of the buffer on the way, the
  pops give back exactly the pushed tasks, and the buffer shrinks on the way back without losing any.
\<close>

theorem fifo_push_pop_roundtrip:
  assumes "length xs \<le> 2 ^ 62"
  shows "\<exists>q q'. for_in xs (worker_push quiet) (worker_new_fifo sz) = Some q
    \<and> pop_n (worker_pop quiet) (length xs) q = Some (xs, q') \<and> tasks q' = []"
proof -
  have "wf_worker (worker_new_fifo sz) \<and> flavor (worker_new_fifo sz) = Fifo" by (simp add: worker_new_fifo_def worker_new_wf)
  from fifo.push_all_pop_n [OF this, of xs] assms show ?thesis by (simp add: worker_new_fifo_def worker_new_wf)
qed

theorem fifo_push_pop_roundtrip_witness:
  "\<exists>q q'. for_in [5, 6, 7 :: nat] (worker_push quiet) (worker_new_fifo 8) = Some q
    \<and> pop_n (worker_pop quiet) (length [5 :: nat, 6, 7]) q = Some ([5, 6, 7], q') \<and> tasks q' = []"
  using fifo_push_pop_roundtrip [of "[5, 6, 7 :: nat]" 8] by simp

text \<open>A LIFO queue returns what was pushed in the reverse order of the pushes.\<close>

lemma lifo_push_pop_roundtrip:
  assumes "length xs \<le> 2 ^ 62"
  shows "\<exists>q q'. for_in xs (worker_push quiet) (worker_new_lifo sz) = Some q
    \<and> pop_n (worker_pop quiet) (length xs) q = Some (rev xs, q') \<and> tasks q' = []"
proof -
  have "wf_worker (worker_new_lifo sz) \<and> flavor (worker_new_lifo sz) = Lifo" by (simp add: worker_new_lifo_def worker_new_wf)
  from lifo.push_all_pop_n [OF this, of xs] assms show ?thesis by (simp add: worker_new_lifo_def worker_new_wf)
qed

text \<open>
  C40: \<open>Worker::reserve\<close> ends (its doubling loop does) and leaves room for the requested number of tasks beside those the
  queue holds, which are exactly the tasks that thieves did not take: \<open>ks 0\<close> before the load of \<open>front\<close> and \<open>ks 1 + ks 2\<close> during
  the \<open>resize\<close>, which takes place if and only if the tasks left by then and the requested ones exceed the capacity.
\<close>

theorem worker_reserve_room:
  assumes "represents q xs" "length xs + unat k \<le> 2 ^ 62"
  shows "let n = (if k = 0 then 0 else ks 0 + (if unat (cap (wbuf q)) < length xs - ks 0 + unat k then ks 1 + ks 2 else 0))
         in \<exists>q'. worker_reserve (thieves_take ks) k q = Some q' \<and> represents q' (drop n xs)
           \<and> length (drop n xs) + unat k \<le> unat (cap (wbuf q'))"
  unfolding Let_def length_drop by (rule worker_reserve_represents [where ks = ks and k = k, OF assms]) blast

theorem worker_reserve_room_witness:
  "\<exists>q :: nat worker. represents q [5, 6, 7] \<and> (\<exists>q'. worker_reserve (thieves_take (\<lambda>k. if k = 0 then 1 else 0)) 100 q = Some q'
    \<and> represents q' [6, 7] \<and> 102 \<le> unat (cap (wbuf q')))"
proof -
  obtain q :: "nat worker" where q: "represents q [5, 6, 7]" using some_queue by blast
  show ?thesis using worker_reserve_room [OF q, of 100 "\<lambda>k. if k = 0 then 1 else 0"] q by (auto cong: if_cong)
qed

text \<open>
  Dropping the queue drops each task it holds exactly once, oldest first, and frees its
  buffer and no other allocation.
\<close>

lemma inner_drop_once:
  assumes "represents q xs"
  shows "\<exists>q'. inner_drop q = Some (xs, q') \<and> heap q' = (heap q)(ptr (wbuf q) := None)"
proof -
  obtain q' where "inner_drop q = Some (xs, q')" "heap q' (ptr (wbuf q)) = None"
    "\<And>p. p \<noteq> ptr (wbuf q) \<Longrightarrow> heap q' p = heap q p"
    using inner_drop_represents [OF assms] by blast
  moreover from this have "heap q' = (heap q)(ptr (wbuf q) := None)" by (intro ext) simp
  ultimately show ?thesis by blast
qed

text \<open>\<open>Worker::len\<close> and \<open>Worker::is_empty\<close> report the tasks the queue holds.\<close>

lemma worker_observers:
  assumes "represents q xs"
  shows "unat (worker_len q) = length xs \<and> (worker_is_empty q \<longleftrightarrow> xs = [])"
  by (simp add: worker_len_represents [OF assms] worker_is_empty_represents [OF assms])

end
