(* ===== verification/Stealer_Ops.thy ===== *)
theory Stealer_Ops
  imports Worker_Queue
begin

text \<open>
  The thief's side of the work-stealing deque (\<^verbatim>\<open>Stealer\<close> of \<^verbatim>\<open>task/crossbeam.rs\<close>): \<open>steal\<close>,
  \<open>steal_batch\<close> and \<open>steal_batch_and_pop\<close>. The environment \<open>env\<close> is now what the owner and the
  other thieves do to the source queue at the operation's gaps; \<open>denv\<close> is what thieves do to
  the destination queue, which the caller owns.
\<close>

section \<open>Operations\<close>

definition MAX_BATCH :: usize where "MAX_BATCH = 32"

text \<open>A stealer names the shared \<^verbatim>\<open>Inner\<close> (its \<^verbatim>\<open>Arc\<close>) and copies the flavor.\<close>

record stealer =
  inner :: nat
  sflavor :: flavor

definition worker_stealer :: "nat \<Rightarrow> 'a worker \<Rightarrow> stealer" where
  "worker_stealer self q = \<lparr>inner = self, sflavor = flavor q\<rparr>"

definition stealer_is_empty :: "'a env \<Rightarrow> 'a worker \<Rightarrow> bool" where
  "stealer_is_empty env q = (let f = front q; q = env 0 q; b = back_index q in sint (b - f) \<le> 0)"

definition stealer_len :: "'a env \<Rightarrow> 'a worker \<Rightarrow> usize" where
  "stealer_len env q =
     (let f = front q; q = env 0 q; b = back_index q in if sint (b - f) < 0 then 0 else b - f)"

text \<open>
  The gaps of \<open>steal\<close>: before the load of \<open>back_index\<close> (0) and of the buffer (1), before the read
  of the task (2), before the second load of the buffer (3) and before the \<open>compare_exchange\<close> (4).
\<close>

definition stealer_steal :: "'a env \<Rightarrow> 'a worker \<Rightarrow> ('a steal \<times> 'a worker) option" where
  "stealer_steal env q =
     (let f = front q; q = env 0 q; b = back_index q
      in if sint (b - f) \<le> 0 then Some (Empty, q)
         else let q = env 1 q; buf = ibuf q; q = env 2 q
         in do {
           task \<leftarrow> buffer_load buf f q;
           let q = env 3 q;
           if ibuf q \<noteq> buf then Some (Retry, q)
           else let q = env 4 q
           in if front q \<noteq> f then Some (Retry, q)
              else do { t \<leftarrow> task; Some (Success t, q\<lparr>front := f + 1\<rparr>) } })"

text \<open>The \<open>for\<close> loops that copy a batch from a FIFO source, for either flavor of destination.\<close>

definition copy_batch :: "buffer \<Rightarrow> isize \<Rightarrow> buffer \<Rightarrow> isize \<Rightarrow> nat \<Rightarrow> 'a worker \<Rightarrow> 'a worker \<Rightarrow> 'a worker option" where
  "copy_batch buf f dest_buffer dest_b n src dest =
     (case flavor dest of
        Fifo \<Rightarrow> for_in [0..<n] (\<lambda>i dest. do {
          task \<leftarrow> buffer_load buf (f + of_nat i) src;
          buffer_store dest_buffer (dest_b + of_nat i) task dest }) dest
      | Lifo \<Rightarrow> for_in [0..<n] (\<lambda>i dest. do {
          task \<leftarrow> buffer_load buf (f + of_nat i) src;
          buffer_store dest_buffer (dest_b + of_nat (n - 1 - i)) task dest }) dest)"

text \<open>The \<open>for\<close> loop that reverses the last \<open>n\<close> tasks below \<open>dest_b\<close> by swapping.\<close>

definition reverse_batch :: "buffer \<Rightarrow> isize \<Rightarrow> nat \<Rightarrow> 'a worker \<Rightarrow> 'a worker option" where
  "reverse_batch dest_buffer dest_b n dest =
     for_in [0..<n div 2] (\<lambda>i dest. do {
       let i1 = dest_b - of_nat (n - i);
       let i2 = dest_b - of_nat (i + 1);
       t1 \<leftarrow> buffer_load dest_buffer i1 dest;
       t2 \<leftarrow> buffer_load dest_buffer i2 dest;
       dest \<leftarrow> buffer_store dest_buffer i1 t2 dest;
       buffer_store dest_buffer i2 t1 dest }) dest"

text \<open>
  The loop that steals one by one from a LIFO source: \<open>i\<close> tasks are stolen already, at most
  \<open>n\<close> more follow. It returns the number stolen in all and the final \<open>dest_b\<close>. Iteration \<open>i\<close>
  has the gaps \<open>4 * i\<close> (before the load of \<open>back_index\<close>) to \<open>4 * i + 3\<close> (before the \<open>compare_exchange\<close>).
\<close>

fun steal_loop :: "'a env \<Rightarrow> buffer \<Rightarrow> buffer \<Rightarrow> nat \<Rightarrow> nat \<Rightarrow> isize \<Rightarrow> isize \<Rightarrow> 'a worker \<Rightarrow> 'a worker
    \<Rightarrow> (nat \<times> isize \<times> 'a worker \<times> 'a worker) option" where
  "steal_loop env buf dest_buffer i 0 f dest_b src dest = Some (i, dest_b, src, dest)"
| "steal_loop env buf dest_buffer i (Suc n) f dest_b src dest =
     (let src = env (4 * i) src; b = back_index src
      in if 0 < i \<and> sint (b - f) \<le> 0 then Some (i, dest_b, src, dest)
         else do {
           let src = env (4 * i + 1) src;
           task \<leftarrow> buffer_load buf f src;
           let src = env (4 * i + 2) src;
           if ibuf src \<noteq> buf then Some (i, dest_b, src, dest)
           else let src = env (4 * i + 3) src
           in if front src \<noteq> f then Some (i, dest_b, src, dest)
              else do {
                t \<leftarrow> task;
                dest \<leftarrow> buffer_write dest_buffer dest_b t dest;
                steal_loop env buf dest_buffer (Suc i) n (f + 1) (dest_b + 1) (src\<lparr>front := f + 1\<rparr>) dest } })"

text \<open>
  \<open>steal_batch\<close> for two different queues. Gaps 0 to 4 of a FIFO source are those of \<open>steal\<close>; a
  LIFO source has the gaps 0 and 1 and then those of \<open>steal_loop\<close>.
\<close>

definition steal_batch_body :: "flavor \<Rightarrow> 'a env \<Rightarrow> 'a env \<Rightarrow> 'a worker \<Rightarrow> 'a worker
    \<Rightarrow> (unit steal \<times> 'a worker \<times> 'a worker) option" where
  "steal_batch_body fl env denv src dest =
     (let f = front src; src = env 0 src; b = back_index src; len = b - f
      in if sint len \<le> 0 then Some (Empty, src, dest)
         else do {
           let batch_size = min ((len + 1) div 2) MAX_BATCH;
           dest \<leftarrow> worker_reserve denv batch_size dest;
           let dest_buffer = wbuf dest;
           let dest_b = back_index dest;
           let src = env 1 src;
           let buf = ibuf src;
           case fl of
             Fifo \<Rightarrow> do {
               let src = env 2 src;
               dest \<leftarrow> copy_batch buf f dest_buffer dest_b (unat batch_size) src dest;
               let src = env 3 src;
               if ibuf src \<noteq> buf then Some (Retry, src, dest)
               else let src = env 4 src
               in if front src \<noteq> f then Some (Retry, src, dest)
                  else Some (Success (), src\<lparr>front := f + batch_size\<rparr>, dest\<lparr>back_index := dest_b + batch_size\<rparr>) }
           | Lifo \<Rightarrow> do {
               (n, dest_b, src, dest) \<leftarrow> steal_loop (\<lambda>k. env (k + 2)) buf dest_buffer 0 (unat batch_size) f dest_b src dest;
               if n = 0 then Some (Retry, src, dest)
               else do {
                 dest \<leftarrow> (if flavor dest = Fifo then reverse_batch dest_buffer dest_b n dest else Some dest);
                 Some (Success (), src, dest\<lparr>back_index := dest_b\<rparr>) } } })"

text \<open>The whole operation, on a store of queues: \<^verbatim>\<open>Arc::ptr_eq\<close> compares the two names.\<close>

definition stealer_steal_batch :: "stealer \<Rightarrow> 'a env \<Rightarrow> 'a env \<Rightarrow> nat \<Rightarrow> (nat \<Rightarrow> 'a worker)
    \<Rightarrow> (unit steal \<times> (nat \<Rightarrow> 'a worker)) option" where
  "stealer_steal_batch self env denv d store =
     (if inner self = d
      then if worker_is_empty (store d) then Some (Empty, store) else Some (Success (), store)
      else do {
        (r, src, dest) \<leftarrow> steal_batch_body (sflavor self) env denv (store (inner self)) (store d);
        Some (r, store(inner self := src, d := dest)) })"

text \<open>
  The loop of \<open>steal_batch_and_pop\<close> for a LIFO source: the task stolen before, \<open>task\<close>, goes to the
  destination and the one just stolen takes its place.
\<close>

fun steal_pop_loop :: "'a env \<Rightarrow> buffer \<Rightarrow> buffer \<Rightarrow> nat \<Rightarrow> nat \<Rightarrow> isize \<Rightarrow> isize \<Rightarrow> 'a \<Rightarrow> 'a worker \<Rightarrow> 'a worker
    \<Rightarrow> (nat \<times> isize \<times> 'a \<times> 'a worker \<times> 'a worker) option" where
  "steal_pop_loop env buf dest_buffer i 0 f dest_b task src dest = Some (i, dest_b, task, src, dest)"
| "steal_pop_loop env buf dest_buffer i (Suc n) f dest_b task src dest =
     (let src = env (4 * i) src; b = back_index src
      in if sint (b - f) \<le> 0 then Some (i, dest_b, task, src, dest)
         else do {
           let src = env (4 * i + 1) src;
           tmp \<leftarrow> buffer_load buf f src;
           let src = env (4 * i + 2) src;
           if ibuf src \<noteq> buf then Some (i, dest_b, task, src, dest)
           else let src = env (4 * i + 3) src
           in if front src \<noteq> f then Some (i, dest_b, task, src, dest)
              else do {
                t \<leftarrow> tmp;
                dest \<leftarrow> buffer_write dest_buffer dest_b task dest;
                steal_pop_loop env buf dest_buffer (Suc i) n (f + 1) (dest_b + 1) t (src\<lparr>front := f + 1\<rparr>) dest } })"

text \<open>
  \<open>steal_batch_and_pop\<close> for two different queues. Gap 2 is before the read of the first task. A
  FIFO source has the gaps 3 and 4 of \<open>steal\<close>; a LIFO source has gap 3 before its first
  \<open>compare_exchange\<close> (the buffer is not checked again there) and then those of \<open>steal_pop_loop\<close>.
\<close>

definition steal_batch_and_pop_body :: "flavor \<Rightarrow> 'a env \<Rightarrow> 'a env \<Rightarrow> 'a worker \<Rightarrow> 'a worker
    \<Rightarrow> ('a steal \<times> 'a worker \<times> 'a worker) option" where
  "steal_batch_and_pop_body fl env denv src dest =
     (let f = front src; src = env 0 src; b = back_index src; len = b - f
      in if sint len \<le> 0 then Some (Empty, src, dest)
         else do {
           let batch_size = min ((len - 1) div 2) (MAX_BATCH - 1);
           dest \<leftarrow> worker_reserve denv batch_size dest;
           let dest_buffer = wbuf dest;
           let dest_b = back_index dest;
           let src = env 1 src;
           let buf = ibuf src;
           let src = env 2 src;
           task \<leftarrow> buffer_load buf f src;
           case fl of
             Fifo \<Rightarrow> do {
               dest \<leftarrow> copy_batch buf (f + 1) dest_buffer dest_b (unat batch_size) src dest;
               let src = env 3 src;
               if ibuf src \<noteq> buf then Some (Retry, src, dest)
               else let src = env 4 src
               in if front src \<noteq> f then Some (Retry, src, dest)
                  else do {
                    t \<leftarrow> task;
                    Some (Success t, src\<lparr>front := f + (batch_size + 1)\<rparr>, dest\<lparr>back_index := dest_b + batch_size\<rparr>) } }
           | Lifo \<Rightarrow>
               let src = env 3 src
               in if front src \<noteq> f then Some (Retry, src, dest)
                  else do {
                    t \<leftarrow> task;
                    (n, dest_b, t, src, dest) \<leftarrow> steal_pop_loop (\<lambda>k. env (k + 4)) buf dest_buffer 0 (unat batch_size)
                       (f + 1) dest_b t (src\<lparr>front := f + 1\<rparr>) dest;
                    dest \<leftarrow> (if flavor dest = Fifo then reverse_batch dest_buffer dest_b n dest else Some dest);
                    Some (Success t, src, dest\<lparr>back_index := dest_b\<rparr>) } })"

definition stealer_steal_batch_and_pop :: "stealer \<Rightarrow> 'a env \<Rightarrow> 'a env \<Rightarrow> nat \<Rightarrow> (nat \<Rightarrow> 'a worker)
    \<Rightarrow> ('a steal \<times> (nat \<Rightarrow> 'a worker)) option" where
  "stealer_steal_batch_and_pop self env denv d store =
     (if inner self = d
      then do {
        (r, q) \<leftarrow> worker_pop denv (store d);
        Some (case r of None \<Rightarrow> Empty | Some task \<Rightarrow> Success task, store(d := q)) }
      else do {
        (r, src, dest) \<leftarrow> steal_batch_and_pop_body (sflavor self) env denv (store (inner self)) (store d);
        Some (r, store(inner self := src, d := dest)) })"


section \<open>Writing behind the back of the destination\<close>

text \<open>
  A batch is written into the free cells behind \<open>back_index\<close> and becomes part of the queue when
  \<open>back_index\<close> moves. \<open>area q n\<close> is the content of the first \<open>n\<close> of those cells.
\<close>

definition area :: "'a worker \<Rightarrow> nat \<Rightarrow> 'a cells" where
  "area q n = buffer_window q (wbuf q) (back_index q) n"

lemma length_area [simp]: "length (area q n) = n"
  by (simp add: area_def buffer_window_def length_window)

lemma mem_only_refl: "mem_only q q"
  by (simp add: mem_only_def)

lemma mem_only_trans: "mem_only a b \<Longrightarrow> mem_only b c \<Longrightarrow> mem_only a c"
  unfolding mem_only_def by (cases a; cases b; cases c) simp

lemma area_commit:
  assumes r: "represents q ys" and "length ys + length zs \<le> unat (cap (wbuf q))" and "area q (length zs) = map Some zs"
  shows "represents (q\<lparr>back_index := back_index q + of_nat (length zs)\<rparr>) (ys @ zs)"
proof (rule representsI)
  note d = representsD [OF r]
  show "shape (q\<lparr>back_index := back_index q + of_nat (length zs)\<rparr>)"
    using d(1) by (simp add: shape_def live_def)
  show "buffer_window (q\<lparr>back_index := back_index q + of_nat (length zs)\<rparr>) (wbuf (q\<lparr>back_index := back_index q + of_nat (length zs)\<rparr>))
     (front (q\<lparr>back_index := back_index q + of_nat (length zs)\<rparr>)) (length (ys @ zs)) = map Some (ys @ zs)"
    using d(7,9) assms(3) by (simp add: buffer_window_def cells_of_def window_add area_def)
qed (use assms(2) representsD(7) [OF r] in \<open>simp_all add: add.assoc\<close>)

lemma area_store:
  assumes r: "represents q ys" and n: "length ys + n \<le> unat (cap (wbuf q))" and j: "j < n"
  shows "\<exists>q'. buffer_store (wbuf q) (back_index q + of_nat j) c q = Some q' \<and> mem_only q q'
    \<and> represents q' ys \<and> area q' n = (area q n)[j := c]"
proof -
  note d = representsD [OF r]
  let ?c = "cap (wbuf q)" and ?cs = "cells_of q (wbuf q)"
  have at: "ring_slot ?c (back_index q + of_nat j) = ring_slot ?c (front q + of_nat (length ys + j))"
    using d(7) by (simp add: add.assoc)
  let ?ds = "?cs[ring_slot ?c (back_index q + of_nat j) := c]"
  let ?q = "q\<lparr>heap := (heap q)(ptr (wbuf q) \<mapsto> ?ds)\<rparr>"
  have st: "buffer_store (wbuf q) (back_index q + of_nat j) c q = Some ?q"
    by (simp add: buffer_store_live [OF d(2)] buffer_at_def)
  have "window ?c ?ds (front q) (length ys) = window ?c ?cs (front q) (length ys)"
    unfolding at by (rule window_update_outside [OF d(4)]) (use n j in simp_all)
  then have "represents ?q ys"
    using r by (auto simp: represents_def shape_def live_def buffer_window_def cells_of_def)
  moreover have "window ?c ?ds (back_index q) n = (window ?c ?cs (back_index q) n)[j := c]"
  proof (rule nth_equalityI)
    fix i assume "i < length (window ?c ?ds (back_index q) n)"
    then have i: "i < n" by (simp add: length_window)
    have slot: "ring_slot ?c (back_index q + of_nat j) \<noteq> ring_slot ?c (back_index q + of_nat i)" if "i \<noteq> j"
      using i j n that ring_slot_inj [OF d(4), of j i "back_index q"] by auto
    show "window ?c ?ds (back_index q) n ! i = (window ?c ?cs (back_index q) n)[j := c] ! i"
      using i j slot ring_slot_less [OF d(4)] liveD(3) [OF d(2)]
      by (cases "i = j") (simp_all add: nth_window length_window)
  qed (simp add: length_window)
  ultimately show ?thesis using st by (auto simp: mem_only_def area_def buffer_window_def cells_of_def)
qed

lemma area_store_loop:
  assumes "represents q ys" "length ys + n \<le> unat (cap (wbuf q))" "\<forall>i \<in> set is. p i < n"
  shows "\<exists>q'. for_in is (\<lambda>i d. buffer_store (wbuf q) (back_index q + of_nat (p i)) (v i) d) q = Some q'
    \<and> mem_only q q' \<and> represents q' ys \<and> area q' n = fold (\<lambda>i w. w[p i := v i]) is (area q n)"
  using assms
proof (induction "is" arbitrary: q)
  case Nil
  then show ?case by (simp add: mem_only_refl)
next
  case (Cons i "is")
  obtain q1 where q1: "buffer_store (wbuf q) (back_index q + of_nat (p i)) (v i) q = Some q1" "mem_only q q1"
    "represents q1 ys" "area q1 n = (area q n)[p i := v i]"
    using area_store [OF Cons.prems(1,2), of "p i" "v i"] Cons.prems(3) by auto
  note m = mem_onlyD [OF q1(2)]
  show ?case using Cons.IH [OF q1(3)] Cons.prems(2,3) q1 by (auto simp: m intro: mem_only_trans)
qed

lemma fold_update_nth:
  assumes "distinct is" "inj_on p (set is)" "i \<in> set is" "p i < length w"
  shows "fold (\<lambda>i w. w[p i := v i]) is w ! p i = v i"
  using assms
proof (induction "is" rule: rev_induct)
  case (snoc x xs)
  have len: "length (fold (\<lambda>i w. w[p i := v i]) xs w) = length w"
    by (induction xs arbitrary: w) auto
  show ?case using snoc len by (cases "i = x") (auto simp: inj_on_def nth_list_update)
qed simp

lemma fold_update_permutation:
  assumes "bij_betw p {0..<n} {0..<n}" "length w = n" "\<And>i. i < n \<Longrightarrow> zs ! p i = v i" "length zs = n"
  shows "fold (\<lambda>i w. w[p i := v i]) [0..<n] w = zs"
proof (rule nth_equalityI)
  have len: "length (fold (\<lambda>i w. w[p i := v i]) xs w) = length w" for xs
    by (induction xs arbitrary: w) auto
  then show "length (fold (\<lambda>i w. w[p i := v i]) [0..<n] w) = length zs" using assms by simp
  fix j assume "j < length (fold (\<lambda>i w. w[p i := v i]) [0..<n] w)"
  then have "j \<in> p ` {0..<n}" using assms(1,2) len by (simp add: bij_betw_def)
  then obtain i where i: "i < n" "j = p i" by auto
  have "p i < length w" using assms(1,2) i(1) by (auto simp: bij_betw_def)
  then show "fold (\<lambda>i w. w[p i := v i]) [0..<n] w ! j = zs ! j"
    using fold_update_nth [of "[0..<n]" p i w v] assms(1,3) i by (auto simp: bij_betw_def)
qed

text \<open>What order a batch from a queue of flavor \<open>f\<close> is stored in, in a queue of flavor \<open>g\<close>.\<close>

definition arranged :: "flavor \<Rightarrow> flavor \<Rightarrow> 'a list \<Rightarrow> 'a list" where
  "arranged f g ts = (if f = g then ts else rev ts)"

lemma length_arranged [simp]: "length (arranged f g ts) = length ts"
  by (simp add: arranged_def)

text \<open>Writing a batch in the order in which a FIFO source holds it, for either flavor of destination.\<close>

definition batch_slot :: "flavor \<Rightarrow> nat \<Rightarrow> nat \<Rightarrow> nat" where
  "batch_slot fl n i = (case fl of Fifo \<Rightarrow> i | Lifo \<Rightarrow> n - 1 - i)"

lemma store_batch_area:
  assumes r: "represents dest ys" and n: "length ys + length ts \<le> unat (cap (wbuf dest))"
  shows "\<exists>dest'. for_in [0..<length ts] (\<lambda>i d. buffer_store (wbuf dest)
        (back_index dest + of_nat (batch_slot (flavor dest) (length ts) i)) (Some (ts ! i)) d) dest = Some dest'
    \<and> mem_only dest dest' \<and> represents dest' ys
    \<and> area dest' (length ts) = map Some (arranged Fifo (flavor dest) ts)"
proof -
  let ?n = "length ts" and ?p = "batch_slot (flavor dest) (length ts)"
  have p: "\<forall>i \<in> set [0..<?n]. ?p i < ?n" by (auto simp: batch_slot_def split: flavor.splits)
  have bij: "bij_betw ?p {0..<?n} {0..<?n}"
    by (rule bij_betw_byWitness [where f' = ?p]) (auto simp: batch_slot_def split: flavor.splits)
  have "fold (\<lambda>i w. w[?p i := Some (ts ! i)]) [0..<?n] (area dest ?n) = map Some (arranged Fifo (flavor dest) ts)"
    by (rule fold_update_permutation [OF bij])
      (auto simp: batch_slot_def arranged_def rev_nth split: flavor.splits)
  then show ?thesis using area_store_loop [OF r n p, of "\<lambda>i. Some (ts ! i)"] by auto
qed

lemma copy_batch_area:
  assumes r: "represents dest ys" and n: "length ys + length ts \<le> unat (cap (wbuf dest))"
    and l: "\<And>i. i < length ts \<Longrightarrow> buffer_load buf (f + of_nat i) src = Some (Some (ts ! i))"
  shows "\<exists>dest'. copy_batch buf f (wbuf dest) (back_index dest) (length ts) src dest = Some dest'
    \<and> mem_only dest dest' \<and> represents dest' ys
    \<and> area dest' (length ts) = map Some (arranged Fifo (flavor dest) ts)"
proof -
  have "copy_batch buf f (wbuf dest) (back_index dest) (length ts) src dest =
    for_in [0..<length ts] (\<lambda>i d. buffer_store (wbuf dest)
      (back_index dest + of_nat (batch_slot (flavor dest) (length ts) i)) (Some (ts ! i)) d) dest"
    unfolding copy_batch_def batch_slot_def by (auto simp: l split: flavor.splits intro!: for_in_cong)
  then show ?thesis using store_batch_area [OF r n] by simp
qed

text \<open>Swapping the two ends of a list up to its middle reverses it.\<close>

definition swap_ends :: "nat \<Rightarrow> 'v list \<Rightarrow> 'v list" where
  "swap_ends i w = w[i := w ! (length w - 1 - i), length w - 1 - i := w ! i]"

lemma swap_ends_prefix:
  assumes "k \<le> length w div 2"
  shows "length (fold swap_ends [0..<k] w) = length w
    \<and> (\<forall>j < length w. fold swap_ends [0..<k] w ! j = (if j < k \<or> length w - k \<le> j then w ! (length w - 1 - j) else w ! j))"
  using assms
proof (induction k)
  case (Suc k)
  let ?n = "length w" and ?w = "fold swap_ends [0..<k] w"
  have k: "k < ?n - 1 - k" using Suc.prems by linarith
  have len: "length ?w = ?n"
    and at: "j < ?n \<Longrightarrow> ?w ! j = (if j < k \<or> ?n - k \<le> j then w ! (?n - 1 - j) else w ! j)" for j
    using Suc by auto
  have eq: "fold swap_ends [0..<Suc k] w = ?w[k := ?w ! (?n - 1 - k), ?n - 1 - k := ?w ! k]"
    by (simp add: swap_ends_def len)
  have kk: "?n - 1 - (?n - 1 - k) = k" "\<not> ?n - k \<le> ?n - 1 - k" "\<not> ?n - 1 - k < k" "\<not> ?n - k \<le> k"
    "?n - 1 - k < ?n" "k < ?n"
    using k by linarith+
  have "fold swap_ends [0..<Suc k] w ! j = (if j < Suc k \<or> ?n - Suc k \<le> j then w ! (?n - 1 - j) else w ! j)"
    if j: "j < ?n" for j
  proof -
    consider "j = k" | "j = ?n - 1 - k" | "j < k \<or> ?n - k \<le> j" | "k < j" "j < ?n - 1 - k"
      using j by linarith
    then show ?thesis
    proof cases
      case 1 then show ?thesis unfolding eq using k kk by (simp add: len at)
    next
      case 2 then show ?thesis unfolding eq using k kk by (simp add: len at)
    next
      case 3
      then have "j \<noteq> k" "j \<noteq> ?n - 1 - k" "j < Suc k \<or> ?n - Suc k \<le> j" using k by linarith+
      with 3 show ?thesis unfolding eq using at [OF j] by auto
    next
      case 4
      then have "\<not> j < Suc k" "\<not> ?n - Suc k \<le> j" "\<not> j < k" "\<not> ?n - k \<le> j" by linarith+
      with 4 show ?thesis unfolding eq using at [OF j] by auto
    qed
  qed
  then show ?case using eq len by (simp del: upt_Suc)
qed simp

lemma swap_ends_rev: "fold swap_ends [0..<length w div 2] w = rev w"
proof (rule nth_equalityI)
  note * = swap_ends_prefix [of "length w div 2" w]
  show "length (fold swap_ends [0..<length w div 2] w) = length (rev w)" using * by simp
  fix j assume "j < length (fold swap_ends [0..<length w div 2] w)"
  then have j: "j < length w" using * by simp
  have "j = length w - 1 - j" if "\<not> j < length w div 2" "\<not> length w - length w div 2 \<le> j"
    using that j by linarith
  with * j show "fold swap_ends [0..<length w div 2] w ! j = rev w ! j"
    by (auto simp: rev_nth)
qed

lemma area_load:
  "\<lbrakk>represents q ys; j < n\<rbrakk> \<Longrightarrow> buffer_load (wbuf q) (back_index q + of_nat j) q = Some (area q n ! j)"
  by (simp add: area_def buffer_load_window representsD(2))

text \<open>One turn of the loop of \<open>reverse_batch\<close> swaps two cells.\<close>

lemma reverse_step:
  fixes q :: "'a worker"
  defines "step \<equiv> \<lambda>b w n i (dest :: 'a worker). do {
       let i1 = b - of_nat (n - i);
       let i2 = b - of_nat (i + 1);
       t1 \<leftarrow> buffer_load w i1 dest;
       t2 \<leftarrow> buffer_load w i2 dest;
       dest \<leftarrow> buffer_store w i1 t2 dest;
       buffer_store w i2 t1 dest }"
  assumes r: "represents q ys" and n: "length ys + n \<le> unat (cap (wbuf q))" and i: "i < n div 2"
  shows "\<exists>q'. step (back_index q + of_nat n) (wbuf q) n i q = Some q'
    \<and> mem_only q q' \<and> represents q' ys \<and> area q' n = swap_ends i (area q n)"
proof -
  have ij: "i < n" "n - 1 - i < n" using i by auto
  have e: "back_index q + of_nat n - of_nat (n - i) = back_index q + of_nat i"
    "back_index q + of_nat n - of_nat (i + 1) = back_index q + of_nat (n - 1 - i)"
    using ij(1) by (simp_all add: of_nat_diff algebra_simps)
  obtain q1 where q1: "buffer_store (wbuf q) (back_index q + of_nat i) (area q n ! (n - 1 - i)) q = Some q1" "mem_only q q1"
    "represents q1 ys" "area q1 n = (area q n)[i := area q n ! (n - 1 - i)]"
    using area_store [OF r n ij(1)] by blast
  note m = mem_onlyD [OF q1(2)]
  have n1: "length ys + n \<le> unat (cap (wbuf q1))" using n m by simp
  obtain q2 where q2: "buffer_store (wbuf q1) (back_index q1 + of_nat (n - 1 - i)) (area q n ! i) q1 = Some q2" "mem_only q1 q2"
    "represents q2 ys" "area q2 n = (area q1 n)[n - 1 - i := area q n ! i]"
    using area_store [OF q1(3) n1 ij(2)] by blast
  have "mem_only q q2" using q1(2) q2(2) by (rule mem_only_trans)
  then show ?thesis
    unfolding step_def e Let_def area_load [OF r ij(1)] area_load [OF r ij(2)]
    using q1(1,4) q2(1,3,4) by (simp add: m swap_ends_def)
qed

lemma reverse_batch_area:
  assumes r: "represents q ys" and n: "length ys + n \<le> unat (cap (wbuf q))"
  shows "\<exists>q'. reverse_batch (wbuf q) (back_index q + of_nat n) n q = Some q' \<and> mem_only q q'
    \<and> represents q' ys \<and> area q' n = rev (area q n)"
proof -
  define step where "step = (\<lambda>i (dest :: 'a worker). do {
       let i1 = back_index q + of_nat n - of_nat (n - i);
       let i2 = back_index q + of_nat n - of_nat (i + 1);
       t1 \<leftarrow> buffer_load (wbuf q) i1 dest;
       t2 \<leftarrow> buffer_load (wbuf q) i2 dest;
       dest \<leftarrow> buffer_store (wbuf q) i1 t2 dest;
       buffer_store (wbuf q) i2 t1 dest })"
  have "\<exists>q'. for_in [0..<k] step q = Some q'
    \<and> mem_only q q' \<and> represents q' ys \<and> area q' n = fold swap_ends [0..<k] (area q n)"
    if "k \<le> n div 2" for k
    using that
  proof (induction k)
    case (Suc k)
    then obtain q1 where q1: "for_in [0..<k] step q = Some q1" "mem_only q q1" "represents q1 ys"
      "area q1 n = fold swap_ends [0..<k] (area q n)" by auto
    note m = mem_onlyD [OF q1(2)]
    have "length ys + n \<le> unat (cap (wbuf q1))" "k < n div 2" using n m Suc.prems by simp_all
    from reverse_step [OF q1(3) this] obtain q2 where
      "step k q1 = Some q2" "mem_only q1 q2" "represents q2 ys" "area q2 n = swap_ends k (area q1 n)"
      unfolding step_def m by blast
    then show ?case using q1 mem_only_trans [OF q1(2)] by (auto simp: for_in_append)
  qed (use r in \<open>simp add: mem_only_refl\<close>)
  from this [of "n div 2"] show ?thesis using swap_ends_rev [of "area q n"] by (simp add: reverse_batch_def step_def)
qed

section \<open>The loops over a LIFO source\<close>

lemma quiet_apply [simp]: "quiet k q = q" "(\<lambda>k. quiet (Suc (h k))) = quiet"
  by (simp_all add: quiet_def)

lemma area_append:
  assumes r: "represents dest ys" and n: "length ys + Suc (i + m) \<le> unat (cap (wbuf dest))"
  shows "\<exists>dest'. buffer_write (wbuf dest) (back_index dest + of_nat i) t dest = Some dest' \<and> mem_only dest dest'
    \<and> represents dest' ys \<and> take (Suc i) (area dest' (Suc (i + m))) = take i (area dest (Suc (i + m))) @ [Some t]"
  using area_store [OF r n, of i "Some t"] by (auto simp: buffer_write_def take_Suc_conv_app_nth)

lemma represents_advance:
  assumes "represents q (x # xs)"
  shows "represents (q\<lparr>front := front q + 1\<rparr>) xs"
  using represents_drop [OF assms, of 1] by simp

lemma represents_load:
  "\<lbrakk>represents q xs; i < length xs\<rbrakk> \<Longrightarrow> buffer_load (wbuf q) (front q + of_nat i) q = Some (Some (xs ! i))"
  using buffer_load_window [of q "wbuf q" i "length xs" "front q"] by (simp add: representsD)

lemma represents_load_hd:
  "represents q (x # xs) \<Longrightarrow> buffer_load (wbuf q) (front q) q = Some (Some x)"
  using represents_load [of q "x # xs" 0] by simp

lemma represents_nonempty: "represents q (x # xs) \<Longrightarrow> 0 < sint (back_index q - front q)"
  using representsD(11) [of q "x # xs"] by simp

lemma steal_loop_quiet:
  assumes "represents src (ts @ xs)" "represents dest ys" "length ys + (i + length ts) \<le> unat (cap (wbuf dest))"
  shows "\<exists>dest'. steal_loop quiet (wbuf src) (wbuf dest) i (length ts) (front src) (back_index dest + of_nat i) src dest
       = Some (i + length ts, back_index dest + of_nat (i + length ts), src\<lparr>front := front src + of_nat (length ts)\<rparr>, dest')
     \<and> mem_only dest dest' \<and> represents dest' ys
     \<and> area dest' (i + length ts) = take i (area dest (i + length ts)) @ map Some ts"
  using assms
proof (induction ts arbitrary: i src dest)
  case Nil
  then show ?case by (simp add: mem_only_refl)
next
  case (Cons t ts)
  have r: "represents src (t # ts @ xs)" using Cons.prems(1) by simp
  obtain dest1 where d: "buffer_write (wbuf dest) (back_index dest + of_nat i) t dest = Some dest1" "mem_only dest dest1"
    "represents dest1 ys" "take (Suc i) (area dest1 (Suc (i + length ts))) = take i (area dest (Suc (i + length ts))) @ [Some t]"
    using area_append [OF Cons.prems(2), of i "length ts" t] Cons.prems(3) by auto
  note m = mem_onlyD [OF d(2)]
  have "length ys + (Suc i + length ts) \<le> unat (cap (wbuf dest1))" using Cons.prems(3) by (simp add: m)
  from Cons.IH [OF represents_advance [OF r] d(3) this] show ?case
    using d represents_load_hd [OF r] represents_nonempty [OF r] representsD(3) [OF r] mem_only_trans [OF d(2)]
    by (auto simp: quiet_def m Let_def algebra_simps)
qed

lemma steal_pop_loop_quiet:
  assumes "represents src (ts @ xs)" "represents dest ys" "length ys + (i + length ts) \<le> unat (cap (wbuf dest))"
  shows "\<exists>dest'. steal_pop_loop quiet (wbuf src) (wbuf dest) i (length ts) (front src) (back_index dest + of_nat i) t0 src dest
       = Some (i + length ts, back_index dest + of_nat (i + length ts), last (t0 # ts), src\<lparr>front := front src + of_nat (length ts)\<rparr>, dest')
     \<and> mem_only dest dest' \<and> represents dest' ys
     \<and> area dest' (i + length ts) = take i (area dest (i + length ts)) @ map Some (butlast (t0 # ts))"
  using assms
proof (induction ts arbitrary: i src dest t0)
  case Nil
  then show ?case by (simp add: mem_only_refl)
next
  case (Cons t ts)
  have r: "represents src (t # ts @ xs)" using Cons.prems(1) by simp
  obtain dest1 where d: "buffer_write (wbuf dest) (back_index dest + of_nat i) t0 dest = Some dest1" "mem_only dest dest1"
    "represents dest1 ys" "take (Suc i) (area dest1 (Suc (i + length ts))) = take i (area dest (Suc (i + length ts))) @ [Some t0]"
    using area_append [OF Cons.prems(2), of i "length ts" t0] Cons.prems(3) by auto
  note m = mem_onlyD [OF d(2)]
  have "length ys + (Suc i + length ts) \<le> unat (cap (wbuf dest1))" using Cons.prems(3) by (simp add: m)
  from Cons.IH [OF represents_advance [OF r] d(3) this, of t] show ?case
    using d represents_load_hd [OF r] represents_nonempty [OF r] representsD(3) [OF r] mem_only_trans [OF d(2)]
    by (auto simp: quiet_def m Let_def algebra_simps)
qed

section \<open>A batch that meets no other thread\<close>

text \<open>How many tasks a batch moves from a queue of \<open>k\<close> tasks: half of them, within the limit.\<close>

definition batch_count :: "nat \<Rightarrow> nat" where
  "batch_count k = min ((k + 1) div 2) 32"

definition batch_pop_count :: "nat \<Rightarrow> nat" where
  "batch_pop_count k = min ((k - 1) div 2) 31"

lemma unat_min: "unat (min a b :: 'b :: len word) = min (unat a) (unat b)"
  by (simp add: min_def word_le_nat_alt)

lemma unat_batch_size:
  assumes "represents q xs"
  shows "unat (min ((back_index q - front q + 1) div 2) MAX_BATCH) = batch_count (length xs)"
proof -
  have "unat (back_index q - front q + 1) = length xs + 1"
    using representsD(8,10) [OF assms] unat_of_nat_small [of "length xs + 1"] by (simp add: add.commute)
  then show ?thesis by (simp add: unat_min unat_div MAX_BATCH_def batch_count_def)
qed

lemma unat_batch_pop_size:
  assumes "represents q xs" "xs \<noteq> []"
  shows "unat (min ((back_index q - front q - 1) div 2) (MAX_BATCH - 1)) = batch_pop_count (length xs)"
proof -
  obtain k where k: "length xs = Suc k" using assms(2) by (cases xs) auto
  then have "unat (back_index q - front q - 1) = k"
    using representsD(8,10) [OF assms(1)] unat_of_nat_small [of k] by simp
  then show ?thesis by (simp add: unat_min unat_div MAX_BATCH_def batch_pop_count_def k)
qed

lemma batch_count_le: "batch_count k \<le> k" "batch_count k \<le> 32" "0 < k \<Longrightarrow> 0 < batch_count k"
  by (auto simp: batch_count_def)

lemma batch_pop_count_less: "0 < k \<Longrightarrow> batch_pop_count k < k" "batch_pop_count k \<le> 31"
  by (auto simp: batch_pop_count_def)

lemma stealer_steal_quiet:
  assumes "represents q xs"
  shows "stealer_steal quiet q = (case xs of [] \<Rightarrow> Some (Empty, q) | x # _ \<Rightarrow> Some (Success x, q\<lparr>front := front q + 1\<rparr>))"
proof (cases xs)
  case Nil
  then show ?thesis using representsD(11) [OF assms] by (simp add: stealer_steal_def quiet_def)
next
  case (Cons x ys)
  note r = assms [unfolded Cons]
  show ?thesis using represents_load_hd [OF r] represents_nonempty [OF r] representsD(3) [OF r] Cons
    by (simp add: stealer_steal_def quiet_def Let_def)
qed

lemma worker_reserve_quiet:
  assumes "represents q xs" "length xs + unat k \<le> 2 ^ 62"
  obtains q' where "worker_reserve quiet k q = Some q'" "represents q' xs"
    "length xs + unat k \<le> unat (cap (wbuf q'))" "flavor q' = flavor q"
  by (rule worker_reserve_represents [where ks = "\<lambda>_. 0", OF assms]) (auto simp: quiet_take grown_def intro: that cong: if_cong)

text \<open>The end of a batch from a LIFO source: a FIFO destination has the batch reversed.\<close>

lemma reverse_for_fifo:
  assumes "represents d ys" "length ys + length ts \<le> unat (cap (wbuf d))" "area d (length ts) = map Some ts"
  obtains d' where "(if flavor d = Fifo then reverse_batch (wbuf d) (back_index d + of_nat (length ts)) (length ts) d else Some d) = Some d'"
    "mem_only d d'" "represents d' ys" "area d' (length ts) = map Some (arranged Lifo (flavor d) ts)"
proof (cases "flavor d")
  case Fifo
  then show ?thesis using reverse_batch_area [OF assms(1,2)] that assms(3) by (auto simp: arranged_def rev_map)
next
  case Lifo
  then show ?thesis using assms that [of d] by (simp add: arranged_def mem_only_refl)
qed

lemma steal_batch_body_quiet:
  assumes r: "represents src xs" and d: "represents dest ys" and x: "xs \<noteq> []" and room: "length ys + 32 \<le> 2 ^ 62"
  defines "n \<equiv> batch_count (length xs)"
  shows "\<exists>dest'. steal_batch_body fl quiet quiet src dest = Some (Success (), src\<lparr>front := front src + of_nat n\<rparr>, dest')
    \<and> represents dest' (ys @ arranged fl (flavor dest) (take n xs)) \<and> flavor dest' = flavor dest"
proof -
  let ?k = "min ((back_index src - front src + 1) div 2) MAX_BATCH" and ?ts = "take n xs"
  have k: "unat ?k = n" unfolding n_def by (rule unat_batch_size [OF r])
  have kw: "?k = of_nat n" and un: "unat (of_nat n :: usize) = n" unfolding k [symmetric] by simp_all
  have len: "length ?ts = n" and n0: "0 < n" using batch_count_le [of "length xs"] x by (simp_all add: n_def)
  have "length ys + unat ?k \<le> 2 ^ 62" using room batch_count_le(2) [of "length xs"] unfolding k n_def by simp
  then obtain d1 where d1: "worker_reserve quiet ?k dest = Some d1" "represents d1 ys"
    "length ys + unat ?k \<le> unat (cap (wbuf d1))" "flavor d1 = flavor dest" by (rule worker_reserve_quiet [OF d])
  have fit: "length ys + length ?ts \<le> unat (cap (wbuf d1))" using d1(3) unfolding k len .
  have ne: "0 < sint (back_index src - front src)" using representsD(11) [OF r] x by simp
  have commit: "represents (d2\<lparr>back_index := back_index d2 + of_nat n\<rparr>) (ys @ zs)"
    if "represents d2 ys" "mem_only d1 d2" "area d2 n = map Some zs" "length zs = n" for d2 zs
    using area_commit [OF that(1), of zs] that(3,4) fit mem_onlyD(4) [OF that(2)] len by simp
  show ?thesis
  proof (cases fl)
    case Fifo
    have ld: "buffer_load (ibuf src) (front src + of_nat i) src = Some (Some (?ts ! i))" if "i < length ?ts" for i
      using represents_load [OF r, of i] that representsD(3) [OF r] by simp
    obtain d2 where d2: "copy_batch (ibuf src) (front src) (wbuf d1) (back_index d1) n src d1 = Some d2" "mem_only d1 d2"
      "represents d2 ys" "area d2 n = map Some (arranged Fifo (flavor d1) ?ts)"
      using copy_batch_area [OF d1(2) fit ld] unfolding len by blast
    show ?thesis using d1(1,4) d2 Fifo ne commit [OF d2(3,2,4)] mem_onlyD [OF d2(2)] len
      by (simp add: steal_batch_body_def Let_def kw un)
  next
    case Lifo
    have r': "represents src (?ts @ drop n xs)" using r by simp
    have fit0: "length ys + (0 + length ?ts) \<le> unat (cap (wbuf d1))" using fit by simp
    obtain d2 where d2: "steal_loop quiet (wbuf src) (wbuf d1) 0 n (front src) (back_index d1) src d1
        = Some (n, back_index d1 + of_nat n, src\<lparr>front := front src + of_nat n\<rparr>, d2)"
      "mem_only d1 d2" "represents d2 ys" "area d2 n = map Some ?ts"
      using steal_loop_quiet [OF r' d1(2) fit0] len by auto
    note m = mem_onlyD [OF d2(2)]
    have fit2: "length ys + length ?ts \<le> unat (cap (wbuf d2))" "area d2 (length ?ts) = map Some ?ts"
      using fit d2(4) len by (simp_all add: m)
    obtain d3 where d3: "(if flavor d1 = Fifo then reverse_batch (wbuf d1) (back_index d1 + of_nat n) n d2 else Some d2) = Some d3"
      "mem_only d2 d3" "represents d3 ys" "area d3 n = map Some (arranged Lifo (flavor d1) ?ts)"
      using reverse_for_fifo [OF d2(3) fit2] unfolding len m by blast
    have "represents (d3\<lparr>back_index := back_index d1 + of_nat n\<rparr>) (ys @ arranged Lifo (flavor d1) ?ts)"
      using commit [OF d3(3) mem_only_trans [OF d2(2) d3(2)] d3(4)] len by (simp add: m mem_onlyD [OF d3(2)])
    then show ?thesis using d1(1,4) d2(1) d3(1) Lifo ne n0 representsD(3) [OF r]
      by (simp add: steal_batch_body_def Let_def kw un m mem_onlyD [OF d3(2)])
  qed
qed

lemma steal_batch_and_pop_body_quiet:
  assumes r: "represents src xs" and d: "represents dest ys" and x: "xs \<noteq> []" and room: "length ys + 31 \<le> 2 ^ 62"
  defines "n \<equiv> batch_pop_count (length xs)"
  shows "\<exists>dest'. steal_batch_and_pop_body fl quiet quiet src dest
      = Some (Success (case fl of Fifo \<Rightarrow> hd xs | Lifo \<Rightarrow> xs ! n), src\<lparr>front := front src + of_nat (Suc n)\<rparr>, dest')
    \<and> represents dest' (ys @ arranged fl (flavor dest) (case fl of Fifo \<Rightarrow> take n (tl xs) | Lifo \<Rightarrow> take n xs))
    \<and> flavor dest' = flavor dest"
proof -
  let ?k = "min ((back_index src - front src - 1) div 2) (MAX_BATCH - 1)"
  have k: "unat ?k = n" unfolding n_def by (rule unat_batch_pop_size [OF r x])
  have kw: "?k = of_nat n" and un: "unat (of_nat n :: usize) = n" unfolding k [symmetric] by simp_all
  obtain t ts where xs: "xs = t # ts" using x by (cases xs) auto
  have nl: "n \<le> length ts" using batch_pop_count_less [of "length xs"] xs by (simp add: n_def)
  have "length ys + unat ?k \<le> 2 ^ 62" using room batch_pop_count_less(2) [of "length xs"] unfolding k n_def by simp
  then obtain d1 where d1: "worker_reserve quiet ?k dest = Some d1" "represents d1 ys"
    "length ys + unat ?k \<le> unat (cap (wbuf d1))" "flavor d1 = flavor dest" by (rule worker_reserve_quiet [OF d])
  have fit: "length ys + n \<le> unat (cap (wbuf d1))" using d1(3) unfolding k .
  note r' = r [unfolded xs]
  note facts = d1(1,4) represents_nonempty [OF r'] represents_load_hd [OF r'] representsD(3) [OF r]
  have commit: "represents (d2\<lparr>back_index := back_index d2 + of_nat n\<rparr>) (ys @ zs)"
    if "represents d2 ys" "mem_only d1 d2" "area d2 n = map Some zs" "length zs = n" for d2 zs
    using area_commit [OF that(1), of zs] that(3,4) fit mem_onlyD(4) [OF that(2)] by simp
  show ?thesis
  proof (cases fl)
    case Fifo
    have ld: "buffer_load (wbuf src) (front src + 1 + of_nat i) src = Some (Some (take n ts ! i))" if "i < length (take n ts)" for i
      using represents_load [OF r, of "Suc i"] that xs by (simp add: add.assoc)
    have "length ys + length (take n ts) \<le> unat (cap (wbuf d1))" using fit nl by simp
    from copy_batch_area [OF d1(2) this ld] obtain d2 where
      d2: "copy_batch (wbuf src) (front src + 1) (wbuf d1) (back_index d1) n src d1 = Some d2" "mem_only d1 d2"
        "represents d2 ys" "area d2 n = map Some (arranged Fifo (flavor d1) (take n ts))"
      using nl by auto
    show ?thesis using facts d2(1) Fifo commit [OF d2(3,2,4)] mem_onlyD [OF d2(2)] nl
      by (simp add: steal_batch_and_pop_body_def Let_def kw un xs add.commute)
  next
    case Lifo
    have r1: "represents (src\<lparr>front := front src + 1\<rparr>) (take n ts @ drop n ts)" using represents_advance [OF r'] by simp
    have tn: "length (take n ts) = n" using nl by simp
    have fit0: "length ys + (0 + length (take n ts)) \<le> unat (cap (wbuf d1))" using fit tn by simp
    have lst: "last (t # take n ts) = xs ! n" "butlast (t # take n ts) = take n xs"
      using nl xs by (cases n; simp add: last_conv_nth min_def butlast_take take_Suc_conv_app_nth butlast_append)+
    obtain d2 where d2: "steal_pop_loop quiet (wbuf src) (wbuf d1) 0 n (front src + 1) (back_index d1) t (src\<lparr>front := front src + 1\<rparr>) d1
        = Some (n, back_index d1 + of_nat n, xs ! n, src\<lparr>front := front src + 1 + of_nat n\<rparr>, d2)"
      "mem_only d1 d2" "represents d2 ys" "area d2 n = map Some (take n xs)"
      using steal_pop_loop_quiet [OF r1 d1(2) fit0, of t] unfolding lst tn by auto
    note m = mem_onlyD [OF d2(2)]
    have xn: "length (take n xs) = n" using nl xs by simp
    have fit2: "length ys + length (take n xs) \<le> unat (cap (wbuf d2))" "area d2 (length (take n xs)) = map Some (take n xs)"
      using fit d2(4) xn by (simp_all add: m)
    obtain d3 where d3: "(if flavor d1 = Fifo then reverse_batch (wbuf d1) (back_index d1 + of_nat n) n d2 else Some d2) = Some d3"
      "mem_only d2 d3" "represents d3 ys" "area d3 n = map Some (arranged Lifo (flavor d1) (take n xs))"
      using reverse_for_fifo [OF d2(3) fit2] unfolding xn m by blast
    have "represents (d3\<lparr>back_index := back_index d1 + of_nat n\<rparr>) (ys @ arranged Lifo (flavor d1) (take n xs))"
      using commit [OF d3(3) mem_only_trans [OF d2(2) d3(2)] d3(4)] xn by (simp add: m mem_onlyD [OF d3(2)])
    then show ?thesis using facts d2(1) d3(1) Lifo
      by (simp add: steal_batch_and_pop_body_def Let_def kw un m mem_onlyD [OF d3(2)] add.assoc)
  qed
qed

interpretation stealer_source: steal_source "stealer_steal quiet" tasks wf_worker
proof
  fix q :: "'a worker" and x xs
  assume q: "wf_worker q"
  then have r: "represents q (tasks q)" by (simp add: represents_iff)
  show "\<exists>q'. stealer_steal quiet q = Some (Success x, q') \<and> wf_worker q' \<and> tasks q' = xs" if "tasks q = x # xs"
    using stealer_steal_quiet [OF r] represents_advance [of q x xs] r that by (simp add: represents_iff)
  show "\<exists>q'. stealer_steal quiet q = Some (Empty, q') \<and> wf_worker q' \<and> tasks q' = []" if "tasks q = []"
    using stealer_steal_quiet [OF r] that q by simp
qed


section \<open>Properties\<close>

text \<open>The order in which a queue hands a run of its tasks to its owner.\<close>

fun pop_order :: "flavor \<Rightarrow> 'a list \<Rightarrow> 'a list" where
  "pop_order Fifo ts = ts"
| "pop_order Lifo ts = rev ts"

lemma pop_order_arranged: "pop_order g (arranged f g ts) = pop_order f ts"
  by (cases f; cases g) (simp_all add: arranged_def)

text \<open>
  \<open>Stealer::steal\<close>, meeting no other thread, takes the oldest task from a queue of either
  flavor: stealing once more than there are tasks gives every task, oldest first, and then finds
  the queue empty.
\<close>

lemma stealer_steal_all:
  assumes "represents q xs"
  shows "\<exists>q'. pop_n (steal_once (stealer_steal quiet)) (Suc (length xs)) q = Some (xs, q') \<and> represents q' []"
  using stealer_source.steal_all [of q] assms by (auto simp: represents_iff)

text \<open>
  C7: \<open>Stealer::steal_batch\<close> between two different queues of any flavors, meeting no other
  thread, moves half of the tasks (rounded up, at most 32), the oldest ones, behind the tasks of
  the destination, whose owner will pop them in the order in which the source's owner would have.
\<close>

theorem steal_batch_moves:
  assumes "inner self \<noteq> d" "represents (store (inner self)) xs" "represents (store d) ys" "xs \<noteq> []" "length ys + 32 \<le> 2 ^ 62"
  shows "\<exists>store' moved. stealer_steal_batch self quiet quiet d store = Some (Success (), store')
    \<and> represents (store' (inner self)) (drop (min ((length xs + 1) div 2) 32) xs)
    \<and> represents (store' d) (ys @ moved)
    \<and> pop_order (flavor (store d)) moved = pop_order (sflavor self) (take (min ((length xs + 1) div 2) 32) xs)
    \<and> (\<forall>i. i \<noteq> inner self \<longrightarrow> i \<noteq> d \<longrightarrow> store' i = store i)"
proof -
  let ?n = "batch_count (length xs)"
  obtain dest' where d: "steal_batch_body (sflavor self) quiet quiet (store (inner self)) (store d)
      = Some (Success (), (store (inner self))\<lparr>front := front (store (inner self)) + of_nat ?n\<rparr>, dest')"
    "represents dest' (ys @ arranged (sflavor self) (flavor (store d)) (take ?n xs))"
    using steal_batch_body_quiet [OF assms(2-5)] by blast
  have s: "represents ((store (inner self))\<lparr>front := front (store (inner self)) + of_nat ?n\<rparr>) (drop ?n xs)"
    using represents_drop [OF assms(2) batch_count_le(1)] .
  show ?thesis
    unfolding batch_count_def [symmetric] using d s assms(1)
    by (auto simp: stealer_steal_batch_def pop_order_arranged
        intro!: exI [of _ "arranged (sflavor self) (flavor (store d)) (take ?n xs)"])
qed

theorem steal_batch_moves_witness:
  "\<exists>store :: nat \<Rightarrow> nat worker. represents (store 0) [5, 6, 7] \<and> represents (store 1) [9] \<and>
    (\<exists>store'. stealer_steal_batch \<lparr>inner = 0, sflavor = Lifo\<rparr> quiet quiet 1 store = Some (Success (), store')
      \<and> represents (store' 0) [7] \<and> represents (store' 1) [9, 6, 5])"
proof -
  obtain q0 :: "nat worker" where q0: "represents q0 [5, 6, 7]" using some_queue by blast
  obtain q1 :: "nat worker" where q1: "represents q1 [9]" "flavor q1 = Fifo" using queue_exists [of "[9]" Fifo] by auto
  let ?store = "\<lambda>i :: nat. if i = 0 then q0 else q1"
  have n: "min ((length [5 :: nat, 6, 7] + 1) div 2) 32 = 2" by simp
  show ?thesis
    using steal_batch_moves [of "\<lparr>inner = 0, sflavor = Lifo\<rparr>" 1 ?store "[5, 6, 7]" "[9]"] q0 q1 unfolding n
    by (intro exI [of _ ?store]) auto
qed

text \<open>
  C8: \<open>Stealer::steal_batch_and_pop\<close> between two different queues, meeting no other thread,
  takes the oldest tasks as \<open>steal_batch\<close> does (at most 32 with the returned one); the
  returned task followed by what was moved is the order in which the source's owner would have
  popped them.
\<close>

theorem steal_batch_and_pop_moves:
  assumes "inner self \<noteq> d" "represents (store (inner self)) xs" "represents (store d) ys" "xs \<noteq> []" "length ys + 31 \<le> 2 ^ 62"
  shows "\<exists>t store' moved. stealer_steal_batch_and_pop self quiet quiet d store = Some (Success t, store')
    \<and> represents (store' (inner self)) (drop (Suc (min ((length xs - 1) div 2) 31)) xs)
    \<and> represents (store' d) (ys @ moved)
    \<and> t # pop_order (flavor (store d)) moved = pop_order (sflavor self) (take (Suc (min ((length xs - 1) div 2) 31)) xs)
    \<and> (\<forall>i. i \<noteq> inner self \<longrightarrow> i \<noteq> d \<longrightarrow> store' i = store i)"
proof -
  let ?n = "batch_pop_count (length xs)" and ?fl = "sflavor self"
  let ?t = "case ?fl of Fifo \<Rightarrow> hd xs | Lifo \<Rightarrow> xs ! ?n" and ?ts = "case ?fl of Fifo \<Rightarrow> take ?n (tl xs) | Lifo \<Rightarrow> take ?n xs"
  let ?src = "(store (inner self))\<lparr>front := front (store (inner self)) + of_nat (Suc ?n)\<rparr>"
  obtain dest' where d: "steal_batch_and_pop_body ?fl quiet quiet (store (inner self)) (store d) = Some (Success ?t, ?src, dest')"
    "represents dest' (ys @ arranged ?fl (flavor (store d)) ?ts)"
    using steal_batch_and_pop_body_quiet [OF assms(2-5)] by blast
  have n: "Suc ?n \<le> length xs" using batch_pop_count_less(1) [of "length xs"] assms(4) by simp
  have s: "represents ?src (drop (Suc ?n) xs)" using represents_drop [OF assms(2) n] .
  have order: "?t # pop_order ?fl ?ts = pop_order ?fl (take (Suc ?n) xs)"
  proof (cases ?fl)
    case Fifo
    then show ?thesis using assms(4) by (cases xs) simp_all
  next
    case Lifo
    then show ?thesis using n by (simp add: take_Suc_conv_app_nth)
  qed
  show ?thesis
    unfolding batch_pop_count_def [symmetric] using d s assms(1) order
    by (auto simp: stealer_steal_batch_and_pop_def pop_order_arranged
        intro!: exI [of _ "arranged ?fl (flavor (store d)) ?ts"])
qed

theorem steal_batch_and_pop_moves_witness:
  "\<exists>store :: nat \<Rightarrow> nat worker. represents (store 0) [5, 6, 7] \<and> represents (store 1) [9] \<and>
    (\<exists>store'. stealer_steal_batch_and_pop \<lparr>inner = 0, sflavor = Fifo\<rparr> quiet quiet 1 store = Some (Success 5, store')
      \<and> represents (store' 0) [7] \<and> represents (store' 1) [9, 6])"
proof -
  obtain q0 :: "nat worker" where q0: "represents q0 [5, 6, 7]" using some_queue by blast
  obtain q1 :: "nat worker" where q1: "represents q1 [9]" "flavor q1 = Fifo" using queue_exists [of "[9]" Fifo] by auto
  let ?store = "\<lambda>i :: nat. if i = 0 then q0 else q1"
  have n: "Suc (min ((length [5 :: nat, 6, 7] - 1) div 2) 31) = 2" by simp
  show ?thesis
    using steal_batch_and_pop_moves [of "\<lparr>inner = 0, sflavor = Fifo\<rparr>" 1 ?store "[5, 6, 7]" "[9]"] q0 q1 unfolding n
    by (intro exI [of _ ?store]) auto
qed

text \<open>
  Stealing a batch from a queue into itself changes no queue: it only reports whether there
  is something, and an empty source of any flavor makes a batch between two queues report \<open>Empty\<close>.
\<close>

lemma steal_batch_trivial:
  assumes "represents (store (inner self)) xs" "inner self = d \<or> xs = []"
  shows "stealer_steal_batch self quiet quiet d store = Some (if xs = [] then Empty else Success (), store)"
  using worker_is_empty_represents [OF assms(1)] representsD(11) [OF assms(1)] assms(2)
  by (auto simp: stealer_steal_batch_def steal_batch_body_def)

end
