(* ===== verification/Steal_Interleaving.thy ===== *)
theory Steal_Interleaving
  imports Stealer_Ops
begin

text \<open>
  A steal in the middle of other operations. The thief's five accesses to the shared queue may
  have any number of whole pushes, pops and steals of other threads between them; the result is
  as if the steal had happened at once, at its \<open>compare_exchange\<close>.
\<close>

section \<open>A steal among other operations\<close>

text \<open>
  What the owner and the other thieves may do at a gap of a steal: any number of whole
  operations, one after the other.
\<close>

inductive other_op :: "'a worker \<Rightarrow> 'a worker \<Rightarrow> bool" where
  other_push: "\<lbrakk>length (tasks q) < 2 ^ 62; worker_push quiet x q = Some q'\<rbrakk> \<Longrightarrow> other_op q q'"
| other_pop: "worker_pop quiet q = Some (r, q') \<Longrightarrow> other_op q q'"
| other_steal: "stealer_steal quiet q = Some (r, q') \<Longrightarrow> other_op q q'"

text \<open>Fewer than \<open>2 ^ 61\<close> operations at one gap: the 64-bit indices do not come round during one steal.\<close>

definition interleaved :: "'a env \<Rightarrow> bool" where
  "interleaved env \<longleftrightarrow> (\<forall>k q. \<exists>n < 2 ^ 61. (other_op ^^ n) q (env k q))"

text \<open>Buffers stay allocated, and a buffer that replaces the current one is a new one.\<close>

definition heap_kept :: "'a heap \<Rightarrow> 'a heap \<Rightarrow> bool" where
  "heap_kept h h' \<longleftrightarrow> (\<forall>p cs. h p = Some cs \<longrightarrow> (\<exists>cs'. h' p = Some cs' \<and> length cs' = length cs))"

definition mem_later :: "'a worker \<Rightarrow> 'a worker \<Rightarrow> bool" where
  "mem_later q q' \<longleftrightarrow> heap_kept (heap q) (heap q')
     \<and> next_ptr q \<le> next_ptr q' \<and> (ibuf q' = ibuf q \<or> next_ptr q \<le> ptr (ibuf q'))"

lemma heap_kept_refl [simp]: "heap_kept h h"
  by (simp add: heap_kept_def)

lemma heap_kept_trans: "heap_kept a b \<Longrightarrow> heap_kept b c \<Longrightarrow> heap_kept a c"
  by (fastforce simp: heap_kept_def)

lemma mem_later_refl [simp]: "mem_later q q"
  by (simp add: mem_later_def)

lemma mem_later_trans: "mem_later a b \<Longrightarrow> mem_later b c \<Longrightarrow> mem_later a c"
  unfolding mem_later_def by (auto intro: heap_kept_trans)

lemma mem_later_indices [simp]:
  "mem_later q (q'\<lparr>front := f\<rparr>) = mem_later q q'" "mem_later (q\<lparr>front := f\<rparr>) q' = mem_later q q'"
  "mem_later q (q'\<lparr>back_index := b\<rparr>) = mem_later q q'" "mem_later (q\<lparr>back_index := b\<rparr>) q' = mem_later q q'"
  by (simp_all add: mem_later_def)

lemma buffer_write_later: "buffer_write buf i t q = Some q' \<Longrightarrow> mem_later q q' \<and> mem_only q q'"
  by (auto simp: buffer_write_def buffer_store_def mem_later_def mem_only_def heap_kept_def split: bind_splits if_splits)

lemma copy_loop_kept:
  "copy_loop old new i b m = Some m' \<Longrightarrow> heap_kept (heap m) (heap m') \<and> m' = m\<lparr>heap := heap m'\<rparr>"
proof (induction old new i b m rule: copy_loop.induct)
  case (1 old new i b m)
  show ?case
  proof (cases "i = b")
    case True
    with 1(2) show ?thesis by (simp add: copy_loop.simps)
  next
    case False
    with 1(2) obtain m1 where m1: "buffer_copy old new i m = Some m1" "copy_loop old new (i + 1) b m1 = Some m'"
      by (auto simp: copy_loop.simps [of old new i] split: bind_splits)
    have c: "heap_kept (heap m) (heap m1)" "m1 = m\<lparr>heap := heap m1\<rparr>"
      using m1(1) by (auto simp: buffer_copy_def heap_kept_def split: bind_splits if_splits)
    have a: "heap_kept (heap m1) (heap m')" "m' = m1\<lparr>heap := heap m'\<rparr>"
      using 1(1) [OF False m1(1) m1(2)] by auto
    have "m' = m\<lparr>heap := heap m'\<rparr>" by (subst a(2), subst c(2)) simp
    then show ?thesis using heap_kept_trans [OF c(1) a(1)] by blast
  qed
qed

lemma resize_later:
  assumes s: "shape q" and r: "resize quiet c q = Some q'"
  shows "front q' = front q" "mem_later q q'"
proof -
  obtain new q2 where a: "buffer_alloc c q = (new, q2)" by fastforce
  obtain q3 where q3: "copy_loop (wbuf q) new (front q) (back_index q) q2 = Some q3"
    and q': "heap q' = heap q3" "next_ptr q' = next_ptr q3" "front q' = front q3" "ibuf q' = new"
    using r a by (auto simp: resize_def Let_def split: bind_splits if_splits)
  note k = copy_loop_kept [OF q3]
  have q2: "q2 = q\<lparr>heap := (heap q)(next_ptr q \<mapsto> replicate (unat c) None), next_ptr := Suc (next_ptr q)\<rparr>"
    "new = \<lparr>ptr = next_ptr q, cap = c\<rparr>" using a by (simp_all add: buffer_alloc_def)
  have "heap q (next_ptr q) = None" using s by (simp add: shape_def)
  then have h: "heap_kept (heap q) (heap q2)" by (auto simp: q2(1) heap_kept_def)
  have f: "front q3 = front q2" "next_ptr q3 = next_ptr q2" by (subst conjunct2 [OF k], simp)+
  show "front q' = front q" using f q'(3) by (simp add: q2(1))
  show "mem_later q q'" using heap_kept_trans [OF h conjunct1 [OF k]] f(2) q' q2
    by (simp add: mem_later_def)
qed

text \<open>
  From a queue with tasks \<open>xs\<close> to one with tasks \<open>ys\<close>: \<open>front\<close> has moved \<open>m\<close> places, and as long
  as it has not moved the oldest task is still the same.
\<close>

definition passed :: "nat \<Rightarrow> 'a worker \<Rightarrow> 'a list \<Rightarrow> 'a worker \<Rightarrow> 'a list \<Rightarrow> bool" where
  "passed m q xs q' ys \<longleftrightarrow> represents q' ys \<and> front q' = front q + of_nat m \<and> mem_later q q'
     \<and> (m = 0 \<and> xs \<noteq> [] \<longrightarrow> ys \<noteq> [] \<and> hd ys = hd xs)"

lemma passed_trans: "passed m a xs b ys \<Longrightarrow> passed n b ys c zs \<Longrightarrow> passed (m + n) a xs c zs"
  by (auto simp: passed_def add.assoc intro: mem_later_trans)

lemma passed_push:
  assumes r: "represents q xs" and p: "length xs < 2 ^ 62" "worker_push quiet x q = Some q'"
  shows "passed 0 q xs q' (xs @ [x])"
proof -
  have "represents q' (xs @ [x])" using worker_push_quiet [OF r p(1), of x] p(2) by auto
  moreover have "front q' = front q \<and> mem_later q q'"
  proof -
    let ?full = "sint (cap (wbuf q)) \<le> sint (back_index q - front q)"
    obtain q1 q2 where q1: "(if ?full then resize quiet (2 * cap (wbuf q)) q else Some q) = Some q1"
      and q2: "buffer_write (wbuf q1) (back_index q) x q1 = Some q2" and q': "q' = q2\<lparr>back_index := back_index q + 1\<rparr>"
      using p(2) by (auto simp: worker_push_def Let_def split: bind_splits if_splits)
    have "front q1 = front q \<and> mem_later q q1"
      using q1 resize_later [OF representsD(1) [OF r]] by (auto split: if_splits)
    with buffer_write_later [OF q2] show ?thesis
      unfolding q' using mem_onlyD(1) [of q1 q2] by (auto intro: mem_later_trans)
  qed
  ultimately show ?thesis by (simp add: passed_def)
qed

lemma shape_later:
  assumes "shape q" "(if shrink then resize quiet c (q\<lparr>front := f, back_index := b\<rparr>) else Some (q\<lparr>front := f, back_index := b\<rparr>)) = Some q'"
  shows "front q' = f" "mem_later q q'"
  using assms(2) resize_later [OF shape_front_back [where f = f and b = b, OF assms(1)], of c q'] by (auto split: if_splits)

lemma passed_pop_fifo:
  assumes r: "represents q xs" and fl: "flavor q = Fifo" and p: "worker_pop quiet q = Some (res, q')"
  shows "\<exists>m \<le> 1. passed m q xs q' (tl xs)"
proof (cases xs)
  case Nil
  then have "q' = q" using p representsD(11) [OF r] by (simp add: worker_pop_def Let_def)
  then show ?thesis using r Nil by (intro exI [of _ 0]) (simp add: passed_def)
next
  case (Cons y ys)
  have "represents q' (tl xs)" using worker_pop_quiet_fifo [OF r fl] p by auto
  moreover have "front q' = front q + 1 \<and> mem_later q q'"
  proof -
    let ?l = "back_index q - front q"
    let ?shrink = "MIN_CAP < cap (wbuf q) \<and> sint ?l \<le> sint (cap (wbuf q)) sdiv 4"
    note d = represents_nonempty [OF r [unfolded Cons]] representsD(11) [OF represents_advance [OF r [unfolded Cons]]]
    have "(if ?shrink then resize quiet (cap (wbuf q) div 2) (q\<lparr>front := front q + 1, back_index := back_index q\<rparr>)
        else Some (q\<lparr>front := front q + 1, back_index := back_index q\<rparr>)) = Some q'"
      using p fl d by (auto simp: worker_pop_def worker_pop_fifo_def Let_def split: bind_splits if_splits)
    from shape_later [OF representsD(1) [OF r] this] show ?thesis by blast
  qed
  ultimately show ?thesis by (intro exI [of _ 1]) (simp add: passed_def)
qed

lemma passed_pop_lifo:
  assumes r: "represents q xs" and fl: "flavor q = Lifo" and p: "worker_pop quiet q = Some (res, q')"
  shows "\<exists>m \<le> 1. passed m q xs q' (butlast xs)"
proof (cases xs rule: rev_cases)
  case Nil
  then have "q' = q" using p representsD(11) [OF r] by (simp add: worker_pop_def Let_def)
  then show ?thesis using r Nil by (intro exI [of _ 0]) (simp add: passed_def)
next
  case (snoc ys y)
  have r': "represents q' (butlast xs)" using worker_pop_quiet_lifo [OF r fl] p by auto
  have d: "0 < sint (back_index q - front q)" using representsD(11) [OF r] snoc by simp
  let ?l = "back_index q - 1 - front q"
  have l: "sint ?l = int (length ys)" "?l = 0 \<longleftrightarrow> ys = []"
    using representsD(5,11) [OF represents_butlast [OF r [unfolded snoc]]] by (auto simp: unat_eq_zero)
  show ?thesis
  proof (cases "ys = []")
    case True
    then have "front q' = front q + 1 \<and> mem_later q q'"
      using p fl d l by (auto simp: worker_pop_def worker_pop_lifo_def Let_def split: bind_splits if_splits)
    with r' show ?thesis by (intro exI [of _ 1]) (simp add: passed_def)
  next
    case False
    let ?shrink = "MIN_CAP < cap (wbuf q) \<and> sint ?l < sint (cap (wbuf q)) sdiv 4"
    have "(if ?shrink then resize quiet (cap (wbuf q) div 2) (q\<lparr>front := front q, back_index := back_index q - 1\<rparr>)
        else Some (q\<lparr>front := front q, back_index := back_index q - 1\<rparr>)) = Some q'"
      using p fl d l False by (auto simp: worker_pop_def worker_pop_lifo_def Let_def split: bind_splits if_splits)
    from shape_later [OF representsD(1) [OF r] this] show ?thesis
      using r' snoc False by (intro exI [of _ 0]) (simp add: passed_def)
  qed
qed

lemma passed_steal:
  assumes r: "represents q xs" and p: "stealer_steal quiet q = Some (res, q')"
  shows "\<exists>m \<le> 1. passed m q xs q' (tl xs)"
proof (cases xs)
  case Nil
  then show ?thesis using r p stealer_steal_quiet [OF r] by (intro exI [of _ 0]) (simp add: passed_def)
next
  case (Cons y ys)
  then show ?thesis using p stealer_steal_quiet [OF r] represents_advance [OF r [unfolded Cons]]
    by (intro exI [of _ 1]) (auto simp: passed_def)
qed

lemma other_op_passed:
  assumes "other_op q q'" "represents q xs"
  shows "\<exists>m ys. m \<le> 1 \<and> passed m q xs q' ys"
  using assms(1)
proof cases
  case (other_push x)
  then show ?thesis using passed_push [OF assms(2), of x q'] assms(2) by (force simp: represents_iff)
next
  case (other_pop r)
  then show ?thesis using passed_pop_fifo [OF assms(2)] passed_pop_lifo [OF assms(2)] by (cases "flavor q") blast+
next
  case (other_steal r)
  then show ?thesis using passed_steal [OF assms(2)] by blast
qed

lemma other_ops_passed:
  assumes "(other_op ^^ n) q q'" "represents q xs"
  shows "\<exists>m ys. m \<le> n \<and> passed m q xs q' ys"
  using assms
proof (induction n arbitrary: q')
  case 0
  then show ?case by (auto simp: passed_def)
next
  case (Suc n)
  then obtain q1 where q1: "(other_op ^^ n) q q1" "other_op q1 q'" by auto
  with Suc obtain m ys where m: "m \<le> n" "passed m q xs q1 ys" by blast
  obtain m' zs where "m' \<le> 1" "passed m' q1 ys q' zs"
    using other_op_passed [OF q1(2), of ys] m(2) by (auto simp only: passed_def)
  then show ?case using m passed_trans [OF m(2)] by (intro exI [of _ "m + m'"] exI [of _ zs]) simp
qed

lemma interleavedE:
  assumes "interleaved env" "represents q xs"
  obtains m ys where "m < 2 ^ 61" "passed m q xs (env k q) ys" "other_op\<^sup>*\<^sup>* q (env k q)"
proof -
  obtain n where n: "n < 2 ^ 61" "(other_op ^^ n) q (env k q)" using assms(1) by (auto simp: interleaved_def)
  with other_ops_passed [OF n(2) assms(2)] obtain m ys where "m \<le> n" "passed m q xs (env k q) ys" by blast
  moreover have "other_op\<^sup>*\<^sup>* q (env k q)" using n(2) by (rule relpowp_imp_rtranclp)
  ultimately show ?thesis using n(1) that [of m ys] by simp
qed

lemma wrapping_sum_zero:
  assumes "f = f + (of_nat m :: 64 word)" "m < 2 ^ 64"
  shows "m = 0"
proof -
  have "of_nat m = (0 :: 64 word)" using assms(1) by simp
  then have "unat (of_nat m :: 64 word) = 0" by simp
  then show ?thesis using unat_of_nat_small [OF assms(2)] by simp
qed

text \<open>A load through a buffer pointer that is stale by now still hits allocated memory.\<close>

lemma stale_load:
  assumes "represents q xs" "mem_later q q'"
  shows "\<exists>cell. buffer_load (ibuf q) i q' = Some cell"
proof -
  note d = representsD [OF assms(1)] liveD [OF representsD(2) [OF assms(1)]]
  obtain cs where "heap q' (ptr (wbuf q)) = Some cs" "length cs = unat (cap (wbuf q))"
    using assms(2) d(13,14) unfolding mem_later_def heap_kept_def by metis
  then show ?thesis using liveD(4) [OF d(2), of i] by (simp add: buffer_load_def d(3))
qed

lemma ibuf_unchanged:
  assumes "represents q xs" "mem_later q q1" "mem_later q1 q2" "ibuf q2 = ibuf q"
  shows "ibuf q1 = ibuf q"
proof (rule ccontr)
  assume ne: "ibuf q1 \<noteq> ibuf q"
  have "heap q (ptr (ibuf q)) \<noteq> None" using liveD(2) [OF representsD(2) [OF assms(1)]] representsD(3) [OF assms(1)] by simp
  then have "ptr (ibuf q) < next_ptr q" using representsD(1) [OF assms(1)] by (metis shape_def not_less)
  with ne assms(2-4) show False by (auto simp: mem_later_def)
qed

text \<open>What a thief learns from an old \<open>front\<close> and a newer \<open>back_index\<close>.\<close>

lemma passed_empty:
  assumes "passed m q xs q0 ys" "m < 2 ^ 61"
  shows "sint (back_index q0 - front q) \<le> 0 \<longleftrightarrow> m + length ys = 0"
proof -
  have r0: "represents q0 ys" using assms(1) by (simp add: passed_def)
  have d0: "back_index q0 - front q = of_nat (m + length ys)"
    using representsD(7) [OF r0] assms(1) by (simp add: passed_def algebra_simps)
  have small: "m + length ys < 2 ^ 63" using assms(2) representsD(10) [OF r0] by simp
  have u: "unat (back_index q0 - front q) = m + length ys" unfolding d0 by (rule unat_of_nat_small) (use small in simp)
  have "sint (back_index q0 - front q) = int (m + length ys)"
    unfolding u [symmetric] by (rule sint_small) (use u small in simp)
  then show ?thesis by linarith
qed

lemma stealer_steal_interleaved:
  assumes e: "interleaved env" and r: "represents q xs"
  shows "\<exists>res q'. stealer_steal env q = Some (res, q') \<and> (case res of
      Empty \<Rightarrow> other_op\<^sup>*\<^sup>* q q' \<and> represents q' []
    | Retry \<Rightarrow> other_op\<^sup>*\<^sup>* q q' \<and> wf_worker q'
    | Success t \<Rightarrow> \<exists>s ys. other_op\<^sup>*\<^sup>* q s \<and> represents s (t # ys) \<and> q' = s\<lparr>front := front s + 1\<rparr> \<and> represents q' ys)"
proof -
  obtain m0 ys0 where p0: "m0 < 2 ^ 61" "passed m0 q xs (env 0 q) ys0" "other_op\<^sup>*\<^sup>* q (env 0 q)" by (rule interleavedE [OF e r])
  let ?q0 = "env 0 q" and ?f = "front q"
  have r0: "represents ?q0 ys0" using p0(2) by (simp add: passed_def)
  have emp: "sint (back_index ?q0 - ?f) \<le> 0 \<longleftrightarrow> m0 + length ys0 = 0" by (rule passed_empty [OF p0(2,1)])
  obtain m1 ys1 where p1: "m1 < 2 ^ 61" "passed m1 ?q0 ys0 (env 1 ?q0) ys1" "other_op\<^sup>*\<^sup>* ?q0 (env 1 ?q0)" by (rule interleavedE [OF e r0])
  let ?q1 = "env 1 (env 0 q)" let ?buf = "ibuf ?q1"
  have r1: "represents ?q1 ys1" using p1(2) by (simp add: passed_def)
  obtain m2 ys2 where p2: "m2 < 2 ^ 61" "passed m2 ?q1 ys1 (env 2 ?q1) ys2" "other_op\<^sup>*\<^sup>* ?q1 (env 2 ?q1)" by (rule interleavedE [OF e r1])
  let ?q2 = "env 2 (env 1 (env 0 q))"
  have r2: "represents ?q2 ys2" using p2(2) by (simp add: passed_def)
  obtain m3 ys3 where p3: "m3 < 2 ^ 61" "passed m3 ?q2 ys2 (env 3 ?q2) ys3" "other_op\<^sup>*\<^sup>* ?q2 (env 3 ?q2)" by (rule interleavedE [OF e r2])
  let ?q3 = "env 3 (env 2 (env 1 (env 0 q)))"
  have r3: "represents ?q3 ys3" using p3(2) by (simp add: passed_def)
  obtain m4 ys4 where p4: "m4 < 2 ^ 61" "passed m4 ?q3 ys3 (env 4 ?q3) ys4" "other_op\<^sup>*\<^sup>* ?q3 (env 4 ?q3)" by (rule interleavedE [OF e r3])
  let ?q4 = "env 4 (env 3 (env 2 (env 1 (env 0 q))))"
  have r4: "represents ?q4 ys4" using p4(2) by (simp add: passed_def)
  obtain cell where cell: "buffer_load ?buf ?f ?q2 = Some cell" using stale_load [OF r1] p2(2) by (auto simp: passed_def)
  have ops: "other_op\<^sup>*\<^sup>* q ?q3" "other_op\<^sup>*\<^sup>* q ?q4" using p0(3) p1(3) p2(3) p3(3) p4(3) by (meson rtranclp_trans)+
  have steal: "stealer_steal env q = (if m0 + length ys0 = 0 then Some (Empty, ?q0)
     else if ibuf ?q3 \<noteq> ?buf then Some (Retry, ?q3) else if front ?q4 \<noteq> ?f then Some (Retry, ?q4)
     else do { t \<leftarrow> cell; Some (Success t, ?q4\<lparr>front := ?f + 1\<rparr>) })"
    using cell by (simp add: stealer_steal_def Let_def emp del: One_nat_def)
  show ?thesis
  proof (cases "m0 + length ys0 \<noteq> 0 \<and> ibuf ?q3 = ?buf \<and> front ?q4 = ?f")
    case True
    have "passed (m0 + m1 + m2 + m3 + m4) q xs ?q4 ys4" using p0(2) p1(2) p2(2) p3(2) p4(2) by (meson passed_trans)
    then have "?f = ?f + of_nat (m0 + m1 + m2 + m3 + m4)" using True by (simp add: passed_def)
    then have "m0 + m1 + m2 + m3 + m4 = 0" by (rule wrapping_sum_zero) (use p0(1) p1(1) p2(1) p3(1) p4(1) in simp)
    then have z: "m0 = 0" "m1 = 0" "m2 = 0" "m3 = 0" "m4 = 0" by simp_all
    have hd: "ys2 \<noteq> []" "ys4 \<noteq> []" "hd ys4 = hd ys2" "front ?q2 = ?f"
      using True p0(2) p1(2) p2(2) p3(2) p4(2) unfolding z by (simp_all add: passed_def)
    have "ibuf ?q2 = ?buf" by (rule ibuf_unchanged [OF r1, of ?q2 ?q3]) (use p2(2) p3(2) True in \<open>simp_all add: passed_def\<close>)
    then have "cell = Some (hd ys2)"
      using represents_load_hd [of ?q2 "hd ys2" "tl ys2"] r2 hd(1,4) cell representsD(3) [OF r2] by simp
    moreover have r4': "represents ?q4 (hd ys2 # tl ys4)" using r4 hd(2,3) by (metis list.collapse)
    ultimately show ?thesis using steal True ops(2) represents_advance [OF r4'] by (auto intro!: exI [of _ ?q4] exI [of _ "tl ys4"])
  next
    case False
    then show ?thesis using steal p0(3) r0 r3 r4 ops by (auto simp: represents_iff)
  qed
qed


section \<open>Properties\<close>

text \<open>
  C1: \<open>Stealer::steal\<close> always returns, in whatever way whole operations of the owner and of
  other thieves fall between its five accesses to the shared queue (fewer than \<open>2 ^ 61\<close>
  operations in each gap). A success yields the task that is the oldest at the moment of the
  \<open>compare_exchange\<close> and removes exactly that task; \<open>Empty\<close> is answered only if the queue
  was empty at the load of \<open>back\<close>; \<open>Retry\<close> leaves everything to the other threads. Stale
  buffers are read without harm.
\<close>

theorem stealer_steal_linearizes:
  assumes "interleaved env" "represents q xs"
  shows "\<exists>res q'. stealer_steal env q = Some (res, q') \<and> (case res of
      Empty \<Rightarrow> other_op\<^sup>*\<^sup>* q q' \<and> represents q' []
    | Retry \<Rightarrow> other_op\<^sup>*\<^sup>* q q' \<and> wf_worker q'
    | Success t \<Rightarrow> \<exists>s ys. other_op\<^sup>*\<^sup>* q s \<and> represents s (t # ys) \<and> q' = s\<lparr>front := front s + 1\<rparr> \<and> represents q' ys)"
  by (rule stealer_steal_interleaved [OF assms])

text \<open>An owner who pushes the task 8 in gap 2 of a steal.\<close>

definition busy_owner :: "nat env" where
  "busy_owner k q = (if k = 2 \<and> length (tasks q) < 2 ^ 62 then case worker_push quiet 8 q of Some q' \<Rightarrow> q' | None \<Rightarrow> q else q)"

lemma interleaved_busy_owner: "interleaved busy_owner"
proof -
  have "\<exists>n < 2 ^ 61. (other_op ^^ n) q (busy_owner k q)" for k and q :: "nat worker"
  proof (cases "k = 2 \<and> length (tasks q) < 2 ^ 62 \<and> worker_push quiet 8 q \<noteq> None")
    case True
    then have "other_op q (busy_owner k q)" by (auto simp: busy_owner_def intro: other_push)
    then show ?thesis by (intro exI [of _ 1]) auto
  next
    case False
    then have "busy_owner k q = q" by (auto simp: busy_owner_def)
    then show ?thesis by (intro exI [of _ 0]) simp
  qed
  then show ?thesis by (simp add: interleaved_def)
qed

theorem stealer_steal_linearizes_witness:
  "\<exists>q :: nat worker. represents q [5, 6, 7] \<and> (\<exists>res q'. stealer_steal busy_owner q = Some (res, q') \<and> (case res of
      Empty \<Rightarrow> other_op\<^sup>*\<^sup>* q q' \<and> represents q' []
    | Retry \<Rightarrow> other_op\<^sup>*\<^sup>* q q' \<and> wf_worker q'
    | Success t \<Rightarrow> \<exists>s ys. other_op\<^sup>*\<^sup>* q s \<and> represents s (t # ys) \<and> q' = s\<lparr>front := front s + 1\<rparr> \<and> represents q' ys))"
proof -
  obtain q :: "nat worker" where q: "represents q [5, 6, 7]" using some_queue by blast
  show ?thesis using stealer_steal_linearizes [OF interleaved_busy_owner q] q by blast
qed

text \<open>
  What thieves do to a queue that only they touch is a theft in the sense of the properties of
  \<open>push\<close> and \<open>pop\<close>: a steal moves \<open>front\<close> by at most one, over a task that is in the queue.
\<close>

lemma stealer_steal_theft:
  assumes "represents q xs" "stealer_steal quiet q = Some (res, q')"
  shows "theft q q' \<and> res \<noteq> Retry"
proof (cases xs)
  case Nil
  then show ?thesis using stealer_steal_quiet [OF assms(1)] assms(2) by (auto simp: theft_def intro!: exI [of _ 0])
next
  case (Cons y ys)
  have "1 \<le> nat (sint (back_index q - front q))" using represents_nonempty [OF assms(1) [unfolded Cons]] by simp
  with Cons show ?thesis using stealer_steal_quiet [OF assms(1)] assms(2)
    by (auto simp: theft_def intro!: exI [of _ 1])
qed

end
