(* ===== verification/Injector.thy ===== *)
theory Injector
  imports Stealer_Ops
begin

text \<open>
  The injector queue (\<^verbatim>\<open>Slot\<close>, \<^verbatim>\<open>Block\<close>, \<^verbatim>\<open>Position\<close> and \<^verbatim>\<open>Injector\<close> of
  \<^verbatim>\<open>task/crossbeam.rs\<close>): a FIFO queue for any number of pushing and stealing threads, a linked
  list of blocks with 63 slots each. A block that is freed is absent from the heap of blocks, and
  an access to it is undefined behaviour (\<open>None\<close>), as are reading a slot that was never
  written and freeing a block twice.

  Other threads may act between any two accesses to shared memory: \<open>env k\<close> is what they do at the
  \<open>k\<close>-th gap, counted by the ghost field \<open>clock\<close>, and \<open>spurious k\<close> tells whether a
  \<^verbatim>\<open>compare_exchange_weak\<close> at that time fails though it finds the expected value. A loop that
  waits for another thread goes round until the gaps have changed what it waits for; it is
  \<open>None\<close> if that never happens.
\<close>

section \<open>Constants and state\<close>

definition WRITE :: usize where "WRITE = 1"
definition READ :: usize where "READ = 2"
definition DESTROY :: usize where "DESTROY = 4"
definition LAP :: usize where "LAP = 64"
definition BLOCK_CAP :: usize where "BLOCK_CAP = LAP - 1"
definition SHIFT :: nat where "SHIFT = 1"
definition HAS_NEXT :: usize where "HAS_NEXT = 1"

record 'a slot =
  stask :: "'a option"
  state :: usize

record 'a block =
  bnext :: "nat option"
  slots :: "'a slot list"

record 'a injector =
  head_index :: usize
  head_block :: nat
  tail_index :: usize
  tail_block :: nat
  blocks :: "nat \<Rightarrow> 'a block option"
  next_block :: nat
  clock :: nat

type_synonym 'a ienv = "nat \<Rightarrow> 'a injector \<Rightarrow> 'a injector"

definition gap :: "'a ienv \<Rightarrow> 'a injector \<Rightarrow> 'a injector" where
  "gap env q = (env (clock q) q)\<lparr>clock := Suc (clock q)\<rparr>"

section \<open>Slots and blocks\<close>

definition block_new :: "'a block" where
  "block_new = \<lparr>bnext = None, slots = replicate (unat BLOCK_CAP) \<lparr>stask = None, state = 0\<rparr>\<rparr>"

definition block_alloc :: "'a injector \<Rightarrow> nat \<times> 'a injector" where
  "block_alloc q = (next_block q, q\<lparr>blocks := (blocks q)(next_block q \<mapsto> block_new), next_block := Suc (next_block q)\<rparr>)"

definition block_free :: "nat \<Rightarrow> 'a injector \<Rightarrow> 'a injector option" where
  "block_free p q = do { b \<leftarrow> blocks q p; Some (q\<lparr>blocks := (blocks q)(p := None)\<rparr>) }"

definition slot_get :: "nat \<Rightarrow> nat \<Rightarrow> 'a injector \<Rightarrow> 'a slot option" where
  "slot_get p i q = do { b \<leftarrow> blocks q p; if i < length (slots b) then Some (slots b ! i) else None }"

definition slot_put :: "nat \<Rightarrow> nat \<Rightarrow> 'a slot \<Rightarrow> 'a injector \<Rightarrow> 'a injector option" where
  "slot_put p i s q = do { b \<leftarrow> blocks q p;
     if i < length (slots b) then Some (q\<lparr>blocks := (blocks q)(p \<mapsto> b\<lparr>slots := (slots b)[i := s]\<rparr>)\<rparr>) else None }"

text \<open>\<^verbatim>\<open>slot.state.fetch_or(bits)\<close>: the state before, and the injector after.\<close>

definition slot_fetch_or :: "nat \<Rightarrow> nat \<Rightarrow> usize \<Rightarrow> 'a injector \<Rightarrow> (usize \<times> 'a injector) option" where
  "slot_fetch_or p i bits q = do {
     s \<leftarrow> slot_get p i q;
     q \<leftarrow> slot_put p i (s\<lparr>state := state s OR bits\<rparr>) q;
     Some (state s, q) }"

definition slot_write :: "nat \<Rightarrow> nat \<Rightarrow> 'a \<Rightarrow> 'a injector \<Rightarrow> 'a injector option" where
  "slot_write p i task q = do { s \<leftarrow> slot_get p i q; slot_put p i (s\<lparr>stask := Some task\<rparr>) q }"

definition slot_read :: "nat \<Rightarrow> nat \<Rightarrow> 'a injector \<Rightarrow> 'a option" where
  "slot_read p i q = do { s \<leftarrow> slot_get p i q; stask s }"

partial_function (option) slot_wait_write :: "'a ienv \<Rightarrow> nat \<Rightarrow> nat \<Rightarrow> 'a injector \<Rightarrow> 'a injector option" where
  "slot_wait_write env p i q = do {
     s \<leftarrow> slot_get p i q;
     if state s AND WRITE = 0 then slot_wait_write env p i (gap env q) else Some q }"

partial_function (option) block_wait_next :: "'a ienv \<Rightarrow> nat \<Rightarrow> 'a injector \<Rightarrow> (nat \<times> 'a injector) option" where
  "block_wait_next env p q = do {
     b \<leftarrow> blocks q p;
     case bnext b of Some next \<Rightarrow> Some (next, q) | None \<Rightarrow> block_wait_next env p (gap env q) }"

text \<open>\<open>Block::destroy\<close>: from slot \<open>count - 1\<close> down to slot 0; a slot still in use takes over.\<close>

fun block_destroy :: "'a ienv \<Rightarrow> nat \<Rightarrow> nat \<Rightarrow> 'a injector \<Rightarrow> 'a injector option" where
  "block_destroy env p 0 q = block_free p q"
| "block_destroy env p (Suc i) q = do {
     let q = gap env q;
     s \<leftarrow> slot_get p i q;
     if state s AND READ = 0
     then do {
       (old, q) \<leftarrow> slot_fetch_or p i DESTROY (gap env q);
       if old AND READ = 0 then Some q else block_destroy env p i q }
     else block_destroy env p i q }"

section \<open>Operations\<close>

definition injector_new :: "'a injector" where
  "injector_new =
     \<lparr>head_index = 0, head_block = 0, tail_index = 0, tail_block = 0, blocks = [0 \<mapsto> block_new],
      next_block = 1, clock = 0\<rparr>"

definition offset_of :: "usize \<Rightarrow> usize" where
  "offset_of index = drop_bit SHIFT index mod LAP"

text \<open>
  The end of a successful push: \<open>offset\<close> is the slot won, \<open>box\<close> the block allocated in advance. A
  box that was not needed is dropped when \<open>push\<close> returns.
\<close>

definition push_finish :: "'a ienv \<Rightarrow> 'a \<Rightarrow> usize \<Rightarrow> nat \<Rightarrow> usize \<Rightarrow> nat option \<Rightarrow> 'a injector \<Rightarrow> 'a injector option" where
  "push_finish env task new_tail block offset box q = do {
     q \<leftarrow> (if offset + 1 = BLOCK_CAP then do {
             next_block \<leftarrow> box;
             let next_index = new_tail + push_bit SHIFT 1;
             let q = (gap env q)\<lparr>tail_block := next_block\<rparr>;
             let q = (gap env q)\<lparr>tail_index := next_index\<rparr>;
             let q = gap env q;
             b \<leftarrow> blocks q block;
             Some (q\<lparr>blocks := (blocks q)(block \<mapsto> b\<lparr>bnext := Some next_block\<rparr>)\<rparr>) }
           else Some q);
     q \<leftarrow> slot_write block (unat offset) task (gap env q);
     (_, q) \<leftarrow> slot_fetch_or block (unat offset) WRITE (gap env q);
     if offset + 1 = BLOCK_CAP then Some q
     else case box of None \<Rightarrow> Some q | Some p \<Rightarrow> block_free p q }"

partial_function (option) push_loop :: "'a ienv \<Rightarrow> (nat \<Rightarrow> bool) \<Rightarrow> 'a \<Rightarrow> usize \<Rightarrow> nat \<Rightarrow> nat option \<Rightarrow> 'a injector \<Rightarrow> 'a injector option" where
  "push_loop env spurious task tail block box q =
     (let offset = offset_of tail
      in if offset = BLOCK_CAP then
           let q = gap env q; tail = tail_index q; q = gap env q; block = tail_block q
           in push_loop env spurious task tail block box q
         else
           let (box, q) = (if offset + 1 = BLOCK_CAP \<and> box = None
                           then let (p, q) = block_alloc q in (Some p, q) else (box, q));
               new_tail = tail + push_bit SHIFT 1;
               q = gap env q
           in if tail_index q = tail \<and> \<not> spurious (clock q)
              then push_finish env task new_tail block offset box (q\<lparr>tail_index := new_tail\<rparr>)
              else let tail = tail_index q; q = gap env q; block = tail_block q
                   in push_loop env spurious task tail block box q)"

definition injector_push :: "'a ienv \<Rightarrow> (nat \<Rightarrow> bool) \<Rightarrow> 'a \<Rightarrow> 'a injector \<Rightarrow> 'a injector option" where
  "injector_push env spurious task q =
     (let tail = tail_index q; q = gap env q; block = tail_block q
      in push_loop env spurious task tail block None q)"

text \<open>The loop at the start of the three steal operations: the head, its block and its offset.\<close>

partial_function (option) steal_start :: "'a ienv \<Rightarrow> 'a injector \<Rightarrow> (usize \<times> nat \<times> usize \<times> 'a injector) option" where
  "steal_start env q =
     (let head = head_index q; q = gap env q; block = head_block q; offset = offset_of head
      in if offset = BLOCK_CAP then steal_start env (gap env q) else Some (head, block, offset, q))"

text \<open>At the end of a block the thief that took the last slot moves the head to the next block.\<close>

definition head_to_next :: "'a ienv \<Rightarrow> nat \<Rightarrow> usize \<Rightarrow> 'a injector \<Rightarrow> 'a injector option" where
  "head_to_next env block new_head q = do {
     (next, q) \<leftarrow> block_wait_next env block q;
     let next_index = (new_head AND NOT HAS_NEXT) + push_bit SHIFT 1;
     let q = gap env q;
     b \<leftarrow> blocks q next;
     let next_index = (if bnext b \<noteq> None then next_index OR HAS_NEXT else next_index);
     let q = (gap env q)\<lparr>head_block := next\<rparr>;
     Some ((gap env q)\<lparr>head_index := next_index\<rparr>) }"

text \<open>What a thief does once it has won the slot \<open>offset\<close>.\<close>

definition steal_take :: "'a ienv \<Rightarrow> nat \<Rightarrow> usize \<Rightarrow> usize \<Rightarrow> 'a injector \<Rightarrow> ('a steal \<times> 'a injector) option" where
  "steal_take env block offset new_head q = do {
     q \<leftarrow> (if offset + 1 = BLOCK_CAP then head_to_next env block new_head q else Some q);
     q \<leftarrow> slot_wait_write env block (unat offset) (gap env q);
     task \<leftarrow> slot_read block (unat offset) q;
     q \<leftarrow> (if offset + 1 = BLOCK_CAP then block_destroy env block (unat offset) q
           else do {
             (old, q) \<leftarrow> slot_fetch_or block (unat offset) READ (gap env q);
             if old AND DESTROY \<noteq> 0 then block_destroy env block (unat offset) q else Some q });
     Some (Success task, q) }"

definition injector_steal :: "'a ienv \<Rightarrow> (nat \<Rightarrow> bool) \<Rightarrow> 'a injector \<Rightarrow> ('a steal \<times> 'a injector) option" where
  "injector_steal env spurious q = do {
     (head, block, offset, q) \<leftarrow> steal_start env q;
     let new_head = head + push_bit SHIFT 1;
     let fresh = (new_head AND HAS_NEXT = 0);
     let q = (if fresh then gap env q else q);
     let tail = tail_index q;
     if fresh \<and> drop_bit SHIFT head = drop_bit SHIFT tail then Some (Empty, q)
     else do {
       let new_head = (if fresh \<and> drop_bit SHIFT head div LAP \<noteq> drop_bit SHIFT tail div LAP
                       then new_head OR HAS_NEXT else new_head);
       let q = gap env q;
       if head_index q \<noteq> head \<or> spurious (clock q) then Some (Retry, q)
       else steal_take env block offset new_head (q\<lparr>head_index := new_head\<rparr>) } }"

text \<open>
  The size of a batch: up to the end of the block when the head is known not to be in the last
  block, half of the tasks otherwise. The result is the new head without the advance, and the advance.
\<close>

definition batch_advance :: "usize \<Rightarrow> usize \<Rightarrow> usize \<Rightarrow> usize \<Rightarrow> usize \<times> usize" where
  "batch_advance limit head tail offset =
     (if head AND HAS_NEXT = 0 then
        if drop_bit SHIFT head div LAP \<noteq> drop_bit SHIFT tail div LAP
        then (head OR HAS_NEXT, min (BLOCK_CAP - offset) limit)
        else (head, min ((drop_bit SHIFT (tail - head) + 1) div 2) limit)
      else (head, min (BLOCK_CAP - offset) limit))"

text \<open>The \<open>for\<close> loops that copy a batch from the slots from \<open>first\<close> on into the destination.\<close>

definition copy_slots :: "'a ienv \<Rightarrow> nat \<Rightarrow> nat \<Rightarrow> nat \<Rightarrow> buffer \<Rightarrow> isize \<Rightarrow> 'a injector \<times> 'a worker \<Rightarrow> ('a injector \<times> 'a worker) option" where
  "copy_slots env block first n dest_buffer dest_b st =
     (let at = (case flavor (snd st) of
                  Fifo \<Rightarrow> \<lambda>i. dest_b + of_nat i
                | Lifo \<Rightarrow> \<lambda>i. dest_b + of_nat (n - 1 - i))
      in for_in [0..<n] (\<lambda>i (q, dest). do {
           q \<leftarrow> slot_wait_write env block (first + i) (gap env q);
           task \<leftarrow> slot_read block (first + i) q;
           dest \<leftarrow> buffer_write dest_buffer (at i) task dest;
           Some (q, dest) }) st)"

text \<open>The loop that marks the slots of a batch as read; it stops when it has to destroy the block.\<close>

fun mark_read :: "'a ienv \<Rightarrow> nat \<Rightarrow> nat \<Rightarrow> nat list \<Rightarrow> 'a injector \<Rightarrow> 'a injector option" where
  "mark_read env block offset [] q = Some q"
| "mark_read env block offset (i # is) q = do {
     (old, q) \<leftarrow> slot_fetch_or block i READ (gap env q);
     if old AND DESTROY \<noteq> 0 then block_destroy env block offset q else mark_read env block offset is q }"

text \<open>What \<open>steal_batch\<close> does once it has won the slots from \<open>offset\<close> up to \<open>new_offset\<close>.\<close>

definition batch_take :: "'a ienv \<Rightarrow> 'a env \<Rightarrow> nat \<Rightarrow> usize \<Rightarrow> usize \<Rightarrow> usize \<Rightarrow> 'a injector \<Rightarrow> 'a worker
    \<Rightarrow> (unit steal \<times> 'a injector \<times> 'a worker) option" where
  "batch_take env denv block offset new_offset new_head q dest = do {
     let batch_size = new_offset - offset;
     dest \<leftarrow> worker_reserve denv batch_size dest;
     let dest_buffer = wbuf dest;
     let dest_b = back_index dest;
     q \<leftarrow> (if new_offset = BLOCK_CAP then head_to_next env block new_head q else Some q);
     (q, dest) \<leftarrow> copy_slots env block (unat offset) (unat batch_size) dest_buffer dest_b (q, dest);
     let dest = dest\<lparr>back_index := dest_b + batch_size\<rparr>;
     q \<leftarrow> (if new_offset = BLOCK_CAP then block_destroy env block (unat offset) q
           else mark_read env block (unat offset) [unat offset..<unat new_offset] q);
     Some (Success (), q, dest) }"

definition injector_steal_batch :: "'a ienv \<Rightarrow> (nat \<Rightarrow> bool) \<Rightarrow> 'a env \<Rightarrow> 'a injector \<Rightarrow> 'a worker
    \<Rightarrow> (unit steal \<times> 'a injector \<times> 'a worker) option" where
  "injector_steal_batch env spurious denv q dest = do {
     (head, block, offset, q) \<leftarrow> steal_start env q;
     let fresh = (head AND HAS_NEXT = 0);
     let q = (if fresh then gap env q else q);
     let tail = tail_index q;
     if fresh \<and> drop_bit SHIFT head = drop_bit SHIFT tail then Some (Empty, q, dest)
     else do {
       let (new_head, advance) = batch_advance MAX_BATCH head tail offset;
       let new_head = new_head + push_bit SHIFT advance;
       let new_offset = offset + advance;
       let q = gap env q;
       if head_index q \<noteq> head \<or> spurious (clock q) then Some (Retry, q, dest)
       else batch_take env denv block offset new_offset new_head (q\<lparr>head_index := new_head\<rparr>) dest } }"

text \<open>What \<open>steal_batch_and_pop\<close> does once it has won the slots from \<open>offset\<close> up to \<open>new_offset\<close>.\<close>

definition batch_pop_take :: "'a ienv \<Rightarrow> 'a env \<Rightarrow> nat \<Rightarrow> usize \<Rightarrow> usize \<Rightarrow> usize \<Rightarrow> 'a injector \<Rightarrow> 'a worker
    \<Rightarrow> ('a steal \<times> 'a injector \<times> 'a worker) option" where
  "batch_pop_take env denv block offset new_offset new_head q dest = do {
     let batch_size = new_offset - offset - 1;
     dest \<leftarrow> worker_reserve denv batch_size dest;
     let dest_buffer = wbuf dest;
     let dest_b = back_index dest;
     q \<leftarrow> (if new_offset = BLOCK_CAP then head_to_next env block new_head q else Some q);
     q \<leftarrow> slot_wait_write env block (unat offset) (gap env q);
     task \<leftarrow> slot_read block (unat offset) q;
     (q, dest) \<leftarrow> copy_slots env block (unat offset + 1) (unat batch_size) dest_buffer dest_b (q, dest);
     let dest = dest\<lparr>back_index := dest_b + batch_size\<rparr>;
     q \<leftarrow> (if new_offset = BLOCK_CAP then block_destroy env block (unat offset) q
           else mark_read env block (unat offset) [unat offset..<unat new_offset] q);
     Some (Success task, q, dest) }"

definition injector_steal_batch_and_pop :: "'a ienv \<Rightarrow> (nat \<Rightarrow> bool) \<Rightarrow> 'a env \<Rightarrow> 'a injector \<Rightarrow> 'a worker
    \<Rightarrow> ('a steal \<times> 'a injector \<times> 'a worker) option" where
  "injector_steal_batch_and_pop env spurious denv q dest = do {
     (head, block, offset, q) \<leftarrow> steal_start env q;
     let fresh = (head AND HAS_NEXT = 0);
     let q = (if fresh then gap env q else q);
     let tail = tail_index q;
     if fresh \<and> drop_bit SHIFT head = drop_bit SHIFT tail then Some (Empty, q, dest)
     else do {
       let (new_head, advance) = batch_advance (MAX_BATCH + 1) head tail offset;
       let new_head = new_head + push_bit SHIFT advance;
       let new_offset = offset + advance;
       let q = gap env q;
       if head_index q \<noteq> head \<or> spurious (clock q) then Some (Retry, q, dest)
       else batch_pop_take env denv block offset new_offset new_head (q\<lparr>head_index := new_head\<rparr>) dest } }"

definition injector_is_empty :: "'a ienv \<Rightarrow> 'a injector \<Rightarrow> bool" where
  "injector_is_empty env q = (let head = head_index q; q = gap env q; tail = tail_index q
     in drop_bit SHIFT head = drop_bit SHIFT tail)"

definition index_len :: "usize \<Rightarrow> usize \<Rightarrow> usize" where
  "index_len tail head =
     (let tail = tail AND NOT (push_bit SHIFT 1 - 1);
          head = head AND NOT (push_bit SHIFT 1 - 1);
          tail = (if drop_bit SHIFT tail AND (LAP - 1) = LAP - 1 then tail + push_bit SHIFT 1 else tail);
          head = (if drop_bit SHIFT head AND (LAP - 1) = LAP - 1 then head + push_bit SHIFT 1 else head);
          lap = drop_bit SHIFT head div LAP;
          tail = tail - push_bit SHIFT (lap * LAP);
          head = head - push_bit SHIFT (lap * LAP);
          tail = drop_bit SHIFT tail;
          head = drop_bit SHIFT head
      in tail - head - tail div LAP)"

partial_function (option) injector_len :: "'a ienv \<Rightarrow> 'a injector \<Rightarrow> usize option" where
  "injector_len env q =
     (let tail = tail_index q; q = gap env q; head = head_index q; q = gap env q
      in if tail_index q = tail then Some (index_len tail head) else injector_len env (gap env q))"

text \<open>
  \<^verbatim>\<open>Drop for Injector\<close>: the dropped tasks and the injector afterwards. The loop would not end if the
  two indices, cleared of their flag bits, were an odd distance apart.
\<close>

partial_function (option) injector_drop_loop :: "usize \<Rightarrow> usize \<Rightarrow> nat \<Rightarrow> 'a injector \<Rightarrow> ('a list \<times> nat \<times> 'a injector) option" where
  "injector_drop_loop head tail block q =
     (if head \<noteq> tail then
        let offset = offset_of head
        in if offset < BLOCK_CAP
           then do {
             task \<leftarrow> slot_read block (unat offset) q;
             (ts, last, q) \<leftarrow> injector_drop_loop (head + push_bit SHIFT 1) tail block q;
             Some (task # ts, last, q) }
           else do {
             b \<leftarrow> blocks q block;
             q \<leftarrow> block_free block q;
             next \<leftarrow> bnext b;
             injector_drop_loop (head + push_bit SHIFT 1) tail next q }
      else Some ([], block, q))"

definition injector_drop :: "'a injector \<Rightarrow> ('a list \<times> 'a injector) option" where
  "injector_drop q =
     (let head = head_index q AND NOT (push_bit SHIFT 1 - 1);
          tail = tail_index q AND NOT (push_bit SHIFT 1 - 1);
          block = head_block q
      in do {
        (ts, block, q) \<leftarrow> injector_drop_loop head tail block q;
        q \<leftarrow> block_free block q;
        Some (ts, q) })"

end
