(* ===== verification/Injector_Rep.thy ===== *)
theory Injector_Rep
  imports Injector
begin

text \<open>
  The injector at rest as a list of tasks: positions of tasks, the chain of blocks by laps, and
  what the operations do to the list when no other thread interferes (a \<^verbatim>\<open>compare_exchange_weak\<close>
  may still fail spuriously). Every block that is used up is freed: the blocks in the heap are
  exactly those between head and tail.
\<close>


section \<open>Indices\<close>

text \<open>The position an index stands for; the lowest bit of an index is a flag.\<close>

definition pos :: "usize \<Rightarrow> nat" where "pos w = unat w div 2"

lemma pos_drop_bit: "unat (drop_bit SHIFT w) = pos w"
  by (simp add: pos_def SHIFT_def drop_bit_Suc unat_div)

lemma drop_bit_eq_pos: "drop_bit SHIFT v = drop_bit SHIFT w \<longleftrightarrow> pos v = pos w"
  by (metis pos_drop_bit word_unat_eq_iff)

lemma even_unat: "even (unat (w :: usize)) \<longleftrightarrow> even w"
  using bit_unsigned_iff [where 'a = nat, of w 0] by (simp add: bit_0)

lemma has_next_even: "w AND HAS_NEXT = 0 \<longleftrightarrow> even (unat w)"
  by (simp add: HAS_NEXT_def and_one_eq mod_2_eq_odd even_unat)

lemma pos_or: "pos (w OR HAS_NEXT) = pos w" "odd (unat (w OR HAS_NEXT))"
proof -
  have "drop_bit SHIFT (w OR HAS_NEXT) = drop_bit SHIFT w" by (simp add: SHIFT_def HAS_NEXT_def drop_bit_Suc)
  then show "pos (w OR HAS_NEXT) = pos w" by (simp flip: pos_drop_bit)
  show "odd (unat (w OR HAS_NEXT))" by (simp add: HAS_NEXT_def even_unat even_or_iff)
qed

lemma pos_clear: "pos (w AND NOT HAS_NEXT) = pos w" "even (unat (w AND NOT HAS_NEXT))"
proof -
  have "\<not> bit HAS_NEXT (Suc n)" for n by (simp add: HAS_NEXT_def)
  then have "drop_bit SHIFT (w AND NOT HAS_NEXT) = drop_bit SHIFT w"
    by (intro bit_word_eqI) (auto simp: SHIFT_def bit_simps dest: bit_imp_le_length)
  then show "pos (w AND NOT HAS_NEXT) = pos w" by (simp flip: pos_drop_bit)
  show "even (unat (w AND NOT HAS_NEXT))" by (simp add: HAS_NEXT_def even_unat even_and_iff even_not_iff)
qed

lemma pos_add:
  assumes "pos w + k < 2 ^ 63" 
  shows "pos (w + push_bit SHIFT (of_nat k)) = pos w + k" "even (unat (w + push_bit SHIFT (of_nat k))) \<longleftrightarrow> even (unat w)"
proof -
  have "unat w + 2 * k < 2 ^ 64" using assms by (simp add: pos_def)
  then have "unat (w + push_bit SHIFT (of_nat k)) = unat w + 2 * k"
    by (simp add: SHIFT_def push_bit_Suc unat_word_ariths unat_of_nat mod_simps)
  then show "pos (w + push_bit SHIFT (of_nat k)) = pos w + k" "even (unat (w + push_bit SHIFT (of_nat k))) \<longleftrightarrow> even (unat w)"
    by (simp_all add: pos_def)
qed

lemma offset_pos: "unat (offset_of w) = pos w mod 64"
  by (simp add: offset_of_def unat_mod pos_drop_bit LAP_def)

lemma offset_end: "offset_of w = BLOCK_CAP \<longleftrightarrow> pos w mod 64 = 63"
  using offset_pos [of w] by (simp add: word_unat_eq_iff BLOCK_CAP_def LAP_def)

lemma offset_last: "offset_of w + 1 = BLOCK_CAP \<longleftrightarrow> pos w mod 64 = 62"
proof -
  have "unat (offset_of w + 1) = pos w mod 64 + 1"
    by (simp add: unat_word_ariths offset_pos)
  then show ?thesis by (simp add: word_unat_eq_iff BLOCK_CAP_def LAP_def)
qed

lemma lap_pos: "unat (drop_bit SHIFT w div LAP) = pos w div 64"
  by (simp add: unat_div pos_drop_bit LAP_def)

lemma lap_eq_pos: "drop_bit SHIFT v div LAP = drop_bit SHIFT w div LAP \<longleftrightarrow> pos v div 64 = pos w div 64"
  by (metis lap_pos word_unat_eq_iff)


section \<open>Blocks by lap\<close>

text \<open>
  The blocks of an injector in use are those of the laps \<open>H\<close> to \<open>T\<close>, where \<open>blk\<close> names the block
  of a lap. \<open>grid\<close> says that they are linked in that order, that nothing else is allocated, and
  that \<open>g p\<close> is the slot of position \<open>p\<close>.
\<close>

definition lap_block :: "(nat \<Rightarrow> nat) \<Rightarrow> nat \<Rightarrow> (nat \<Rightarrow> 'a slot) \<Rightarrow> nat \<Rightarrow> 'a block" where
  "lap_block blk T g L = \<lparr>bnext = (if L < T then Some (blk (Suc L)) else None), slots = map g [64 * L..<64 * L + 63]\<rparr>"

definition grid :: "(nat \<Rightarrow> nat) \<Rightarrow> nat \<Rightarrow> nat \<Rightarrow> (nat \<Rightarrow> 'a block option) \<Rightarrow> nat \<Rightarrow> (nat \<Rightarrow> 'a slot) \<Rightarrow> bool" where
  "grid blk H T bs nb g \<longleftrightarrow> H \<le> T \<and> inj_on blk {H..T} \<and> dom bs = blk ` {H..T} \<and>
     (\<forall>L \<in> {H..T}. blk L < nb \<and> bs (blk L) = Some (lap_block blk T g L))"

lemma gridD:
  assumes "grid blk H T bs nb g"
  shows "H \<le> T" "inj_on blk {H..T}" "dom bs = blk ` {H..T}"
    "\<And>L. H \<le> L \<Longrightarrow> L \<le> T \<Longrightarrow> bs (blk L) = Some (lap_block blk T g L)"
    "\<And>L. H \<le> L \<Longrightarrow> L \<le> T \<Longrightarrow> blk L < nb"
    "\<And>K L. H \<le> K \<Longrightarrow> K \<le> T \<Longrightarrow> H \<le> L \<Longrightarrow> L \<le> T \<Longrightarrow> blk K = blk L \<longleftrightarrow> K = L"
  using assms by (auto simp: grid_def inj_on_def)

lemma grid_get:
  "\<lbrakk>grid blk H T (blocks q) nb g; H \<le> L; L \<le> T; i < 63\<rbrakk> \<Longrightarrow> slot_get (blk L) i q = Some (g (64 * L + i))"
  by (simp add: slot_get_def gridD(4) lap_block_def)

lemma map_upt_update:
  assumes "i < n"
  shows "(map g [a..<a + n])[i := s] = map (g(a + i := s)) [a..<a + n]"
  using assms by (intro nth_equalityI) (auto simp: nth_list_update)

lemma lap_block_update:
  assumes "i < 63"
  shows "lap_block blk T (g(64 * L + i := s)) K =
    (if K = L then (lap_block blk T g L)\<lparr>slots := (slots (lap_block blk T g L))[i := s]\<rparr> else lap_block blk T g K)"
proof (cases "K = L")
  case True
  then show ?thesis by (simp add: lap_block_def map_upt_update [OF assms])
next
  case False
  then have "64 * L + i \<notin> {64 * K..<64 * K + 63}" using assms by auto
  then show ?thesis using False by (auto simp: lap_block_def)
qed

lemma grid_put:
  assumes gr: "grid blk H T (blocks q) nb g" and L: "H \<le> L" "L \<le> T" and i: "i < 63"
  shows "\<exists>bs. slot_put (blk L) i s q = Some (q\<lparr>blocks := bs\<rparr>) \<and> grid blk H T bs nb (g(64 * L + i := s))"
proof -
  let ?bs = "(blocks q)(blk L \<mapsto> (lap_block blk T g L)\<lparr>slots := (slots (lap_block blk T g L))[i := s]\<rparr>)"
  have "slot_put (blk L) i s q = Some (q\<lparr>blocks := ?bs\<rparr>)"
    using gridD(4) [OF gr L] i by (simp add: slot_put_def lap_block_def)
  moreover have "grid blk H T ?bs nb (g(64 * L + i := s))"
    unfolding grid_def lap_block_update [OF i] using gridD [OF gr] L by auto
  ultimately show ?thesis by blast
qed

lemma grid_fetch_or:
  assumes gr: "grid blk H T (blocks q) nb g" and L: "H \<le> L" "L \<le> T" and i: "i < 63"
  shows "\<exists>bs. slot_fetch_or (blk L) i b q = Some (state (g (64 * L + i)), q\<lparr>blocks := bs\<rparr>)
    \<and> grid blk H T bs nb (g(64 * L + i := (g (64 * L + i))\<lparr>state := state (g (64 * L + i)) OR b\<rparr>))"
  using grid_put [OF gr L i, of "(g (64 * L + i))\<lparr>state := state (g (64 * L + i)) OR b\<rparr>"] grid_get [OF gr L i]
  by (auto simp: slot_fetch_or_def)

lemma grid_write:
  assumes gr: "grid blk H T (blocks q) nb g" and L: "H \<le> L" "L \<le> T" and i: "i < 63"
  shows "\<exists>bs. slot_write (blk L) i t q = Some (q\<lparr>blocks := bs\<rparr>)
    \<and> grid blk H T bs nb (g(64 * L + i := (g (64 * L + i))\<lparr>stask := Some t\<rparr>))"
  using grid_put [OF gr L i, of "(g (64 * L + i))\<lparr>stask := Some t\<rparr>"] grid_get [OF gr L i]
  by (auto simp: slot_write_def)

text \<open>Freeing the first block moves the grid to the next lap.\<close>

lemma grid_free_first:
  assumes gr: "grid blk H T (blocks q) nb g" and lt: "H < T"
  shows "\<exists>bs. block_free (blk H) q = Some (q\<lparr>blocks := bs\<rparr>) \<and> grid blk (Suc H) T bs nb g"
proof -
  have split: "{H..T} = insert H {Suc H..T}" using lt by auto
  have out: "blk H \<notin> blk ` {Suc H..T}" using gridD(2) [OF gr] unfolding split by auto
  have "dom ((blocks q)(blk H := None)) = blk ` {Suc H..T}"
    using gridD(3) [OF gr] out unfolding split by auto
  moreover have "((blocks q)(blk H := None)) (blk L) = Some (lap_block blk T g L)" "blk L < nb" if "L \<in> {Suc H..T}" for L
    using gridD(4,5) [OF gr, of L] gridD(6) [OF gr, of L H] that lt by auto
  moreover have "inj_on blk {Suc H..T}" using gridD(2) [OF gr] unfolding split by auto
  ultimately have "grid blk (Suc H) T ((blocks q)(blk H := None)) nb g"
    using lt by (simp add: grid_def)
  then show ?thesis using gridD(4) [OF gr, of H] lt by (auto simp: block_free_def)
qed

text \<open>A new block behind the last one extends the grid by a lap of empty slots.\<close>

definition empty_slot :: "'a slot" where "empty_slot = \<lparr>stask = None, state = 0\<rparr>"

lemma block_new_lap: "(\<And>i. i < 63 \<Longrightarrow> g (64 * L + i) = empty_slot) \<Longrightarrow> block_new = lap_block blk L g L"
proof -
  assume e: "\<And>i. i < 63 \<Longrightarrow> g (64 * L + i) = empty_slot"
  have "map g [64 * L..<64 * L + 63] = replicate 63 empty_slot"
    by (rule nth_equalityI) (simp_all add: e)
  then show ?thesis by (simp add: block_new_def lap_block_def BLOCK_CAP_def LAP_def empty_slot_def)
qed

section \<open>The list of tasks\<close>

text \<open>The positions of tasks from \<open>h\<close> up to \<open>t\<close>: the last position of a lap holds none.\<close>

definition positions :: "nat \<Rightarrow> nat \<Rightarrow> nat list" where
  "positions h t = filter (\<lambda>p. p mod 64 \<noteq> 63) [h..<t]"

definition written :: "'a \<Rightarrow> 'a slot" where "written x = \<lparr>stask = Some x, state = WRITE\<rparr>"

text \<open>
  An injector at rest holds the tasks \<open>xs\<close>. Slots before the head in its block are marked as read,
  slots from the tail on are empty; the flag in the head index is set only if there is a next
  block. \<open>stock\<close> is the part that does not depend on the head, which thieves move first.
\<close>

definition stock :: "(nat \<Rightarrow> nat) \<Rightarrow> (nat \<Rightarrow> 'a slot) \<Rightarrow> nat \<Rightarrow> nat \<Rightarrow> 'a list \<Rightarrow> 'a injector \<Rightarrow> bool" where
  "stock blk g h t xs q \<longleftrightarrow>
     grid blk (h div 64) (t div 64) (blocks q) (next_block q) g \<and> tail_block q = blk (t div 64) \<and>
     pos (tail_index q) = t \<and> even (unat (tail_index q)) \<and> h \<le> t \<and> t < 2 ^ 62 \<and> t mod 64 \<noteq> 63 \<and>
     map g (positions h t) = map written xs \<and>
     (\<forall>p \<in> {t..<64 * (t div 64) + 63}. g p = empty_slot) \<and>
     (\<forall>p \<in> {64 * (h div 64)..<h}. state (g p) = WRITE OR READ)"

definition head_at :: "(nat \<Rightarrow> nat) \<Rightarrow> nat \<Rightarrow> nat \<Rightarrow> 'a injector \<Rightarrow> bool" where
  "head_at blk h t q \<longleftrightarrow> pos (head_index q) = h \<and> head_block q = blk (h div 64) \<and> h mod 64 \<noteq> 63 \<and>
     (odd (unat (head_index q)) \<longrightarrow> h div 64 < t div 64)"

definition irep :: "'a injector \<Rightarrow> 'a list \<Rightarrow> bool" where
  "irep q xs \<longleftrightarrow> (\<exists>blk g h t. stock blk g h t xs q \<and> head_at blk h t q)"

lemma stockD:
  assumes "stock blk g h t xs q"
  shows "grid blk (h div 64) (t div 64) (blocks q) (next_block q) g" "tail_block q = blk (t div 64)"
    "pos (tail_index q) = t" "even (unat (tail_index q))" "h \<le> t" "t < 2 ^ 62" "t mod 64 \<noteq> 63"
    "map g (positions h t) = map written xs"
    "\<And>p. t \<le> p \<Longrightarrow> p < 64 * (t div 64) + 63 \<Longrightarrow> g p = empty_slot"
    "\<And>p. 64 * (h div 64) \<le> p \<Longrightarrow> p < h \<Longrightarrow> state (g p) = WRITE OR READ"
    "h div 64 \<le> t div 64"
  using assms by (auto simp: stock_def div_le_mono)

lemma stock_frame [simp]:
  "stock blk g h t xs (q\<lparr>clock := c\<rparr>) = stock blk g h t xs q"
  "stock blk g h t xs (q\<lparr>head_index := i\<rparr>) = stock blk g h t xs q"
  "stock blk g h t xs (q\<lparr>head_block := b\<rparr>) = stock blk g h t xs q"
  by (simp_all add: stock_def)

lemma head_at_frame [simp]:
  "head_at blk h t (q\<lparr>clock := c\<rparr>) = head_at blk h t q"
  "head_at blk h t (q\<lparr>blocks := bs\<rparr>) = head_at blk h t q"
  by (simp_all add: head_at_def)

lemma irep_clock [simp]: "irep (q\<lparr>clock := c\<rparr>) xs = irep q xs"
  by (simp add: irep_def)

lemma blocks_clock [simp]: "q\<lparr>blocks := b, clock := c\<rparr> = q\<lparr>clock := c, blocks := b\<rparr>"
  by simp

definition iquiet :: "'a ienv" where "iquiet = (\<lambda>k q. q)"

lemma gap_quiet [simp]: "gap iquiet q = q\<lparr>clock := Suc (clock q)\<rparr>"
  by (simp add: gap_def iquiet_def)

lemma positions_snoc: "h \<le> t \<Longrightarrow> positions h (Suc t) = positions h t @ (if t mod 64 \<noteq> 63 then [t] else [])"
  by (simp add: positions_def)

lemma positions_cons: "h < t \<Longrightarrow> positions h t = (if h mod 64 \<noteq> 63 then [h] else []) @ positions (Suc h) t"
  by (simp add: positions_def upt_conv_Cons)

lemma irep_new: "irep injector_new []"
proof -
  have "block_new = lap_block (\<lambda>_. 0) 0 (\<lambda>_. empty_slot) 0" by (rule block_new_lap) simp
  then have "stock (\<lambda>_. 0) (\<lambda>_. empty_slot) 0 0 [] injector_new"
    by (auto simp: stock_def grid_def injector_new_def dom_def pos_def positions_def)
  moreover have "head_at (\<lambda>_. 0) 0 0 injector_new" by (simp add: head_at_def injector_new_def pos_def)
  ultimately show ?thesis unfolding irep_def by blast
qed

section \<open>Taking tasks\<close>

lemma wait_write_ready:
  "\<lbrakk>slot_get p i q = Some s; state s AND WRITE \<noteq> 0\<rbrakk> \<Longrightarrow> slot_wait_write env p i q = Some q"
  by (simp add: slot_wait_write.simps)

lemma destroy_all_read:
  assumes "grid blk H T (blocks q) nb g" "H \<le> L" "L \<le> T" "c \<le> 63" "\<And>i. i < c \<Longrightarrow> state (g (64 * L + i)) AND READ \<noteq> 0"
  shows "\<exists>k. block_destroy iquiet (blk L) c q = block_free (blk L) (q\<lparr>clock := k\<rparr>)"
  using assms
proof (induction c arbitrary: q)
  case 0
  then show ?case by (auto intro!: exI [of _ "clock q"])
next
  case (Suc c)
  let ?q = "q\<lparr>clock := Suc (clock q)\<rparr>"
  have gr: "grid blk H T (blocks ?q) nb g" using Suc.prems(1) by simp
  have "slot_get (blk L) c ?q = Some (g (64 * L + c))" using grid_get [OF gr Suc.prems(2,3)] Suc.prems(4) by simp
  then show ?case using Suc.IH [OF gr Suc.prems(2,3)] Suc.prems(4,5) by simp
qed

text \<open>The slots of the positions \<open>[a, b)\<close> get their \<open>READ\<close> bit.\<close>

definition marked :: "nat \<Rightarrow> nat \<Rightarrow> (nat \<Rightarrow> 'a slot) \<Rightarrow> nat \<Rightarrow> 'a slot" where
  "marked a b g p = (if a \<le> p \<and> p < b then (g p)\<lparr>state := state (g p) OR READ\<rparr> else g p)"

lemma mark_read_grid:
  assumes "grid blk H T (blocks q) nb g" "H \<le> L" "L \<le> T" "i + n \<le> 63" "\<And>j. i \<le> j \<Longrightarrow> j < i + n \<Longrightarrow> state (g (64 * L + j)) AND DESTROY = 0"
  shows "\<exists>k bs. mark_read iquiet (blk L) o' [i..<i + n] q = Some (q\<lparr>clock := k, blocks := bs\<rparr>)
    \<and> grid blk H T bs nb (marked (64 * L + i) (64 * L + i + n) g)"
  using assms
proof (induction n arbitrary: i q g)
  case 0
  have "marked (64 * L + i) (64 * L + i) g = g" by (auto simp: marked_def fun_eq_iff)
  with 0 show ?case by (auto intro!: exI [of _ "clock q"] exI [of _ "blocks q"])
next
  case (Suc n)
  let ?q = "q\<lparr>clock := Suc (clock q)\<rparr>" and ?g = "g(64 * L + i := (g (64 * L + i))\<lparr>state := state (g (64 * L + i)) OR READ\<rparr>)"
  have gr: "grid blk H T (blocks ?q) nb g" using Suc.prems(1) by simp
  have i: "i < 63" using Suc.prems(4) by simp
  obtain bs where bs: "slot_fetch_or (blk L) i READ ?q = Some (state (g (64 * L + i)), ?q\<lparr>blocks := bs\<rparr>)" "grid blk H T bs nb ?g"
    using grid_fetch_or [OF gr Suc.prems(2,3) i] by blast
  have "grid blk H T (blocks (?q\<lparr>blocks := bs\<rparr>)) nb ?g" using bs(2) by simp
  moreover have "Suc i + n \<le> 63" "\<And>j. Suc i \<le> j \<Longrightarrow> j < Suc i + n \<Longrightarrow> state (?g (64 * L + j)) AND DESTROY = 0"
    using Suc.prems(4,5) by auto
  ultimately obtain k bs' where
    k: "mark_read iquiet (blk L) o' [Suc i..<Suc i + n] (?q\<lparr>blocks := bs\<rparr>) = Some ((?q\<lparr>blocks := bs\<rparr>)\<lparr>clock := k, blocks := bs'\<rparr>)"
    "grid blk H T bs' nb (marked (64 * L + Suc i) (64 * L + Suc i + n) ?g)"
    using Suc.IH [OF _ Suc.prems(2,3), of "?q\<lparr>blocks := bs\<rparr>" ?g "Suc i"] by blast
  have "marked (64 * L + Suc i) (64 * L + Suc i + n) ?g = marked (64 * L + i) (64 * L + i + Suc n) g"
    by (auto simp: marked_def fun_eq_iff)
  moreover have "[i..<i + Suc n] = i # [Suc i..<Suc i + n]" by (simp add: upt_conv_Cons)
  ultimately show ?case using k bs(1) Suc.prems(5) [of i] by (intro exI [of _ k] exI [of _ bs']) simp
qed

lemma same_lap:
  assumes "h mod 64 + j < (64 :: nat)"
  shows "(h + j) mod 64 = h mod 64 + j" "(h + j) div 64 = h div 64"
proof -
  have "(h + j) mod 64 = (h mod 64 + j) mod 64" by (simp only: mod_add_left_eq)
  then show m: "(h + j) mod 64 = h mod 64 + j" using assms by simp
  have "h + j = (h mod 64 + j) + h div 64 * 64" by simp
  then have "(h + j) div 64 = h div 64 + (h mod 64 + j) div 64" by (metis div_mult_self1 zero_neq_numeral)
  then show "(h + j) div 64 = h div 64" using assms by simp
qed

lemma next_lap:
  assumes "p mod 64 = (63 :: nat)"
  shows "(p + 1) div 64 = Suc (p div 64)" "(p + 1) mod 64 = 0"
  using assms by (simp_all add: div_Suc mod_Suc)

lemma positions_split:
  assumes "h mod 64 + a \<le> 63" "h + a \<le> t"
  shows "positions h t = [h..<h + a] @ positions (h + a) t"
proof -
  have "[h..<t] = [h..<h + a] @ [h + a..<t]" using upt_add_eq_append [of h "h + a" "t - (h + a)"] assms(2) by simp
  moreover have "p mod 64 \<noteq> 63" if "p \<in> set [h..<h + a]" for p
  proof -
    from that obtain j where "p = h + j" "j < a" by (auto simp: le_iff_add)
    then show ?thesis using assms(1) same_lap(1) [of h j] by simp
  qed
  ultimately show ?thesis by (simp add: positions_def)
qed

lemma positions_skip: "h mod 64 = 63 \<Longrightarrow> positions h t = positions (Suc h) t"
  by (cases "h < t") (auto simp: positions_cons, simp add: positions_def)

text \<open>
  The end of a steal of \<open>a\<close> slots from position \<open>h\<close> on, at a moment when the head is moved already: a
  thief that took the last slot destroys the block, any other marks its slots.
\<close>

lemma take_to_end:
  assumes st: "stock blk g h t xs q" and hd: "head_at blk (h + a + 1) t q" and a: "h mod 64 + a = 63" "h + a \<le> t"
  shows "\<exists>q'. block_destroy iquiet (blk (h div 64)) (h mod 64) q = Some q' \<and> irep q' (drop a xs)"
proof -
  let ?H = "h div 64" and ?T = "t div 64" and ?i = "h mod 64"
  note d = stockD [OF st]
  have lap: "(h + a) mod 64 = 63" "(h + a) div 64 = ?H" using same_lap [of h a] a(1) by simp_all
  have ht: "h + a + 1 \<le> t" using a(2) d(7) lap(1) by (cases "h + a = t") auto
  have nx: "(h + a + 1) div 64 = Suc ?H" "(h + a + 1) mod 64 = 0" using next_lap [OF lap(1)] lap(2) by simp_all
  have lt: "?H < ?T" using div_le_mono [OF ht, of 64] nx(1) by simp
  have "state (g (64 * ?H + i)) AND READ \<noteq> 0" if "i < ?i" for i
    using d(10) [of "64 * ?H + i"] that mult_div_mod_eq [of 64 h] by (simp add: WRITE_def READ_def)
  then obtain k where k: "block_destroy iquiet (blk ?H) ?i q = block_free (blk ?H) (q\<lparr>clock := k\<rparr>)"
    using destroy_all_read [OF d(1) order_refl d(11), of ?i] a by auto
  obtain bs where bs: "block_free (blk ?H) (q\<lparr>clock := k\<rparr>) = Some (q\<lparr>clock := k, blocks := bs\<rparr>)" "grid blk (Suc ?H) ?T bs (next_block q) g"
    using grid_free_first [of blk ?H ?T "q\<lparr>clock := k\<rparr>" _ g] d(1) lt by auto
  have "map g (positions (h + a + 1) t) = map written (drop a xs)"
    using arg_cong [OF d(8), of "drop a"] positions_split [of h a t] a positions_skip [OF lap(1)] by (simp add: drop_map)
  moreover have "h + a + 1 = 64 * Suc ?H"
  proof -
    have "h + a = 64 * ?H + (?i + a)" by simp
    then show ?thesis using a(1) by simp
  qed
  ultimately have "stock blk g (h + a + 1) t (drop a xs) (q\<lparr>clock := k, blocks := bs\<rparr>)"
    using d bs(2) nx ht by (simp add: stock_def)
  then show ?thesis using k bs(1) hd by (auto simp: irep_def)
qed

lemma take_within:
  assumes st: "stock blk g h t xs q" and hd: "head_at blk (h + a) t q" and a: "h mod 64 + a < 63" "h + a \<le> t"
  shows "\<exists>q'. mark_read iquiet (blk (h div 64)) (h mod 64) [h mod 64..<h mod 64 + a] q = Some q' \<and> irep q' (drop a xs)"
proof -
  let ?H = "h div 64" and ?T = "t div 64" and ?i = "h mod 64"
  note d = stockD [OF st]
  have lap: "(h + a) mod 64 = ?i + a" "(h + a) div 64 = ?H" using same_lap [of h a] a(1) by simp_all
  have le: "?i + a \<le> 63" using a(1) by simp
  have hi: "64 * ?H + ?i = h" by simp
  have wr: "state (g p) = WRITE" if "p \<in> set [h..<h + a]" for p
  proof -
    have "p \<in> set (positions h t)" using that positions_split [OF le a(2)] by simp
    then have "g p \<in> set (map written xs)" unfolding d(8) [symmetric] by simp
    then show ?thesis by (auto simp: written_def)
  qed
  have "state (g (64 * ?H + j)) AND DESTROY = 0" if "?i \<le> j" "j < ?i + a" for j
  proof -
    have "h \<le> 64 * ?H + j" "64 * ?H + j < h + a" using that hi by linarith+
    then show ?thesis using wr [of "64 * ?H + j"] by (simp add: WRITE_def DESTROY_def)
  qed
  then obtain k bs where k: "mark_read iquiet (blk ?H) ?i [?i..<?i + a] q = Some (q\<lparr>clock := k, blocks := bs\<rparr>)"
    "grid blk ?H ?T bs (next_block q) (marked h (h + a) g)"
    using mark_read_grid [OF d(1) order_refl d(11) le, of ?i] unfolding hi by blast
  have "map (marked h (h + a) g) (positions (h + a) t) = map g (positions (h + a) t)"
    by (rule map_cong) (auto simp: positions_def marked_def)
  also have "\<dots> = map written (drop a xs)"
    using arg_cong [OF d(8), of "drop a"] positions_split [OF le a(2)] by (simp add: drop_map)
  finally have "stock blk (marked h (h + a) g) (h + a) t (drop a xs) (q\<lparr>clock := k, blocks := bs\<rparr>)"
    using d k(2) lap a(2) wr by (auto simp: stock_def marked_def)
  then show ?thesis using k(1) hd by (auto simp: irep_def)
qed


lemma steal_start_quiet:
  assumes "head_at blk h t q"
  shows "steal_start iquiet q = Some (head_index q, blk (h div 64), offset_of (head_index q), q\<lparr>clock := Suc (clock q)\<rparr>)"
  using assms by (simp add: steal_start.simps offset_end head_at_def Let_def)

text \<open>The head index after a move of \<open>a\<close> positions, with the flag as the code computes it.\<close>

lemma head_to_next_quiet:
  assumes st: "stock blk g h t xs q" and lap: "h div 64 < t div 64" and p: "pos nh = 64 * (h div 64) + 63"
  shows "\<exists>k i. head_to_next iquiet (blk (h div 64)) nh q = Some (q\<lparr>clock := k, head_block := blk (Suc (h div 64)), head_index := i\<rparr>)
    \<and> head_at blk (64 * Suc (h div 64)) t (q\<lparr>clock := k, head_block := blk (Suc (h div 64)), head_index := i\<rparr>)"
proof -
  let ?H = "h div 64" and ?T = "t div 64" and ?i = "(nh AND NOT HAS_NEXT) + push_bit SHIFT 1"
  note d = stockD [OF st]
  have b: "blocks q (blk ?H) = Some (lap_block blk ?T g ?H)" "blocks q (blk (Suc ?H)) = Some (lap_block blk ?T g (Suc ?H))"
    using gridD(4) [OF d(1)] lap by simp_all
  have "64 * ?H \<le> h" by simp
  then have "64 * ?H + 63 + 1 < 2 ^ 63" using d(5,6) by simp
  then have i: "pos ?i = 64 * Suc ?H" "even (unat ?i)"
    using pos_add [of "nh AND NOT HAS_NEXT" 1] pos_clear [of nh] p by simp_all
  let ?j = "if Suc ?H < ?T then ?i OR HAS_NEXT else ?i"
  have "head_to_next iquiet (blk ?H) nh q =
      Some (q\<lparr>clock := clock q + 3, head_block := blk (Suc ?H), head_index := ?j\<rparr>)"
    using b lap by (simp add: head_to_next_def block_wait_next.simps lap_block_def Let_def)
  moreover have "head_at blk (64 * Suc ?H) t (q\<lparr>clock := clock q + 3, head_block := blk (Suc ?H), head_index := ?j\<rparr>)"
    using i pos_or [of ?i] by (simp add: head_at_def)
  ultimately show ?thesis by blast
qed

text \<open>Where the head is after a move of \<open>a\<close> positions.\<close>

definition after :: "nat \<Rightarrow> nat \<Rightarrow> nat" where
  "after h a = (if h mod 64 + a = 63 then h + a + 1 else h + a)"

lemma move_head:
  assumes st: "stock blk g h t xs q" and hd: "head_block q = blk (h div 64)" "head_index q = nh"
    and a: "h mod 64 + a \<le> 63" "h + a \<le> t" and nh: "pos nh = h + a" "odd (unat nh) \<longrightarrow> h div 64 < t div 64"
  shows "\<exists>q'. (if h mod 64 + a = 63 then head_to_next iquiet (blk (h div 64)) nh q else Some q) = Some q'
    \<and> stock blk g h t xs q' \<and> head_at blk (after h a) t q'"
proof (cases "h mod 64 + a = 63")
  case True
  have e: "h + a = 64 * (h div 64) + (h mod 64 + a)" by simp
  then have p: "pos nh = 64 * (h div 64) + 63" and af: "after h a = 64 * Suc (h div 64)" using True nh(1) by (simp_all add: after_def)
  have "h + a \<noteq> t" using stockD(7) [OF st] True same_lap(1) [of h a] by auto
  then have "64 * Suc (h div 64) \<le> t" using a(2) p nh(1) by simp
  from div_le_mono [OF this, of 64] have lt: "h div 64 < t div 64" by simp
  from head_to_next_quiet [OF st lt p] show ?thesis using True st af by auto
next
  case False
  then have "(h + a) mod 64 \<noteq> 63" "(h + a) div 64 = h div 64" using same_lap [of h a] a(1) by simp_all
  then show ?thesis using False st hd nh by (auto simp: head_at_def after_def)
qed

lemma finish_take:
  assumes st: "stock blk g h t xs q" and hd: "head_at blk (after h a) t q" and a: "h mod 64 + a \<le> 63" "h + a \<le> t"
  shows "\<exists>q'. (if h mod 64 + a = 63 then block_destroy iquiet (blk (h div 64)) (h mod 64) q
      else mark_read iquiet (blk (h div 64)) (h mod 64) [h mod 64..<h mod 64 + a] q) = Some q' \<and> irep q' (drop a xs)"
  using take_to_end [OF st, of a] take_within [OF st, of a] hd a by (auto simp: after_def split: if_splits)

lemma task_slot:
  assumes st: "stock blk g h t xs q" and a: "h mod 64 + a \<le> 63" "h + a \<le> t" "j < a"
  shows "slot_get (blk (h div 64)) (h mod 64 + j) q = Some (written (xs ! j))"
proof -
  note d = stockD [OF st]
  have len: "length xs = a + length (positions (h + a) t)"
    using arg_cong [OF d(8), of length] positions_split [OF a(1,2)] by simp
  have "map g (positions h t) ! j = map written xs ! j" using d(8) by simp
  then have "g (h + j) = written (xs ! j)" using positions_split [OF a(1,2)] a(3) len by (simp add: nth_append)
  moreover have "64 * (h div 64) + (h mod 64 + j) = h + j" by simp
  ultimately show ?thesis using grid_get [OF d(1) order_refl d(11), of "h mod 64 + j"] a by simp
qed

lemma read_slot:
  assumes "stock blk g h t xs q" "h mod 64 + a \<le> 63" "h + a \<le> t" "j < a"
  shows "slot_wait_write env (blk (h div 64)) (h mod 64 + j) q = Some q"
    "slot_read (blk (h div 64)) (h mod 64 + j) q = Some (xs ! j)"
  using task_slot [OF assms] by (simp_all add: wait_write_ready written_def WRITE_def slot_read_def)

lemma stock_nonempty:
  assumes "stock blk g h t xs q" "h mod 64 \<noteq> 63"
  shows "xs = [] \<longleftrightarrow> h = t"
proof (cases "h = t")
  case True
  then show ?thesis using stockD(8) [OF assms(1)] by (simp add: positions_def)
next
  case False
  then have "positions h t \<noteq> []" using stockD(5) [OF assms(1)] assms(2) by (simp add: positions_cons)
  then show ?thesis using False stockD(8) [OF assms(1)] by auto
qed

text \<open>One more slot can always be taken while there is a task: it ends at the latest with its block.\<close>

lemma one_slot: "h mod 64 \<noteq> 63 \<Longrightarrow> h mod 64 + 1 \<le> (63 :: nat)"
  using mod_less_divisor [of 64 h] by linarith

lemma mark_read_one: "mark_read env p c [i] q = do {
    (old, q) \<leftarrow> slot_fetch_or p i READ (gap env q);
    if old AND DESTROY \<noteq> 0 then block_destroy env p c q else Some q }"
  by (simp cong: if_cong)

lemma steal_take_quiet:
  assumes st: "stock blk g h t (x # ys) q" and hd: "head_block q = blk (h div 64)" "head_index q = nh"
    and h: "h mod 64 \<noteq> 63" "h < t" and nh: "pos nh = h + 1" "odd (unat nh) \<longrightarrow> h div 64 < t div 64"
    and o: "unat offset = h mod 64" "offset + 1 = BLOCK_CAP \<longleftrightarrow> h mod 64 + 1 = 63"
  shows "\<exists>q'. steal_take iquiet (blk (h div 64)) offset nh q = Some (Success x, q') \<and> irep q' ys"
proof -
  have a: "h mod 64 + 1 \<le> 63" "h + 1 \<le> t" using one_slot [OF h(1)] h(2) by simp_all
  obtain q2 where q2: "(if h mod 64 + 1 = 63 then head_to_next iquiet (blk (h div 64)) nh q else Some q) = Some q2"
    "stock blk g h t (x # ys) q2" "head_at blk (after h 1) t q2" using move_head [OF st hd a nh] by blast
  let ?q3 = "q2\<lparr>clock := Suc (clock q2)\<rparr>"
  have st3: "stock blk g h t (x # ys) ?q3" "head_at blk (after h 1) t ?q3" using q2(2,3) by simp_all
  note rd = read_slot [OF st3(1) a zero_less_one, simplified]
  obtain q4 where q4: "(if h mod 64 + 1 = 63 then block_destroy iquiet (blk (h div 64)) (h mod 64) ?q3
    else mark_read iquiet (blk (h div 64)) (h mod 64) [h mod 64..<h mod 64 + 1] ?q3) = Some q4" "irep q4 (drop 1 (x # ys))"
    using finish_take [OF st3 a] by blast
  have "steal_take iquiet (blk (h div 64)) offset nh q = Some (Success x, q4)"
    unfolding steal_take_def o using q2(1) q4(1) rd
    by (cases "h mod 64 + 1 = 63") (simp_all add: mark_read_one del: mark_read.simps Option.bind_assoc)
  then show ?thesis using q4(2) by simp
qed

lemma injector_steal_quiet:
  assumes "irep q xs"
  shows "\<exists>res q'. injector_steal iquiet spurious q = Some (res, q') \<and> (case res of
      Empty \<Rightarrow> xs = [] \<and> irep q' []
    | Retry \<Rightarrow> (\<exists>k. spurious k) \<and> irep q' xs
    | Success x \<Rightarrow> \<exists>ys. xs = x # ys \<and> irep q' ys)"
proof -
  obtain blk g h t where st: "stock blk g h t xs q" and hd: "head_at blk h t q" using assms by (auto simp: irep_def)
  note d = stockD [OF st]
  have hi: "pos (head_index q) = h" "h mod 64 \<noteq> 63" "odd (unat (head_index q)) \<longrightarrow> h div 64 < t div 64" "head_block q = blk (h div 64)"
    using hd by (auto simp: head_at_def)
  let ?nh = "head_index q + push_bit SHIFT 1" and ?e = "even (unat (head_index q))"
  have nh: "pos ?nh = h + 1" "even (unat ?nh) \<longleftrightarrow> ?e"
    using pos_add [of "head_index q" 1] hi(1) d(5,6) by simp_all
  let ?mh = "if ?e \<and> h div 64 \<noteq> t div 64 then ?nh OR HAS_NEXT else ?nh"
  let ?k = "Suc (if ?e then Suc (Suc (clock q)) else Suc (clock q))"
  have steal: "injector_steal iquiet spurious q =
      (if ?e \<and> h = t then Some (Empty, q\<lparr>clock := Suc (Suc (clock q))\<rparr>)
       else if spurious ?k then Some (Retry, q\<lparr>clock := ?k\<rparr>)
       else steal_take iquiet (blk (h div 64)) (offset_of (head_index q)) ?mh (q\<lparr>clock := ?k, head_index := ?mh\<rparr>))"
    using nh(2) by (simp add: injector_steal_def steal_start_quiet [OF hd] Let_def has_next_even drop_bit_eq_pos lap_eq_pos d(3) hi(1))
  show ?thesis
  proof (cases "h = t")
    case True
    then show ?thesis using steal hi(3) stock_nonempty [OF st hi(2)] assms by auto
  next
    case False
    obtain x ys where xs: "xs = x # ys" using stock_nonempty [OF st hi(2)] False by (cases xs) auto
    have mh: "pos ?mh = h + 1" "odd (unat ?mh) \<longrightarrow> h div 64 < t div 64"
      using nh hi(3) d(11) pos_or(1) [of ?nh] by auto
    have "\<exists>q'. steal_take iquiet (blk (h div 64)) (offset_of (head_index q)) ?mh (q\<lparr>clock := ?k, head_index := ?mh\<rparr>) = Some (Success x, q') \<and> irep q' ys"
      by (rule steal_take_quiet [OF _ _ _ hi(2) _ mh, where g = g])
        (use st xs False d(5) hi in \<open>simp_all add: offset_pos offset_last\<close>)
    then show ?thesis using steal False assms xs by auto
  qed
qed

section \<open>Adding tasks\<close>

lemma grid_extend:
  assumes gr: "grid blk H T bs nb g" and p: "p \<notin> blk ` {H..T}" "p < nb'" "nb \<le> nb'"
  shows "grid (blk(Suc T := p)) H (Suc T) (bs(p \<mapsto> block_new, blk T \<mapsto> (lap_block blk T g T)\<lparr>bnext := Some p\<rparr>)) nb'
    (\<lambda>x. if 64 * Suc T \<le> x then empty_slot else g x)"
proof -
  let ?g = "\<lambda>x. if 64 * Suc T \<le> x then empty_slot else g x" and ?b = "blk(Suc T := p)"
  note d = gridD [OF gr]
  have new: "lap_block ?b (Suc T) ?g (Suc T) = block_new"
    using block_new_lap [of ?g "Suc T" ?b] by simp
  have old: "lap_block ?b (Suc T) ?g L = (if L = T then (lap_block blk T g T)\<lparr>bnext := Some p\<rparr> else lap_block blk T g L)" if "L \<le> T" for L
    using that by (auto simp: lap_block_def)
  have set: "{H..Suc T} = insert (Suc T) {H..T}" using d(1) by auto
  have img: "?b ` {H..T} = blk ` {H..T}" by (rule image_cong) auto
  have "inj_on ?b {H..Suc T}" unfolding set using d(2) p(1) img by (auto simp: inj_on_def)
  moreover have "dom (bs(p \<mapsto> block_new, blk T \<mapsto> (lap_block blk T g T)\<lparr>bnext := Some p\<rparr>)) = ?b ` {H..Suc T}"
    unfolding set using d(1,3) img by auto
  moreover have "?b L < nb' \<and> (bs(p \<mapsto> block_new, blk T \<mapsto> (lap_block blk T g T)\<lparr>bnext := Some p\<rparr>)) (?b L) = Some (lap_block ?b (Suc T) ?g L)"
    if "L \<in> {H..Suc T}" for L
  proof (cases "L = Suc T")
    case True
    then show ?thesis using new p d(1) by auto
  next
    case False
    then have L: "H \<le> L" "L \<le> T" using that by auto
    then have "blk L \<noteq> p" using p(1) by auto
    then show ?thesis using L old [OF L(2)] d(4,5) [OF L] d(6) [OF L d(1) order_refl] p(3) by auto
  qed
  ultimately show ?thesis using d(1) by (simp add: grid_def)
qed

lemma push_slot:
  assumes gr: "grid blk H T (blocks q) nb g" and L: "H \<le> t div 64" "t div 64 \<le> T" and t: "t mod 64 < 63" "g t = empty_slot"
  shows "\<exists>bs. slot_write (blk (t div 64)) (t mod 64) x (q\<lparr>clock := Suc (clock q)\<rparr>) \<bind> (\<lambda>q. slot_fetch_or (blk (t div 64)) (t mod 64) WRITE (q\<lparr>clock := Suc (clock q)\<rparr>))
      = Some (0, q\<lparr>clock := Suc (Suc (clock q)), blocks := bs\<rparr>)
    \<and> grid blk H T bs nb (g(t := written x))"
proof -
  have e: "64 * (t div 64) + t mod 64 = t" by simp
  have gr1: "grid blk H T (blocks (q\<lparr>clock := Suc (clock q)\<rparr>)) nb g" using gr by simp
  obtain bs where bs: "slot_write (blk (t div 64)) (t mod 64) x (q\<lparr>clock := Suc (clock q)\<rparr>) = Some (q\<lparr>clock := Suc (clock q), blocks := bs\<rparr>)"
    "grid blk H T bs nb (g(t := (g t)\<lparr>stask := Some x\<rparr>))"
    using grid_write [OF gr1 L t(1), of x] unfolding e by auto
  let ?q = "q\<lparr>clock := Suc (Suc (clock q)), blocks := bs\<rparr>"
  have gr2: "grid blk H T (blocks ?q) nb (g(t := (g t)\<lparr>stask := Some x\<rparr>))" using bs(2) by simp
  obtain bs' where bs': "slot_fetch_or (blk (t div 64)) (t mod 64) WRITE ?q = Some (0, ?q\<lparr>blocks := bs'\<rparr>)"
    "grid blk H T bs' nb (g(t := written x))"
    using grid_fetch_or [OF gr2 L t(1), of WRITE] t(2) unfolding e by (auto simp: empty_slot_def written_def)
  show ?thesis using bs(1) bs' by (intro exI [of _ bs']) simp
qed

lemma stock_pushed:
  assumes st: "stock blk g h t xs q" and gr: "grid blk' (h div 64) (t' div 64) (blocks q') (next_block q') (g'(t := written x))"
    and g: "\<And>p. p < t \<Longrightarrow> g' p = g p" and tb: "tail_block q' = blk' (t' div 64)"
    and t': "t' = (if t mod 64 = 62 then t + 2 else t + 1)" "pos (tail_index q') = t'" "even (unat (tail_index q'))" "t' < 2 ^ 62"
    and e: "\<And>p. t' \<le> p \<Longrightarrow> p < 64 * (t' div 64) + 63 \<Longrightarrow> g' p = empty_slot"
  shows "stock blk' (g'(t := written x)) h t' (xs @ [x]) q'"
proof -
  note d = stockD [OF st]
  have lt: "t mod 64 < 64" by simp
  have "t' mod 64 \<noteq> 63"
  proof (cases "t mod 64 = 62")
    case True
    then show ?thesis using t'(1) next_lap(2) [of "t + 1"] same_lap(1) [of t 1] by simp
  next
    case False
    then show ?thesis using t'(1) d(7) lt same_lap(1) [of t 1] by simp
  qed
  moreover have "positions h t' = positions h t @ [t]"
  proof (cases "t mod 64 = 62")
    case True
    then have "Suc t mod 64 = 63" using same_lap(1) [of t 1] by simp
    then show ?thesis using t'(1) True d(5) positions_snoc [of h "Suc t"] positions_snoc [of h t] by simp
  next
    case False
    then show ?thesis using t'(1) d(5,7) positions_snoc [of h t] by simp
  qed
  moreover have "map (g'(t := written x)) (positions h t) = map g (positions h t)"
    by (rule map_cong) (auto simp: positions_def g)
  moreover have "state ((g'(t := written x)) p) = WRITE OR READ" if "64 * (h div 64) \<le> p" "p < h" for p
    using d(10) [OF that] that d(5) g by simp
  moreover have "h \<le> t'" "t < t'" using d(5) t'(1) by (auto split: if_splits)
  ultimately show ?thesis using d gr tb t' e by (auto simp: stock_def)
qed

text \<open>The end of a push that does not fill its block.\<close>

lemma push_finish_within:
  assumes st: "stock blk g h t xs q" and hd: "head_at blk h t q" and t: "t mod 64 < 62" "t + 1 < 2 ^ 62"
    and o: "unat offset = t mod 64" "offset + 1 \<noteq> BLOCK_CAP" and nt: "pos nt = t + 1" "even (unat nt)"
  shows "\<exists>q'. push_finish iquiet x nt (blk (t div 64)) offset None (q\<lparr>tail_index := nt\<rparr>) = Some q' \<and> irep q' (xs @ [x])"
proof -
  note d = stockD [OF st]
  have lap: "(t + 1) div 64 = t div 64" using same_lap(2) [of t 1] t(1) by simp
  have em: "g t = empty_slot" by (rule d(9)) (use t(1) mult_div_mod_eq [of 64 t] in linarith)+
  let ?q = "q\<lparr>tail_index := nt\<rparr>"
  have gr: "grid blk (h div 64) (t div 64) (blocks ?q) (next_block q) g" using d(1) by simp
  have t63: "t mod 64 < 63" using t(1) by simp
  obtain bs where bs: "slot_write (blk (t div 64)) (t mod 64) x (?q\<lparr>clock := Suc (clock ?q)\<rparr>) \<bind> (\<lambda>q. slot_fetch_or (blk (t div 64)) (t mod 64) WRITE (q\<lparr>clock := Suc (clock q)\<rparr>))
      = Some (0, ?q\<lparr>clock := Suc (Suc (clock q)), blocks := bs\<rparr>)"
    "grid blk (h div 64) (t div 64) bs (next_block q) (g(t := written x))"
    using push_slot [OF gr d(11) order_refl t63 em, of x] by auto
  let ?q' = "?q\<lparr>clock := Suc (Suc (clock q)), blocks := bs\<rparr>"
  have "stock blk (g(t := written x)) h (t + 1) (xs @ [x]) ?q'"
    by (rule stock_pushed [OF st]) (use bs(2) lap d t nt in \<open>auto simp del: blocks_clock\<close>)
  moreover have "head_at blk h (t + 1) ?q'" using hd lap by (simp add: head_at_def)
  moreover have "push_finish iquiet x nt (blk (t div 64)) offset None ?q = Some ?q'"
    using bs(1) o by (auto simp: push_finish_def split: bind_splits)
  ultimately show ?thesis unfolding irep_def by blast
qed

text \<open>
  The end of a push into the last slot of a block: the block \<open>p\<close>, allocated in advance and not yet
  part of the queue, becomes the next block.
\<close>

definition boxed :: "nat \<Rightarrow> 'a injector \<Rightarrow> 'a injector \<Rightarrow> bool" where
  "boxed p q0 q \<longleftrightarrow> blocks q p = Some block_new \<and> p < next_block q \<and> q0 = q\<lparr>blocks := (blocks q)(p := None)\<rparr>"

lemma push_finish_last:
  assumes st: "stock blk g h t xs q0" and hd: "head_at blk h t q0" and bx: "boxed p q0 q" and t: "t mod 64 = 62" "t + 2 < 2 ^ 62"
    and o: "unat offset = t mod 64" "offset + 1 = BLOCK_CAP" and nt: "pos nt = t + 1" "even (unat nt)"
  shows "\<exists>q'. push_finish iquiet x nt (blk (t div 64)) offset (Some p) (q\<lparr>tail_index := nt\<rparr>) = Some q' \<and> irep q' (xs @ [x])"
proof -
  let ?H = "h div 64" and ?T = "t div 64"
  note d = stockD [OF st]
  have q0: "q0 = q\<lparr>blocks := (blocks q)(p := None)\<rparr>" and p: "blocks q p = Some block_new" "p < next_block q" using bx by (auto simp: boxed_def)
  have gr: "grid blk ?H ?T ((blocks q)(p := None)) (next_block q) g" using d(1) by (simp add: q0)
  have out: "p \<notin> blk ` {?H..?T}" using gridD(3) [OF gr] by (metis domIff fun_upd_same)
  have e: "t + 2 = 64 * Suc ?T" and lap: "(t + 2) div 64 = Suc ?T" using t(1) mult_div_mod_eq [of 64 t] by simp_all
  let ?blk = "blk(Suc ?T := p)" and ?g = "\<lambda>x. if 64 * Suc ?T \<le> x then empty_slot else g x"
  let ?last = "(lap_block blk ?T g ?T)\<lparr>bnext := Some p\<rparr>" and ?ni = "nt + push_bit SHIFT 1"
  have bT: "blocks q (blk ?T) = Some (lap_block blk ?T g ?T)" using gridD(4) [OF gr d(11) order_refl] out d(11) by (auto split: if_splits)
  have blocks2: "((blocks q)(p := None))(p \<mapsto> block_new, blk ?T \<mapsto> ?last) = (blocks q)(blk ?T \<mapsto> ?last)" using p(1) by (auto simp: fun_eq_iff)
  let ?q2 = "q\<lparr>tail_block := p, tail_index := ?ni, clock := clock q + 3, blocks := (blocks q)(blk ?T \<mapsto> ?last)\<rparr>"
  have gr2: "grid ?blk ?H (Suc ?T) (blocks ?q2) (next_block q) ?g"
    using grid_extend [OF gr out p(2) order_refl] unfolding blocks2 by simp
  have ni: "pos ?ni = t + 2" "even (unat ?ni)" using pos_add [of nt 1] nt t(2) by simp_all
  have em: "?g t = empty_slot" using d(9) [of t] t(1) mult_div_mod_eq [of 64 t] by simp
  have t63: "t mod 64 < 63" and Tle: "?T \<le> Suc ?T" using t(1) by simp_all
  obtain bs where bs: "slot_write (?blk ?T) (t mod 64) x (?q2\<lparr>clock := Suc (clock ?q2)\<rparr>) \<bind> (\<lambda>q. slot_fetch_or (?blk ?T) (t mod 64) WRITE (q\<lparr>clock := Suc (clock q)\<rparr>))
      = Some (0, ?q2\<lparr>clock := Suc (Suc (clock ?q2)), blocks := bs\<rparr>)"
    "grid ?blk ?H (Suc ?T) bs (next_block q) (?g(t := written x))"
    using push_slot [OF gr2 d(11) Tle t63 em, of x] by blast
  let ?q' = "?q2\<lparr>clock := Suc (Suc (clock ?q2)), blocks := bs\<rparr>"
  have "stock ?blk (?g(t := written x)) h (t + 2) (xs @ [x]) ?q'"
    by (rule stock_pushed [OF st]) (use bs(2) lap e t ni in \<open>auto simp del: blocks_clock\<close>)
  moreover have "head_at ?blk h (t + 2) ?q'" using hd lap d(11) by (auto simp: head_at_def q0)
  moreover have "push_finish iquiet x nt (blk ?T) offset (Some p) (q\<lparr>tail_index := nt\<rparr>) = Some ?q'"
    using bs(1) o bT by (auto simp: push_finish_def numeral_3_eq_3 split: bind_splits)
  ultimately show ?thesis unfolding irep_def by blast
qed

text \<open>
  The loop of \<open>push\<close> with no other thread: the \<^verbatim>\<open>compare_exchange_weak\<close> may fail for no reason, but
  not for ever.
\<close>

definition box_for :: "nat \<Rightarrow> nat option \<Rightarrow> 'a injector \<Rightarrow> 'a injector \<Rightarrow> bool" where
  "box_for t box q0 q \<longleftrightarrow> (case box of None \<Rightarrow> q0 = q | Some p \<Rightarrow> t mod 64 = 62 \<and> boxed p q0 q)"

lemma box_for_clock: "box_for t box q0 q \<Longrightarrow> box_for t box (q0\<lparr>clock := c\<rparr>) (q\<lparr>clock := c\<rparr>)"
  by (auto simp: box_for_def boxed_def split: option.splits)

lemma box_for_tail: "box_for t box q0 q \<Longrightarrow> tail_index q0 = tail_index q \<and> tail_block q0 = tail_block q"
  by (auto simp: box_for_def boxed_def split: option.splits)

lemma box_alloc:
  assumes st: "stock blk g h t xs q" and hd: "head_at blk h t q"
  shows "\<exists>q0. stock blk g h t xs q0 \<and> head_at blk h t q0 \<and> boxed (next_block q) q0 (snd (block_alloc q))"
proof -
  note d = stockD [OF st]
  have "next_block q \<notin> blk ` {h div 64..t div 64}" using gridD(5) [OF d(1)] by fastforce
  then have fresh: "blocks q (next_block q) = None" using gridD(3) [OF d(1)] by auto
  let ?q0 = "q\<lparr>next_block := Suc (next_block q)\<rparr>"
  have "grid blk (h div 64) (t div 64) (blocks q) (Suc (next_block q)) g" using d(1) by (auto simp: grid_def)
  then have "stock blk g h t xs ?q0" using st by (simp add: stock_def)
  moreover have "head_at blk h t ?q0" using hd by (simp add: head_at_def)
  moreover have "boxed (next_block q) ?q0 (snd (block_alloc q))"
    using fresh by (simp add: boxed_def block_alloc_def fun_upd_idem)
  ultimately show ?thesis by blast
qed

lemma box_ready:
  assumes st: "stock blk g h t xs q0" and hd: "head_at blk h t q0" and bx: "box_for t box q0 q" "t mod 64 \<noteq> 62 \<longrightarrow> box = None"
  obtains box1 q01 q1 where "(if t mod 64 = 62 \<and> box = None then (Some (next_block q), snd (block_alloc q)) else (box, q)) = (box1, q1)"
    "stock blk g h t xs q01" "head_at blk h t q01" "box_for t box1 q01 q1" "box1 = None \<longleftrightarrow> t mod 64 \<noteq> 62"
    "clock q1 = clock q" "tail_index q1 = tail_index q" "head_index q1 = head_index q"
proof (cases "t mod 64 = 62 \<and> box = None")
  case True
  then have "q0 = q" using bx(1) by (simp add: box_for_def)
  with box_alloc [of blk g h t xs q] st hd obtain q01 where
    "stock blk g h t xs q01" "head_at blk h t q01" "boxed (next_block q) q01 (snd (block_alloc q))" by auto
  then show ?thesis using True by (intro that [of "Some (next_block q)" "snd (block_alloc q)" q01]) (auto simp: box_for_def block_alloc_def)
next
  case False
  then show ?thesis using st hd bx by (intro that [of box q q0]) auto
qed

text \<open>A push leaves the head alone.\<close>

lemma slot_put_head: "slot_put p i s q = Some q' \<Longrightarrow> head_index q' = head_index q"
  by (auto simp: slot_put_def split: bind_splits if_splits)

lemma push_finish_head: "push_finish iquiet x nt b c box q = Some q' \<Longrightarrow> head_index q' = head_index q"
  by (auto simp: push_finish_def slot_write_def slot_fetch_or_def block_free_def Let_def dest!: slot_put_head
      split: bind_splits if_splits option.splits)

lemma push_loop_quiet:
  assumes "stock blk g h t xs q0" "head_at blk h t q0" "t + 2 < 2 ^ 62" "\<forall>k \<ge> n. \<not> spurious k"
    "box_for t box q0 q" "t mod 64 \<noteq> 62 \<longrightarrow> box = None"
  shows "\<exists>q'. push_loop iquiet spurious x (tail_index q) (blk (t div 64)) box q = Some q' \<and> irep q' (xs @ [x]) \<and> head_index q' = head_index q"
  using assms
proof (induction "n - clock q" arbitrary: q q0 box rule: less_induct)
  case less
  note d = stockD [OF less.prems(1)]
  have pt: "pos (tail_index q) = t" "even (unat (tail_index q))" using box_for_tail [OF less.prems(5)] d(3,4) by simp_all
  let ?nt = "tail_index q + push_bit SHIFT 1" and ?o = "offset_of (tail_index q)"
  have nt: "pos ?nt = t + 1" "even (unat ?nt)" using pos_add [of "tail_index q" 1] pt less.prems(3) by simp_all
  have o: "?o \<noteq> BLOCK_CAP" "unat ?o = t mod 64" "?o + 1 = BLOCK_CAP \<longleftrightarrow> t mod 64 = 62"
    using pt d(7) by (simp_all add: offset_end offset_pos offset_last)
  obtain box1 q01 q1 where b1: "(if t mod 64 = 62 \<and> box = None then (Some (next_block q), snd (block_alloc q)) else (box, q)) = (box1, q1)"
    "stock blk g h t xs q01" "head_at blk h t q01" "box_for t box1 q01 q1" "box1 = None \<longleftrightarrow> t mod 64 \<noteq> 62"
    "clock q1 = clock q" "tail_index q1 = tail_index q" "head_index q1 = head_index q" by (rule box_ready [OF less.prems(1,2,5,6)])
  let ?q2 = "q1\<lparr>clock := Suc (clock q)\<rparr>" and ?r2 = "q01\<lparr>clock := Suc (clock q)\<rparr>"
  let ?q3 = "q1\<lparr>clock := Suc (Suc (clock q))\<rparr>" and ?r3 = "q01\<lparr>clock := Suc (Suc (clock q))\<rparr>"
  have tb: "tail_block q1 = blk (t div 64)" using box_for_tail [OF b1(4)] stockD(2) [OF b1(2)] by simp
  have step: "push_loop iquiet spurious x (tail_index q) (blk (t div 64)) box q =
      (if \<not> spurious (Suc (clock q)) then push_finish iquiet x ?nt (blk (t div 64)) ?o box1 (?q2\<lparr>tail_index := ?nt\<rparr>)
       else push_loop iquiet spurious x (tail_index ?q3) (blk (t div 64)) box1 ?q3)"
    using b1(1,6,7) o tb by (subst push_loop.simps) (auto simp: Let_def block_alloc_def split: if_splits)
  show ?case
  proof (cases "spurious (Suc (clock q))")
    case True
    then have "n - clock ?q3 < n - clock q" using less.prems(4) by (auto simp: not_le [symmetric])
    moreover have "box_for t box1 ?r3 ?q3" using b1(4) by (rule box_for_clock)
    ultimately show ?thesis using less.hyps [of ?q3 ?r3 box1] step True b1 less.prems(3,4) by auto
  next
    case False
    have st2: "stock blk g h t xs ?r2" "head_at blk h t ?r2" "box_for t box1 ?r2 ?q2"
      using b1(2,3) box_for_clock [OF b1(4)] by simp_all
    have head: "head_index q' = head_index q"
      if "push_finish iquiet x ?nt (blk (t div 64)) ?o box1 (?q2\<lparr>tail_index := ?nt\<rparr>) = Some q'" for q'
      using push_finish_head [OF that] b1(8) by simp
    show ?thesis
    proof (cases box1)
      case None
      then have "t mod 64 < 62" "?r2 = ?q2" using b1(5) d(7) st2(3) mod_less_divisor [of 64 t] by (auto simp: box_for_def)
      then show ?thesis using push_finish_within [of blk g h t xs ?q2 ?o ?nt x] st2 o nt None False step less.prems(3) head by auto
    next
      case (Some p)
      then have "t mod 64 = 62" "boxed p ?r2 ?q2" using st2(3) by (auto simp: box_for_def)
      then show ?thesis using push_finish_last [OF st2(1,2), of p ?q2 ?o ?nt x] o nt Some False step less.prems(3) head by auto
    qed
  qed
qed

lemma injector_push_quiet:
  assumes "irep q xs" "pos (tail_index q) + 2 < 2 ^ 62" "\<forall>k \<ge> n. \<not> spurious k"
  shows "\<exists>q'. injector_push iquiet spurious x q = Some q' \<and> irep q' (xs @ [x]) \<and> head_index q' = head_index q"
proof -
  obtain blk g h t where st: "stock blk g h t xs q" and hd: "head_at blk h t q" using assms by (auto simp: irep_def)
  note d = stockD [OF st]
  let ?q = "q\<lparr>clock := Suc (clock q)\<rparr>"
  have "\<exists>q'. push_loop iquiet spurious x (tail_index ?q) (blk (t div 64)) None ?q = Some q' \<and> irep q' (xs @ [x]) \<and> head_index q' = head_index ?q"
    by (rule push_loop_quiet [of blk g h t xs ?q n]) (use st hd assms(2,3) d(3) in \<open>simp_all add: box_for_def\<close>)
  then show ?thesis using d(2) by (simp add: injector_push_def Let_def)
qed

section \<open>The size of a batch\<close>

lemma batch_advance_words:
  assumes hd: "pos head = h" and tl: "pos tail = t" "even (unat tail)" and lt: "h < t" "t < 2 ^ 62"
    and hi: "h mod 64 \<noteq> 63" "odd (unat head) \<longrightarrow> h div 64 < t div 64" and l: "0 < unat limit" "unat limit \<le> 33"
  obtains a nh adv where "batch_advance limit head tail (offset_of head) = (nh, adv)"
    "unat adv = a" "0 < a" "a \<le> unat limit" "h mod 64 + a \<le> 63" "h + a \<le> t"
    "pos (nh + push_bit SHIFT adv) = h + a" "odd (unat (nh + push_bit SHIFT adv)) \<longrightarrow> h div 64 < t div 64"
    "unat (offset_of head + adv) = h mod 64 + a"
proof -
  note goal = that
  let ?o = "offset_of head" and ?H = "h div 64" and ?T = "t div 64"
  have m: "h mod 64 < 63" using hi(1) mod_less_divisor [of 64 h] by linarith
  have o: "unat ?o = h mod 64" using offset_pos [of head] hd by simp
  have fin: thesis if b: "batch_advance limit head tail ?o = (nh, adv)" and a: "unat adv = a" "0 < a" "a \<le> unat limit"
    "h mod 64 + a \<le> 63" "h + a \<le> t" and nh: "pos nh = h" "odd (unat nh) \<longrightarrow> ?H < ?T" for nh adv a
  proof (rule goal [OF b a])
    have "pos nh + a < 2 ^ 63" using nh(1) a(5) lt(2) by simp
    moreover have "adv = of_nat a" unfolding a(1) [symmetric] by simp
    ultimately show "pos (nh + push_bit SHIFT adv) = h + a" "odd (unat (nh + push_bit SHIFT adv)) \<longrightarrow> ?H < ?T"
      using pos_add [of nh a] nh by simp_all
    show "unat (?o + adv) = h mod 64 + a" using o a(1,4) by (simp add: unat_word_ariths)
  qed
  show thesis
  proof (cases "?H = ?T")
    case True
    have ev: "even (unat head)" using hi(2) True by simp
    have u: "unat head = 2 * h" "unat tail = 2 * t" using ev hd tl by (auto simp: pos_def elim!: evenE)
    have "unat (tail - head) = 2 * t - 2 * h" using u lt(1) by (subst unat_sub_le) simp_all
    then have p: "unat (drop_bit SHIFT (tail - head)) = t - h" unfolding pos_drop_bit pos_def by simp
    have "unat (drop_bit SHIFT (tail - head) + 1) = t - h + 1" using p lt(2) by (simp add: unat_word_ariths)
    then have a: "unat (min ((drop_bit SHIFT (tail - head) + 1) div 2) limit) = min ((t - h + 1) div 2) (unat limit)"
      by (simp add: unat_min unat_div)
    have tm: "t mod 64 \<le> 63" using mod_less_divisor [of 64 t] by linarith
    have "64 * ?H + h mod 64 = h" "64 * ?H + t mod 64 = t" using mult_div_mod_eq [of 64 h] mult_div_mod_eq [of 64 t] unfolding True by simp_all
    then have fit: "h mod 64 + (t - h) \<le> 63" using tm lt(1) by linarith
    show thesis
      by (rule fin [where a = "min ((t - h + 1) div 2) (unat limit)", OF _ a])
        (use True ev hd tl hi l lt fit in \<open>auto simp: batch_advance_def has_next_even lap_eq_pos\<close>)
  next
    case False
    then have HT: "?H < ?T" using div_le_mono [of h t 64] lt(1) by simp
    have b: "batch_advance limit head tail ?o = ((if even (unat head) then head OR HAS_NEXT else head), min (BLOCK_CAP - ?o) limit)"
      using False hd tl(1) by (simp add: batch_advance_def has_next_even lap_eq_pos)
    have "unat (BLOCK_CAP - ?o) = 63 - h mod 64" using o m by (subst unat_sub_le) (simp_all add: BLOCK_CAP_def LAP_def)
    then have a: "unat (min (BLOCK_CAP - ?o) limit) = min (63 - h mod 64) (unat limit)" by (simp add: unat_min)
    have "64 * ?H + 64 \<le> 64 * ?T" using mult_le_mono2 [of "Suc ?H" ?T 64] HT by simp
    then have "h + (63 - h mod 64) \<le> t" using mult_div_mod_eq [of 64 h] mult_div_mod_eq [of 64 t] m by linarith
    then show thesis
      by (intro fin [OF b a]) (use HT hd hi l m pos_or [of head] in auto)
  qed
qed

end
