(* ===== verification/Injector_Spec.thy ===== *)
theory Injector_Spec
  imports Injector_Rep
begin

text \<open>
  The rest of the injector at rest: the observers, the destructor and the two batch operations on
  the list of tasks, the interface it provides to thieves, and its properties.
\<close>


section \<open>Observers and destructor\<close>

lemma length_positions: "h \<le> t \<Longrightarrow> length (positions h t) + h + t div 64 = t + h div 64"
proof (induction t)
  case (Suc t)
  show ?case
  proof (cases "h = Suc t")
    case True
    then show ?thesis by (simp add: positions_def)
  next
    case False
    then have le: "h \<le> t" using Suc.prems by simp
    have "Suc t div 64 = t div 64 + (if t mod 64 = 63 then 1 else 0)" by (simp add: div_Suc mod_Suc)
    then show ?thesis using Suc.IH [OF le] positions_snoc [OF le] by simp
  qed
qed (simp add: positions_def)

lemma stock_length:
  assumes "stock blk g h t xs q"
  shows "length xs + h + t div 64 = t + h div 64"
proof -
  have "length xs = length (positions h t)" using arg_cong [OF stockD(8) [OF assms], of length] by simp
  then show ?thesis using length_positions [OF stockD(5) [OF assms]] by simp
qed

lemma clear_flag: "w AND NOT (push_bit SHIFT 1 - 1) = w AND NOT HAS_NEXT"
  by (simp add: SHIFT_def HAS_NEXT_def)

lemma unat_clear: "unat (w AND NOT HAS_NEXT) = 2 * pos w"
  using pos_clear [of w] by (auto simp: pos_def elim!: evenE)

lemma pow2_LAP: "pow2 LAP" "unat LAP = 64"
  by (auto simp: pow2_def LAP_def intro!: bexI [of _ 6])

lemma lap_mask: "drop_bit SHIFT w AND (LAP - 1) = LAP - 1 \<longleftrightarrow> pos w mod 64 = 63"
proof -
  have "unat (drop_bit SHIFT w AND (LAP - 1)) = pos w mod 64"
    using ring_slot_mod [OF pow2_LAP(1), of "drop_bit SHIFT w"] by (simp add: ring_slot_def pos_drop_bit pow2_LAP(2))
  moreover have "unat (LAP - 1) = 63" by (simp add: LAP_def)
  ultimately show ?thesis by (simp add: word_unat_eq_iff)
qed

text \<open>Both indices move back by whole laps, so that the head falls into lap 0.\<close>

lemma rotate_pos:
  assumes "unat w = 2 * p" "64 * H \<le> p" "p < 2 ^ 62" "unat lap = H"
  shows "unat (drop_bit SHIFT (w - push_bit SHIFT (lap * LAP))) = p - 64 * H"
proof -
  have "unat (push_bit SHIFT (lap * LAP)) = 2 * (64 * H)"
    using assms by (simp add: SHIFT_def push_bit_Suc unat_word_ariths LAP_def mod_simps mult.assoc)
  then have "unat (w - push_bit SHIFT (lap * LAP)) = 2 * p - 2 * (64 * H)" using assms by (subst unat_sub_le) simp_all
  then show ?thesis unfolding pos_drop_bit pos_def by simp
qed

lemma count_diff: "\<lbrakk>(n :: nat) + h + T = t + H; h \<le> t; H \<le> T\<rbrakk> \<Longrightarrow> t - h - (T - H) = n"
  by simp

lemma index_len_pos:
  assumes "pos head = h" "pos tail = t" "h \<le> t" "t < 2 ^ 62" "h mod 64 \<noteq> 63" "t mod 64 \<noteq> 63"
  shows "unat (index_len tail head) + h + t div 64 = t + h div 64"
proof -
  let ?t = "tail AND NOT HAS_NEXT" and ?h = "head AND NOT HAS_NEXT" and ?H = "h div 64"
  let ?lap = "drop_bit SHIFT ?h div LAP"
  have ut: "unat ?t = 2 * t" "unat ?h = 2 * h" and p: "pos ?t = t" "pos ?h = h" using unat_clear pos_clear assms(1,2) by simp_all
  have lap: "unat ?lap = ?H" using lap_pos [of ?h] p(2) by simp
  have H: "64 * ?H \<le> h" "64 * ?H \<le> t" using assms(3) by (simp, metis order_trans times_div_less_eq_dividend)
  let ?a = "drop_bit SHIFT (?t - push_bit SHIFT (?lap * LAP))" and ?b = "drop_bit SHIFT (?h - push_bit SHIFT (?lap * LAP))"
  have ab: "unat ?a = t - 64 * ?H" "unat ?b = h - 64 * ?H"
    using rotate_pos [OF ut(1) H(2) assms(4) lap] rotate_pos [OF ut(2) H(1) _ lap] assms(3,4) by simp_all
  have len: "index_len tail head = ?a - ?b - ?a div LAP"
    unfolding index_len_def Let_def clear_flag lap_mask p by (simp only: assms(5,6) if_False)
  have T: "(t - 64 * ?H) div 64 = t div 64 - ?H" by (simp add: div_diff)
  have m: "unat (?a - ?b) = t - h" using ab H assms(3) by (subst unat_sub_le) simp_all
  have cnt: "length (positions h t) + h + t div 64 = t + ?H" by (rule length_positions [OF assms(3)])
  then have le: "t div 64 - ?H \<le> t - h" "h div 64 \<le> t div 64" using assms(3) div_le_mono [OF assms(3), of 64] by simp_all
  have "unat (?a div LAP) = t div 64 - ?H" using ab(1) T by (simp add: unat_div pow2_LAP(2))
  then have "unat (?a - ?b - ?a div LAP) = (t - h) - (t div 64 - ?H)" using m le by (subst unat_sub_le) simp_all
  then show ?thesis unfolding len count_diff [OF cnt assms(3) le(2)] using cnt by simp
qed

lemma injector_len_quiet:
  assumes "irep q xs"
  shows "\<exists>n. injector_len iquiet q = Some n \<and> unat n = length xs"
proof -
  obtain blk g h t where st: "stock blk g h t xs q" and hd: "head_at blk h t q" using assms by (auto simp: irep_def)
  note d = stockD [OF st]
  have "unat (index_len (tail_index q) (head_index q)) + h + t div 64 = t + h div 64"
    by (rule index_len_pos) (use hd d in \<open>auto simp: head_at_def\<close>)
  then have "unat (index_len (tail_index q) (head_index q)) = length xs" using stock_length [OF st] by simp
  then show ?thesis by (subst injector_len.simps) (simp add: Let_def)
qed

lemma injector_is_empty_quiet:
  assumes "irep q xs"
  shows "injector_is_empty iquiet q \<longleftrightarrow> xs = []"
proof -
  obtain blk g h t where st: "stock blk g h t xs q" and hd: "head_at blk h t q" using assms by (auto simp: irep_def)
  then show ?thesis using stock_nonempty [OF st] stockD(3) [OF st]
    by (simp add: injector_is_empty_def Let_def drop_bit_eq_pos head_at_def)
qed

lemma drop_loop_step_lap: "p mod 64 < (63 :: nat) \<Longrightarrow> (p + 1) div 64 = p div 64"
  using same_lap(2) [of p 1] by simp

lemma injector_drop_loop_grid:
  assumes "grid blk (p div 64) (t div 64) (blocks q) nb g" "p \<le> t" "t < 2 ^ 62" "t mod 64 \<noteq> 63"
    "map g (positions p t) = map written xs" "unat w = 2 * p" "unat tw = 2 * t"
  shows "\<exists>q'. injector_drop_loop w tw (blk (p div 64)) q = Some (xs, blk (t div 64), q')
    \<and> grid blk (t div 64) (t div 64) (blocks q') nb g"
  using assms
proof (induction "t - p" arbitrary: p q xs w)
  case 0
  then have "p = t" "w = tw" by (auto simp: word_unat_eq_iff)
  then show ?case using 0 by (subst injector_drop_loop.simps) (simp add: positions_def)
next
  case (Suc n)
  let ?w = "w + push_bit SHIFT 1"
  have lt: "p < t" using Suc.hyps(2) by simp
  have ne: "w \<noteq> tw" using Suc.prems(6,7) lt by auto
  have pw: "pos w = p" using Suc.prems(6) by (simp add: pos_def)
  have w: "unat ?w = 2 * (p + 1)"
    using Suc.prems(3,6) lt by (simp add: SHIFT_def unat_word_ariths)
  have n: "n = t - (p + 1)" "p + 1 \<le> t" using Suc.hyps(2) by simp_all
  have o: "unat (offset_of w) = p mod 64" "offset_of w < BLOCK_CAP \<longleftrightarrow> p mod 64 < 63"
    using offset_pos [of w] pw by (simp_all add: word_less_nat_alt BLOCK_CAP_def LAP_def)
  show ?case
  proof (cases "p mod 64 < 63")
    case True
    have lap: "(p + 1) div 64 = p div 64" by (rule drop_loop_step_lap [OF True])
    obtain x ys where xs: "xs = x # ys" "g p = written x" "map g (positions (p + 1) t) = map written ys"
      using Suc.prems(5) positions_cons [OF lt] True by (cases xs) auto
    have "slot_get (blk (p div 64)) (p mod 64) q = Some (g p)"
      using grid_get [OF Suc.prems(1) order_refl _ True] div_le_mono [OF Suc.prems(2), of 64] by simp
    then have rd: "slot_read (blk (p div 64)) (p mod 64) q = Some x" using xs(2) by (simp add: slot_read_def written_def)
    have "\<exists>q'. injector_drop_loop ?w tw (blk ((p + 1) div 64)) q = Some (ys, blk (t div 64), q')
      \<and> grid blk (t div 64) (t div 64) (blocks q') nb g"
      by (rule Suc.hyps(1) [OF n(1)]) (use Suc.prems lap n xs w in simp_all)
    then show ?thesis using ne True o rd lap xs(1) by (subst injector_drop_loop.simps) (auto simp: Let_def)
  next
    case False
    then have e: "p mod 64 = 63" using mod_less_divisor [of 64 p] by linarith
    have lap: "(p + 1) div 64 = Suc (p div 64)" by (rule next_lap(1) [OF e])
    have T: "p div 64 < t div 64" using div_le_mono [OF n(2), of 64] lap by simp
    obtain bs where bs: "block_free (blk (p div 64)) q = Some (q\<lparr>blocks := bs\<rparr>)" "grid blk (Suc (p div 64)) (t div 64) bs nb g"
      using grid_free_first [OF Suc.prems(1) T] by blast
    have b: "blocks q (blk (p div 64)) = Some (lap_block blk (t div 64) g (p div 64))"
      using gridD(4) [OF Suc.prems(1) order_refl] T by simp
    have "\<exists>q'. injector_drop_loop ?w tw (blk ((p + 1) div 64)) (q\<lparr>blocks := bs\<rparr>) = Some (xs, blk (t div 64), q')
      \<and> grid blk (t div 64) (t div 64) (blocks q') nb g"
      by (rule Suc.hyps(1) [OF n(1)]) (use Suc.prems lap n bs w positions_skip [OF e, of t] in simp_all)
    then show ?thesis using ne False o bs(1) b lap T by (subst injector_drop_loop.simps) (auto simp: Let_def lap_block_def)
  qed
qed

lemma injector_drop_rep:
  assumes "irep q xs"
  shows "\<exists>q'. injector_drop q = Some (xs, q') \<and> blocks q' = Map.empty"
proof -
  obtain blk g h t where st: "stock blk g h t xs q" and hd: "head_at blk h t q" using assms by (auto simp: irep_def)
  note d = stockD [OF st]
  have u: "unat (head_index q AND NOT HAS_NEXT) = 2 * h" "unat (tail_index q AND NOT HAS_NEXT) = 2 * t"
    using unat_clear hd d(3) by (simp_all add: head_at_def)
  obtain q1 where q1: "injector_drop_loop (head_index q AND NOT HAS_NEXT) (tail_index q AND NOT HAS_NEXT) (blk (h div 64)) q = Some (xs, blk (t div 64), q1)"
    "grid blk (t div 64) (t div 64) (blocks q1) (next_block q) g"
    using injector_drop_loop_grid [OF d(1,5,6,7,8) u] by blast
  have "(blocks q1)(blk (t div 64) := None) = Map.empty"
    using gridD(3) [OF q1(2)] by (auto simp: fun_eq_iff dom_def)
  then show ?thesis using q1 gridD(4) [OF q1(2), of "t div 64"] hd
    by (simp add: injector_drop_def clear_flag Let_def block_free_def head_at_def del: push_bit_of_1)
qed

section \<open>Batches\<close>

lemma for_in_pair:
  assumes "\<And>i q d. i \<in> set is \<Longrightarrow> stock blk g h t xs q \<Longrightarrow> body i (q, d) = f i d \<bind> (\<lambda>d. Some (q\<lparr>clock := Suc (clock q)\<rparr>, d))"
    "stock blk g h t xs q"
  shows "\<exists>k. for_in is body (q, d) = for_in is f d \<bind> (\<lambda>d. Some (q\<lparr>clock := k\<rparr>, d))"
  using assms
proof (induction "is" arbitrary: q d)
  case Nil
  then show ?case by (auto intro: exI [of _ "clock q"])
next
  case (Cons i "is")
  have "\<exists>k. for_in is body (q\<lparr>clock := Suc (clock q)\<rparr>, d') = for_in is f d' \<bind> (\<lambda>d. Some (q\<lparr>clock := k\<rparr>, d))" for d'
    using Cons.IH [of "q\<lparr>clock := Suc (clock q)\<rparr>" d'] Cons.prems by auto
  then show ?case using Cons.prems by (cases "f i d") auto
qed

lemma copy_slots_area:
  assumes st: "stock blk g h t xs q" and a: "h mod 64 + c + n \<le> 63" "h + c + n \<le> t"
    and r: "represents dest ys" and room: "length ys + n \<le> unat (cap (wbuf dest))"
  shows "\<exists>k dest'. copy_slots iquiet (blk (h div 64)) (h mod 64 + c) n (wbuf dest) (back_index dest) (q, dest) = Some (q\<lparr>clock := k\<rparr>, dest')
    \<and> mem_only dest dest' \<and> represents dest' ys
    \<and> area dest' n = map Some (arranged Fifo (flavor dest) (take n (drop c xs)))"
proof -
  let ?ts = "take n (drop c xs)" and ?at = "\<lambda>i. back_index dest + of_nat (batch_slot (flavor dest) n i)"
  have cn: "h mod 64 + (c + n) \<le> 63" "h + (c + n) \<le> t" using a by simp_all
  have "length xs = (c + n) + length (positions (h + (c + n)) t)"
    using arg_cong [OF stockD(8) [OF st], of length] positions_split [OF cn] by simp
  then have len: "length ?ts = n" by simp
  define body where "body = (\<lambda>i (q :: 'a injector, d :: 'a worker). do {
           q \<leftarrow> slot_wait_write iquiet (blk (h div 64)) (h mod 64 + c + i) (gap iquiet q);
           task \<leftarrow> slot_read (blk (h div 64)) (h mod 64 + c + i) q;
           d \<leftarrow> buffer_write (wbuf dest) (?at i) task d;
           Some (q, d) })"
  have "body i (q', d) = buffer_store (wbuf dest) (?at i) (Some (?ts ! i)) d \<bind> (\<lambda>d. Some (q'\<lparr>clock := Suc (clock q')\<rparr>, d))"
    if "i \<in> set [0..<n]" "stock blk g h t xs q'" for i q' d
  proof -
    have st': "stock blk g h t xs (q'\<lparr>clock := Suc (clock q')\<rparr>)" and ci: "c + i < c + n" using that by simp_all
    show ?thesis using read_slot [OF st' cn ci] that(1) len by (simp add: body_def buffer_write_def add.assoc)
  qed
  from for_in_pair [of "[0..<n]" blk g h t xs body "\<lambda>i. buffer_store (wbuf dest) (?at i) (Some (?ts ! i))", OF this st]
  obtain k where k: "for_in [0..<n] body (q, dest)
      = for_in [0..<n] (\<lambda>i. buffer_store (wbuf dest) (?at i) (Some (?ts ! i))) dest \<bind> (\<lambda>d. Some (q\<lparr>clock := k\<rparr>, d))" by blast
  have "copy_slots iquiet (blk (h div 64)) (h mod 64 + c) n (wbuf dest) (back_index dest) (q, dest) = for_in [0..<n] body (q, dest)"
    by (cases "flavor dest") (simp_all add: copy_slots_def body_def batch_slot_def)
  moreover obtain dest' where "for_in [0..<n] (\<lambda>i. buffer_store (wbuf dest) (?at i) (Some (?ts ! i))) dest = Some dest'"
    "mem_only dest dest'" "represents dest' ys" "area dest' n = map Some (arranged Fifo (flavor dest) ?ts)"
    using store_batch_area [OF r, of ?ts] room unfolding len by blast
  ultimately show ?thesis using k by auto
qed

lemma batch_cap:
  assumes "unat (v :: usize) = n" shows "v = BLOCK_CAP \<longleftrightarrow> n = 63"
  using assms by (simp add: word_unat_eq_iff BLOCK_CAP_def LAP_def)

text \<open>What the two batch operations have in common after they have won their slots.\<close>

lemma batch_commit:
  assumes "represents d1 ys" "mem_only d1 d2" "represents d2 ys" "length ys + n \<le> unat (cap (wbuf d1))"
    "area d2 n = map Some zs" "length zs = n"
  shows "represents (d2\<lparr>back_index := back_index d1 + of_nat n\<rparr>) (ys @ zs)" "flavor d2 = flavor d1"
  using area_commit [OF assms(3), of zs] assms(4-6) mem_onlyD [OF assms(2)] by simp_all

lemma batch_take_quiet:
  assumes st: "stock blk g h t xs q" and hd: "head_block q = blk (h div 64)" "head_index q = nh"
    and a: "h mod 64 + a \<le> 63" "h + a \<le> t" and nh: "pos nh = h + a" "odd (unat nh) \<longrightarrow> h div 64 < t div 64"
    and o: "unat offset = h mod 64" "unat new_offset = h mod 64 + a"
    and r: "represents dest ys" and room: "length ys + a \<le> 2 ^ 62"
  shows "\<exists>q' dest'. batch_take iquiet quiet (blk (h div 64)) offset new_offset nh q dest = Some (Success (), q', dest')
    \<and> irep q' (drop a xs) \<and> represents dest' (ys @ arranged Fifo (flavor dest) (take a xs)) \<and> flavor dest' = flavor dest"
proof -
  let ?n = "new_offset - offset"
  have n: "unat ?n = a" using o unat_sub_le [of offset new_offset] by simp
  have nw: "?n = of_nat a" unfolding n [symmetric] by simp
  have "length ys + unat ?n \<le> 2 ^ 62" using room unfolding n .
  then obtain d1 where d1: "worker_reserve quiet ?n dest = Some d1" "represents d1 ys"
    "length ys + unat ?n \<le> unat (cap (wbuf d1))" "flavor d1 = flavor dest" by (rule worker_reserve_quiet [OF r])
  have room1: "length ys + a \<le> unat (cap (wbuf d1))" using d1(3) unfolding n .
  obtain q2 where q2: "(if h mod 64 + a = 63 then head_to_next iquiet (blk (h div 64)) nh q else Some q) = Some q2"
    "stock blk g h t xs q2" "head_at blk (after h a) t q2" using move_head [OF st hd a nh] by blast
  have a0: "h mod 64 + 0 + a \<le> 63" "h + 0 + a \<le> t" using a by simp_all
  obtain k d2 where c: "copy_slots iquiet (blk (h div 64)) (h mod 64) a (wbuf d1) (back_index d1) (q2, d1) = Some (q2\<lparr>clock := k\<rparr>, d2)"
    "mem_only d1 d2" "represents d2 ys" "area d2 a = map Some (arranged Fifo (flavor d1) (take a xs))"
    using copy_slots_area [OF q2(2) a0 d1(2) room1] by auto
  have st3: "stock blk g h t xs (q2\<lparr>clock := k\<rparr>)" "head_at blk (after h a) t (q2\<lparr>clock := k\<rparr>)" using q2(2,3) by simp_all
  obtain q4 where q4: "(if h mod 64 + a = 63 then block_destroy iquiet (blk (h div 64)) (h mod 64) (q2\<lparr>clock := k\<rparr>)
      else mark_read iquiet (blk (h div 64)) (h mod 64) [h mod 64..<h mod 64 + a] (q2\<lparr>clock := k\<rparr>)) = Some q4" "irep q4 (drop a xs)"
    using finish_take [OF st3 a] by blast
  have "length (take a xs) = a" using arg_cong [OF c(4), of length] by simp
  then have fin: "represents (d2\<lparr>back_index := back_index d1 + of_nat a\<rparr>) (ys @ arranged Fifo (flavor dest) (take a xs))" "flavor d2 = flavor dest"
    using batch_commit [OF d1(2) c(2,3) room1 c(4)] d1(4) by simp_all
  have "batch_take iquiet quiet (blk (h div 64)) offset new_offset nh q dest
      = Some (Success (), q4, d2\<lparr>back_index := back_index d1 + of_nat a\<rparr>)"
    unfolding batch_take_def Let_def batch_cap [OF o(2)] n o using d1(1) q2(1) c(1) q4(1) by (simp add: nw)
  then show ?thesis using q4(2) fin by simp
qed

lemma batch_pop_take_quiet:
  assumes st: "stock blk g h t (x # xs) q" and hd: "head_block q = blk (h div 64)" "head_index q = nh"
    and a: "h mod 64 + Suc a \<le> 63" "h + Suc a \<le> t" and nh: "pos nh = h + Suc a" "odd (unat nh) \<longrightarrow> h div 64 < t div 64"
    and o: "unat offset = h mod 64" "unat new_offset = h mod 64 + Suc a"
    and r: "represents dest ys" and room: "length ys + a \<le> 2 ^ 62"
  shows "\<exists>q' dest'. batch_pop_take iquiet quiet (blk (h div 64)) offset new_offset nh q dest = Some (Success x, q', dest')
    \<and> irep q' (drop a xs) \<and> represents dest' (ys @ arranged Fifo (flavor dest) (take a xs)) \<and> flavor dest' = flavor dest"
proof -
  let ?n = "new_offset - offset - 1"
  have "unat (new_offset - offset) = Suc a" using o unat_sub_le [of offset new_offset] by simp
  then have n: "unat ?n = a" using unat_sub_le [of 1 "new_offset - offset"] by simp
  have nw: "?n = of_nat a" unfolding n [symmetric] by simp
  have "length ys + unat ?n \<le> 2 ^ 62" using room unfolding n .
  then obtain d1 where d1: "worker_reserve quiet ?n dest = Some d1" "represents d1 ys"
    "length ys + unat ?n \<le> unat (cap (wbuf d1))" "flavor d1 = flavor dest" by (rule worker_reserve_quiet [OF r])
  have room1: "length ys + a \<le> unat (cap (wbuf d1))" using d1(3) unfolding n .
  obtain q2 where q2: "(if h mod 64 + Suc a = 63 then head_to_next iquiet (blk (h div 64)) nh q else Some q) = Some q2"
    "stock blk g h t (x # xs) q2" "head_at blk (after h (Suc a)) t q2" using move_head [OF st hd a nh] by blast
  let ?q3 = "q2\<lparr>clock := Suc (clock q2)\<rparr>"
  have st3: "stock blk g h t (x # xs) ?q3" using q2(2) by simp
  note rd = read_slot [OF st3 a, of 0, simplified]
  have a1: "h mod 64 + 1 + a \<le> 63" "h + 1 + a \<le> t" using a by simp_all
  obtain k d2 where c: "copy_slots iquiet (blk (h div 64)) (h mod 64 + 1) a (wbuf d1) (back_index d1) (?q3, d1) = Some (?q3\<lparr>clock := k\<rparr>, d2)"
    "mem_only d1 d2" "represents d2 ys" "area d2 a = map Some (arranged Fifo (flavor d1) (take a (drop 1 (x # xs))))"
    using copy_slots_area [OF st3 a1 d1(2) room1] by blast
  have st4: "stock blk g h t (x # xs) (?q3\<lparr>clock := k\<rparr>)" "head_at blk (after h (Suc a)) t (?q3\<lparr>clock := k\<rparr>)" using q2(2,3) by simp_all
  obtain q4 where q4: "(if h mod 64 + Suc a = 63 then block_destroy iquiet (blk (h div 64)) (h mod 64) (?q3\<lparr>clock := k\<rparr>)
      else mark_read iquiet (blk (h div 64)) (h mod 64) [h mod 64..<h mod 64 + Suc a] (?q3\<lparr>clock := k\<rparr>)) = Some q4" "irep q4 (drop (Suc a) (x # xs))"
    using finish_take [OF st4 a] by blast
  have "length (take a xs) = a" using arg_cong [OF c(4), of length] by simp
  then have fin: "represents (d2\<lparr>back_index := back_index d1 + of_nat a\<rparr>) (ys @ arranged Fifo (flavor dest) (take a xs))" "flavor d2 = flavor dest"
    using batch_commit [OF d1(2) c(2,3) room1 c(4)] d1(4) by simp_all
  have "batch_pop_take iquiet quiet (blk (h div 64)) offset new_offset nh q dest
      = Some (Success x, q4, d2\<lparr>back_index := back_index d1 + of_nat a\<rparr>)"
    unfolding batch_pop_take_def Let_def batch_cap [OF o(2)] n o using d1(1) q2(1) c(1) q4(1) rd
    by (cases "h mod 64 + Suc a = 63") (simp_all add: nw)
  then show ?thesis using q4(2) fin by simp
qed

lemma batch_advance_pos:
  assumes st: "stock blk g h t xs q" and hd: "head_at blk h t q" and lt: "h < t" and l: "0 < unat limit" "unat limit \<le> 33"
  obtains a nh adv where "batch_advance limit (head_index q) (tail_index q) (offset_of (head_index q)) = (nh, adv)"
    "unat adv = a" "0 < a" "a \<le> unat limit" "h mod 64 + a \<le> 63" "h + a \<le> t"
    "pos (nh + push_bit SHIFT adv) = h + a" "odd (unat (nh + push_bit SHIFT adv)) \<longrightarrow> h div 64 < t div 64"
    "unat (offset_of (head_index q) + adv) = h mod 64 + a"
proof -
  note d = stockD [OF st]
  have "pos (head_index q) = h" "h mod 64 \<noteq> 63" "odd (unat (head_index q)) \<longrightarrow> h div 64 < t div 64" using hd by (auto simp: head_at_def)
  from batch_advance_words [OF this(1) d(3,4) lt d(6) this(2,3) l] show thesis using that by blast
qed

lemma injector_steal_batch_quiet:
  assumes i: "irep q xs" and r: "represents dest ys" and room: "length ys + 32 \<le> 2 ^ 62"
  shows "\<exists>res q' dest'. injector_steal_batch iquiet spurious quiet q dest = Some (res, q', dest') \<and> (case res of
      Empty \<Rightarrow> xs = [] \<and> irep q' [] \<and> dest' = dest
    | Retry \<Rightarrow> (\<exists>k. spurious k) \<and> irep q' xs \<and> dest' = dest
    | Success _ \<Rightarrow> \<exists>n. 0 < n \<and> n \<le> 32 \<and> n \<le> length xs \<and> irep q' (drop n xs)
        \<and> represents dest' (ys @ arranged Fifo (flavor dest) (take n xs)) \<and> flavor dest' = flavor dest)"
proof -
  obtain blk g h t where st: "stock blk g h t xs q" and hd: "head_at blk h t q" using i by (auto simp: irep_def)
  note d = stockD [OF st]
  let ?e = "even (unat (head_index q))" and ?k = "Suc (if even (unat (head_index q)) then Suc (Suc (clock q)) else Suc (clock q))"
  have hi: "pos (head_index q) = h" "h mod 64 \<noteq> 63" "?e \<or> h div 64 < t div 64" "head_block q = blk (h div 64)"
    using hd by (auto simp: head_at_def)
  show ?thesis
  proof (cases "h = t")
    case True
    then have "?e" using hi(3) by simp
    then have "injector_steal_batch iquiet spurious quiet q dest = Some (Empty, q\<lparr>clock := Suc (Suc (clock q))\<rparr>, dest)"
      using True hi(1) d(3) by (simp add: injector_steal_batch_def steal_start_quiet [OF hd] Let_def has_next_even drop_bit_eq_pos)
    then show ?thesis using True stock_nonempty [OF st hi(2)] i by auto
  next
    case False
    then have lt: "h < t" using d(5) by simp
    have l: "0 < unat MAX_BATCH" "unat MAX_BATCH \<le> 33" "unat MAX_BATCH = 32" by (simp_all add: MAX_BATCH_def)
    obtain a nh adv where b: "batch_advance MAX_BATCH (head_index q) (tail_index q) (offset_of (head_index q)) = (nh, adv)"
      "unat adv = a" "0 < a" "a \<le> unat MAX_BATCH" and a: "h mod 64 + a \<le> 63" "h + a \<le> t"
      and nh: "pos (nh + push_bit SHIFT adv) = h + a" "odd (unat (nh + push_bit SHIFT adv)) \<longrightarrow> h div 64 < t div 64"
      and o: "unat (offset_of (head_index q) + adv) = h mod 64 + a" by (rule batch_advance_pos [OF st hd lt l(1,2)])
    let ?q1 = "q\<lparr>clock := ?k, head_index := nh + push_bit SHIFT adv\<rparr>"
    have steal: "injector_steal_batch iquiet spurious quiet q dest = (if spurious ?k then Some (Retry, q\<lparr>clock := ?k\<rparr>, dest)
        else batch_take iquiet quiet (blk (h div 64)) (offset_of (head_index q)) (offset_of (head_index q) + adv) (nh + push_bit SHIFT adv) ?q1 dest)"
      using False hi(1) d(3) b(1)
      by (simp add: injector_steal_batch_def steal_start_quiet [OF hd] Let_def has_next_even drop_bit_eq_pos)
    have "a \<le> length xs" using arg_cong [OF d(8), of length] positions_split [OF a] by simp
    moreover have "\<exists>q' dest'. batch_take iquiet quiet (blk (h div 64)) (offset_of (head_index q)) (offset_of (head_index q) + adv) (nh + push_bit SHIFT adv) ?q1 dest
        = Some (Success (), q', dest') \<and> irep q' (drop a xs) \<and> represents dest' (ys @ arranged Fifo (flavor dest) (take a xs)) \<and> flavor dest' = flavor dest"
      by (rule batch_take_quiet [OF _ _ _ a nh _ o r, where g = g])
        (use st hi b(4) l(3) room in \<open>simp_all add: offset_pos\<close>)
    ultimately show ?thesis using steal i b(3,4) l(3) by auto
  qed
qed

lemma injector_steal_batch_and_pop_quiet:
  assumes i: "irep q xs" and r: "represents dest ys" and room: "length ys + 32 \<le> 2 ^ 62"
  shows "\<exists>res q' dest'. injector_steal_batch_and_pop iquiet spurious quiet q dest = Some (res, q', dest') \<and> (case res of
      Empty \<Rightarrow> xs = [] \<and> irep q' [] \<and> dest' = dest
    | Retry \<Rightarrow> clock q < clock q' \<and> spurious (clock q') \<and> irep q' xs \<and> dest' = dest
    | Success x \<Rightarrow> \<exists>n zs. n \<le> 32 \<and> n \<le> length zs \<and> xs = x # zs \<and> irep q' (drop n zs)
        \<and> represents dest' (ys @ arranged Fifo (flavor dest) (take n zs)) \<and> flavor dest' = flavor dest)"
proof -
  obtain blk g h t where st: "stock blk g h t xs q" and hd: "head_at blk h t q" using i by (auto simp: irep_def)
  note d = stockD [OF st]
  let ?e = "even (unat (head_index q))" and ?k = "Suc (if even (unat (head_index q)) then Suc (Suc (clock q)) else Suc (clock q))"
  have hi: "pos (head_index q) = h" "h mod 64 \<noteq> 63" "?e \<or> h div 64 < t div 64" "head_block q = blk (h div 64)"
    using hd by (auto simp: head_at_def)
  show ?thesis
  proof (cases "h = t")
    case True
    then have "?e" using hi(3) by simp
    then have "injector_steal_batch_and_pop iquiet spurious quiet q dest = Some (Empty, q\<lparr>clock := Suc (Suc (clock q))\<rparr>, dest)"
      using True hi(1) d(3) by (simp add: injector_steal_batch_and_pop_def steal_start_quiet [OF hd] Let_def has_next_even drop_bit_eq_pos)
    then show ?thesis using True stock_nonempty [OF st hi(2)] i by auto
  next
    case False
    then have lt: "h < t" using d(5) by simp
    obtain x zs where xs: "xs = x # zs" using stock_nonempty [OF st hi(2)] False by (cases xs) auto
    have l: "0 < unat (MAX_BATCH + 1)" "unat (MAX_BATCH + 1) \<le> 33" by (simp_all add: MAX_BATCH_def)
    obtain a' nh adv where b: "batch_advance (MAX_BATCH + 1) (head_index q) (tail_index q) (offset_of (head_index q)) = (nh, adv)"
      "unat adv = a'" "0 < a'" "a' \<le> unat (MAX_BATCH + 1)" and a': "h mod 64 + a' \<le> 63" "h + a' \<le> t"
      and nh': "pos (nh + push_bit SHIFT adv) = h + a'" "odd (unat (nh + push_bit SHIFT adv)) \<longrightarrow> h div 64 < t div 64"
      and o': "unat (offset_of (head_index q) + adv) = h mod 64 + a'" by (rule batch_advance_pos [OF st hd lt l])
    obtain a where s: "a' = Suc a" using b(3) by (cases a') auto
    note a = a' [unfolded s] and nh = nh' [unfolded s] and o = o' [unfolded s]
    let ?q1 = "q\<lparr>clock := ?k, head_index := nh + push_bit SHIFT adv\<rparr>"
    have steal: "injector_steal_batch_and_pop iquiet spurious quiet q dest = (if spurious ?k then Some (Retry, q\<lparr>clock := ?k\<rparr>, dest)
        else batch_pop_take iquiet quiet (blk (h div 64)) (offset_of (head_index q)) (offset_of (head_index q) + adv) (nh + push_bit SHIFT adv) ?q1 dest)"
      using False hi(1) d(3) b(1)
      by (simp add: injector_steal_batch_and_pop_def steal_start_quiet [OF hd] Let_def has_next_even drop_bit_eq_pos)
    have "Suc a \<le> length xs" using arg_cong [OF d(8), of length] positions_split [OF a] by simp
    moreover have "a \<le> 32" using b(4) l(2) s by simp
    moreover have "\<exists>q' dest'. batch_pop_take iquiet quiet (blk (h div 64)) (offset_of (head_index q)) (offset_of (head_index q) + adv) (nh + push_bit SHIFT adv) ?q1 dest
        = Some (Success x, q', dest') \<and> irep q' (drop a zs) \<and> represents dest' (ys @ arranged Fifo (flavor dest) (take a zs)) \<and> flavor dest' = flavor dest"
      by (rule batch_pop_take_quiet [OF _ _ _ a nh _ o r, where g = g])
        (use st xs hi \<open>a \<le> 32\<close> room in \<open>simp_all add: offset_pos\<close>)
    ultimately show ?thesis using steal i xs by auto
  qed
qed


section \<open>The interface for thieves\<close>

text \<open>The tasks an injector holds, as its destructor would drop them.\<close>

definition itasks :: "'a injector \<Rightarrow> 'a list" where
  "itasks q = (case injector_drop q of Some (ts, _) \<Rightarrow> ts | None \<Rightarrow> [])"

lemma irep_itasks: "irep q xs \<Longrightarrow> itasks q = xs"
  using injector_drop_rep [of q xs] by (auto simp: itasks_def)

definition wf_injector :: "'a injector \<Rightarrow> bool" where
  "wf_injector q \<longleftrightarrow> irep q (itasks q)"

lemma irep_iff: "irep q xs \<longleftrightarrow> wf_injector q \<and> itasks q = xs"
  using irep_itasks [of q xs] by (auto simp: wf_injector_def)

interpretation injector_source: steal_source "injector_steal iquiet (\<lambda>_. False)" itasks wf_injector
proof
  fix q :: "'a injector" and x xs
  assume "wf_injector q"
  then have i: "irep q (itasks q)" by (simp add: irep_iff)
  show "\<exists>q'. injector_steal iquiet (\<lambda>_. False) q = Some (Success x, q') \<and> wf_injector q' \<and> itasks q' = xs" if "itasks q = x # xs"
    using injector_steal_quiet [OF i, of "\<lambda>_. False"] that by (fastforce simp: irep_iff split: steal.splits)
  show "\<exists>q'. injector_steal iquiet (\<lambda>_. False) q = Some (Empty, q') \<and> wf_injector q' \<and> itasks q' = []" if "itasks q = []"
    using injector_steal_quiet [OF i, of "\<lambda>_. False"] that by (fastforce simp: irep_iff split: steal.splits)
qed

text \<open>On a new queue that is only pushed to, \<open>n\<close> tasks need fewer than \<open>2 * n + 2\<close> positions.\<close>

lemma pushed_position:
  assumes "irep q xs" "head_index q = 0"
  shows "63 * pos (tail_index q) \<le> 64 * length xs + 63"
proof -
  obtain blk g h t where st: "stock blk g h t xs q" and hd: "head_at blk h t q" using assms by (auto simp: irep_def)
  have "h = 0" using hd assms(2) by (simp add: head_at_def pos_def)
  then have "length xs + t div 64 = t" using stock_length [OF st] by simp
  moreover have "64 * (t div 64) \<le> t" by simp
  ultimately have "63 * t \<le> 64 * length xs" by linarith
  then show ?thesis using stockD(3) [OF st] by simp
qed

lemma injector_push_all:
  assumes "length xs \<le> 2 ^ 61" "\<forall>k \<ge> n. \<not> spurious k"
  shows "\<exists>q. for_in xs (injector_push iquiet spurious) injector_new = Some q \<and> irep q xs \<and> head_index q = 0"
  using assms(1)
proof (induction xs rule: rev_induct)
  case Nil
  show ?case using irep_new by (simp add: injector_new_def)
next
  case (snoc x xs)
  then obtain q where q: "for_in xs (injector_push iquiet spurious) injector_new = Some q" "irep q xs" "head_index q = 0" by auto
  have "pos (tail_index q) + 2 < 2 ^ 62" using pushed_position [OF q(2,3)] snoc.prems by simp
  from injector_push_quiet [OF q(2) this assms(2), of x] show ?case using q by (auto simp: for_in_append)
qed

lemma some_injector: "\<exists>q. irep (q :: nat injector) [5, 6, 7]"
  using injector_push_all [of "[5, 6, 7]" 0 "\<lambda>_. False"] by auto

section \<open>Properties\<close>

text \<open>
  The injector is a FIFO queue across its blocks: up to \<open>2 ^ 61\<close> tasks pushed on a new
  injector are stolen in the order of the pushes, and then the injector is empty.
\<close>

lemma injector_fifo:
  assumes "length xs \<le> 2 ^ 61" "\<forall>k \<ge> n. \<not> spurious k"
  shows "\<exists>q q'. for_in xs (injector_push iquiet spurious) injector_new = Some q
    \<and> pop_n (steal_once (injector_steal iquiet (\<lambda>_. False))) (Suc (length xs)) q = Some (xs, q') \<and> irep q' []"
proof -
  obtain q where q: "for_in xs (injector_push iquiet spurious) injector_new = Some q" "irep q xs"
    using injector_push_all [OF assms] by blast
  with injector_source.steal_all [of q] show ?thesis by (auto simp: irep_iff)
qed

text \<open>
  \<open>Injector::steal_batch\<close>, when no other thread interferes, moves the oldest tasks, at least
  one and at most 32, behind the tasks of the destination, so that its owner pops them oldest
  first; the block is freed if the batch reaches its end.
\<close>

lemma injector_steal_batch_moves:
  assumes "irep q xs" "represents dest ys" "length ys + 32 \<le> 2 ^ 62" "xs \<noteq> []"
  shows "\<exists>q' dest' n moved. injector_steal_batch iquiet (\<lambda>_. False) quiet q dest = Some (Success (), q', dest')
    \<and> 0 < n \<and> n \<le> 32 \<and> n \<le> length xs \<and> irep q' (drop n xs) \<and> represents dest' (ys @ moved)
    \<and> pop_order (flavor dest) moved = take n xs"
proof -
  obtain res q' dest' where s: "injector_steal_batch iquiet (\<lambda>_. False) quiet q dest = Some (res, q', dest')"
    "case res of
      Empty \<Rightarrow> xs = [] \<and> irep q' [] \<and> dest' = dest
    | Retry \<Rightarrow> (\<exists>k :: nat. False) \<and> irep q' xs \<and> dest' = dest
    | Success _ \<Rightarrow> \<exists>n. 0 < n \<and> n \<le> 32 \<and> n \<le> length xs \<and> irep q' (drop n xs)
        \<and> represents dest' (ys @ arranged Fifo (flavor dest) (take n xs)) \<and> flavor dest' = flavor dest"
    using injector_steal_batch_quiet [OF assms(1-3), of "\<lambda>_. False"] by blast
  have "pop_order (flavor dest) (arranged Fifo (flavor dest) (take n xs)) = take n xs" for n
    by (simp add: pop_order_arranged)
  with s assms(4) show ?thesis by (cases res) fastforce+
qed

text \<open>
  C14: \<open>Injector::steal_batch_and_pop\<close>, when no other thread interferes, returns the oldest task
  and moves the ones after it, at most 32, behind the tasks of the destination, so that its owner
  pops them oldest first.
\<close>

theorem injector_steal_batch_and_pop_moves:
  assumes "irep q (x # xs)" "represents dest ys" "length ys + 32 \<le> 2 ^ 62"
  shows "\<exists>q' dest' n moved. injector_steal_batch_and_pop iquiet (\<lambda>_. False) quiet q dest = Some (Success x, q', dest')
    \<and> n \<le> 32 \<and> n \<le> length xs \<and> irep q' (drop n xs) \<and> represents dest' (ys @ moved)
    \<and> pop_order (flavor dest) moved = take n xs"
proof -
  obtain res q' dest' where s: "injector_steal_batch_and_pop iquiet (\<lambda>_. False) quiet q dest = Some (res, q', dest')"
    "case res of
      Empty \<Rightarrow> x # xs = [] \<and> irep q' [] \<and> dest' = dest
    | Retry \<Rightarrow> clock q < clock q' \<and> False \<and> irep q' (x # xs) \<and> dest' = dest
    | Success y \<Rightarrow> \<exists>n zs. n \<le> 32 \<and> n \<le> length zs \<and> x # xs = y # zs \<and> irep q' (drop n zs)
        \<and> represents dest' (ys @ arranged Fifo (flavor dest) (take n zs)) \<and> flavor dest' = flavor dest"
    using injector_steal_batch_and_pop_quiet [OF assms, of "\<lambda>_. False"] by blast
  have "pop_order (flavor dest) (arranged Fifo (flavor dest) (take n xs)) = take n xs" for n
    by (simp add: pop_order_arranged)
  with s show ?thesis by (cases res) fastforce+
qed

theorem injector_steal_batch_and_pop_moves_witness:
  "\<exists>(q :: nat injector) dest. irep q [5, 6, 7] \<and> represents dest [9] \<and>
    (\<exists>q' dest' n moved. injector_steal_batch_and_pop iquiet (\<lambda>_. False) quiet q dest = Some (Success 5, q', dest')
    \<and> n \<le> 32 \<and> n \<le> length [6 :: nat, 7] \<and> irep q' (drop n [6, 7]) \<and> represents dest' ([9] @ moved)
    \<and> pop_order Fifo moved = take n [6, 7])"
proof -
  obtain q :: "nat injector" where q: "irep q [5, 6, 7]" using some_injector by blast
  obtain dest :: "nat worker" where d: "represents dest [9]" "flavor dest = Fifo" using queue_exists [of "[9]" Fifo] by auto
  have "length [9 :: nat] + 32 \<le> 2 ^ 62" by simp
  from injector_steal_batch_and_pop_moves [OF q d(1) this, unfolded d(2)] show ?thesis using q d(1) by blast
qed

text \<open>
  \<open>Injector::len\<close> returns (its loop ends) and counts the tasks, in spite of the index that each
  block skips and the flag bits, and \<open>Injector::is_empty\<close> agrees with it.
\<close>

lemma injector_len_correct:
  assumes "irep q xs"
  shows "\<exists>n. injector_len iquiet q = Some n \<and> unat n = length xs \<and> (injector_is_empty iquiet q \<longleftrightarrow> n = 0)"
  using injector_len_quiet [OF assms] injector_is_empty_quiet [OF assms] by (auto simp: unat_eq_zero)

text \<open>
  C15: dropping the injector drops each task it holds exactly once, oldest first, and frees every
  block that is allocated, each once.
\<close>

theorem injector_drop_frees_all:
  assumes "irep q xs"
  shows "\<exists>q'. injector_drop q = Some (xs, q') \<and> blocks q' = Map.empty"
  by (rule injector_drop_rep [OF assms])

theorem injector_drop_frees_all_witness:
  "\<exists>q :: nat injector. irep q [5, 6, 7] \<and> (\<exists>q'. injector_drop q = Some ([5, 6, 7], q') \<and> blocks q' = Map.empty)"
proof -
  obtain q :: "nat injector" where q: "irep q [5, 6, 7]" using some_injector by blast
  show ?thesis using injector_drop_frees_all [OF q] q by auto
qed

end
