(* ===== verification/Find_Task.thy ===== *)
theory Find_Task
  imports Injector_Spec "HOL-Library.Multiset"
begin

text \<open>
  \<open>find_task\<close> of \<^verbatim>\<open>task/mod.rs\<close>: the search of a scheduler for its next task in its own queue,
  in the global injector and in the queues of the other threads. The queues are the injector
  and a store of worker queues; the local queue is the one named \<open>d\<close>.
\<close>

section \<open>The search\<close>

type_synonym 'a queues = "'a injector \<times> (nat \<Rightarrow> 'a worker)"

text \<open>\<^verbatim>\<open>global.steal_batch_and_pop(local)\<close> and \<^verbatim>\<open>s.steal()\<close> on the queues.\<close>

definition steal_global :: "'a ienv \<Rightarrow> (nat \<Rightarrow> bool) \<Rightarrow> 'a env \<Rightarrow> nat \<Rightarrow> 'a queues \<Rightarrow> ('a steal \<times> 'a queues) option" where
  "steal_global env spurious denv d = (\<lambda>(q, store). do {
     (r, q, w) \<leftarrow> injector_steal_batch_and_pop env spurious denv q (store d);
     Some (r, q, store(d := w)) })"

definition steal_other :: "'a env \<Rightarrow> stealer \<Rightarrow> 'a queues \<Rightarrow> ('a steal \<times> 'a queues) option" where
  "steal_other env s = (\<lambda>(q, store). do {
     (r, w) \<leftarrow> stealer_steal env (store (inner s));
     Some (r, q, store(inner s := w)) })"

text \<open>
  \<^verbatim>\<open>iter::repeat_with(..).find(|s| !s.is_retry()).and_then(|s| s.success())\<close>: in round \<open>n\<close> the
  other threads act on the local queue by \<open>denv n\<close> and on a stolen queue by \<open>senv n\<close>.
\<close>

partial_function (option) find_task_loop :: "'a ienv \<Rightarrow> (nat \<Rightarrow> bool) \<Rightarrow> (nat \<Rightarrow> 'a env) \<Rightarrow> (nat \<Rightarrow> 'a env)
    \<Rightarrow> nat \<Rightarrow> stealer list \<Rightarrow> nat \<Rightarrow> 'a queues \<Rightarrow> ('a option \<times> 'a queues) option" where
  "find_task_loop env spurious denv senv d stealers n st = do {
     (r, st) \<leftarrow> steal_global env spurious (denv n) d st;
     (r, st) \<leftarrow> steal_or_else r (steal_from_iter (map (steal_other (senv n)) stealers)) st;
     if steal_is_retry r then find_task_loop env spurious denv senv d stealers (Suc n) st
     else Some (steal_success r, st) }"

definition find_task :: "'a env \<Rightarrow> 'a ienv \<Rightarrow> (nat \<Rightarrow> bool) \<Rightarrow> (nat \<Rightarrow> 'a env) \<Rightarrow> (nat \<Rightarrow> 'a env)
    \<Rightarrow> nat \<Rightarrow> stealer list \<Rightarrow> 'a queues \<Rightarrow> ('a option \<times> 'a queues) option" where
  "find_task lenv env spurious denv senv d stealers = (\<lambda>(q, store). do {
     (r, w) \<leftarrow> worker_pop lenv (store d);
     let store = store(d := w);
     case r of
       Some task \<Rightarrow> Some (Some task, q, store)
     | None \<Rightarrow> find_task_loop env spurious denv senv d stealers 0 (q, store) })"

section \<open>Holding tasks\<close>

text \<open>The queues in \<open>N\<close> hold the tasks \<open>c\<close>, the injector holds \<open>gs\<close>.\<close>

definition holds :: "nat set \<Rightarrow> 'a queues \<Rightarrow> 'a list \<Rightarrow> (nat \<Rightarrow> 'a list) \<Rightarrow> bool" where
  "holds N st gs c \<longleftrightarrow> irep (fst st) gs \<and> (\<forall>i \<in> N. represents (snd st i) (c i))"

definition all_tasks :: "nat set \<Rightarrow> 'a list \<Rightarrow> (nat \<Rightarrow> 'a list) \<Rightarrow> 'a multiset" where
  "all_tasks N gs c = mset gs + (\<Sum>i \<in> N. mset (c i))"

lemma all_tasks_update:
  assumes "finite N" "d \<in> N"
  shows "all_tasks N gs (c(d := ys)) + mset (c d) = all_tasks N gs c + mset ys"
proof -
  have "(\<Sum>i \<in> N. mset ((c(d := ys)) i)) = mset ys + (\<Sum>i \<in> N - {d}. mset (c i))"
    using sum.remove [OF assms, of "\<lambda>i. mset ((c(d := ys)) i)"] by (auto intro!: sum.cong)
  moreover have "(\<Sum>i \<in> N. mset (c i)) = mset (c d) + (\<Sum>i \<in> N - {d}. mset (c i))"
    using sum.remove [OF assms, of "\<lambda>i. mset (c i)"] .
  ultimately show ?thesis by (simp add: all_tasks_def ac_simps)
qed

fun option_list :: "'a option \<Rightarrow> 'a list" where
  "option_list None = []"
| "option_list (Some x) = [x]"

definition first :: "'a list \<Rightarrow> 'a option" where
  "first xs = (case xs of [] \<Rightarrow> None | x # _ \<Rightarrow> Some x)"

lemma first_simps [simp]: "first [] = None" "first (x # xs) = Some x"
  by (simp_all add: first_def)

lemma first_eq_None: "first xs = None \<longleftrightarrow> xs = []" "(\<exists>y. first xs = Some y) \<longleftrightarrow> xs \<noteq> []"
  by (cases xs; simp)+

text \<open>The choice of \<open>find_task\<close>: the local queue first, then the injector, then the first thread with a task.\<close>

definition chosen_task :: "flavor \<Rightarrow> 'a list \<Rightarrow> 'a list \<Rightarrow> 'a list list \<Rightarrow> 'a option" where
  "chosen_task fl ls gs vs =
     first (pop_order fl ls @ gs @ concat vs)"

text \<open>A thief that goes through the stealers takes the oldest task of the first queue that has one.\<close>

lemma steal_others:
  assumes "holds N st gs c" "inner ` set ss \<subseteq> N" "finite N"
  shows "\<exists>r st' c'. steal_from_iter (map (steal_other quiet) ss) st = Some (r, st') \<and> holds N st' gs c' \<and> \<not> steal_is_retry r
    \<and> steal_success r = first (concat (map (\<lambda>s. c (inner s)) ss))
    \<and> all_tasks N gs c = mset (option_list (steal_success r)) + all_tasks N gs c'
    \<and> (steal_success r = None \<longrightarrow> st' = st \<and> c' = c)"
  using assms(2)
proof (induction ss)
  case Nil
  then show ?case using assms(1) by (auto simp: steal_from_iter_def)
next
  case (Cons s ss)
  obtain q store where st: "st = (q, store)" by (cases st)
  have N: "inner s \<in> N" using Cons.prems by simp
  then have r: "represents (store (inner s)) (c (inner s))" using assms(1) by (simp add: holds_def st)
  show ?case
  proof (cases "c (inner s)")
    case Nil
    then have "steal_other quiet s st = Some (Empty, st)"
      using stealer_steal_quiet [OF r] by (simp add: steal_other_def st)
    with Cons Nil show ?thesis by (simp add: steal_from_iter_def del: quiet_apply quiet_shift)
  next
    case (Cons x xs)
    let ?st = "(q, store(inner s := (store (inner s))\<lparr>front := front (store (inner s)) + 1\<rparr>))"
    define c' where "c' = c(inner s := xs)"
    have "steal_other quiet s st = Some (Success x, ?st)"
      using stealer_steal_quiet [OF r] Cons by (simp add: steal_other_def st)
    then have "steal_from_iter (map (steal_other quiet) (s # ss)) st = Some (Success x, ?st)"
      by (simp add: steal_from_iter_def del: quiet_apply quiet_shift)
    moreover have "holds N ?st gs c'"
      unfolding c'_def using assms(1) represents_advance [OF r [unfolded Cons]] by (auto simp: holds_def st)
    moreover have "all_tasks N gs c = mset (option_list (steal_success (Success x))) + all_tasks N gs c'"
      unfolding c'_def using all_tasks_update [OF assms(3) N, of gs c xs] Cons by simp
    moreover have "first (concat (map (\<lambda>s. c (inner s)) (s # ss))) = Some x" using Cons by simp
    ultimately show ?thesis
      by (intro exI [of _ "Success x"] exI [of _ ?st] exI [of _ c'] conjI) (simp_all del: quiet_apply quiet_shift list.map)
  qed
qed

lemma find_task_loop_quiet:
  assumes "holds N (q, store) gs c" "insert d (inner ` set ss) \<subseteq> N" "finite N" "c d = []" "\<forall>k \<ge> m. \<not> spurious k"
  defines "os \<equiv> concat (map (\<lambda>s. c (inner s)) ss)"
  shows "\<exists>r st' gs' c'. find_task_loop iquiet spurious (\<lambda>_. quiet) (\<lambda>_. quiet) d ss n (q, store) = Some (r, st')
    \<and> (r = first (gs @ os) \<or> (\<exists>k. spurious k) \<and> os \<noteq> [] \<and> r = first os) \<and> holds N st' gs' c'
    \<and> all_tasks N gs c = mset (option_list r) + all_tasks N gs' c'"
  using assms(1)
proof (induction "m - clock q" arbitrary: q n rule: less_induct)
  case less
  have others: "inner ` set ss \<subseteq> N" using assms(2) by simp
  have r: "represents (store d) []" and i: "irep q gs" using less.prems assms(2,4) by (auto simp: holds_def)
  obtain res q' dest' where s: "injector_steal_batch_and_pop iquiet spurious quiet q (store d) = Some (res, q', dest')"
    "case res of
      Empty \<Rightarrow> gs = [] \<and> irep q' [] \<and> dest' = store d
    | Retry \<Rightarrow> clock q < clock q' \<and> spurious (clock q') \<and> irep q' gs \<and> dest' = store d
    | Success x \<Rightarrow> \<exists>n zs. n \<le> 32 \<and> n \<le> length zs \<and> gs = x # zs \<and> irep q' (drop n zs)
        \<and> represents dest' ([] @ arranged Fifo (flavor (store d)) (take n zs)) \<and> flavor dest' = flavor (store d)"
    using injector_steal_batch_and_pop_quiet [OF i r, of spurious] by fastforce
  show ?case
  proof (cases res)
    case (Success x)
    then obtain k zs where k: "gs = x # zs" "irep q' (drop k zs)" "represents dest' (arranged Fifo (flavor (store d)) (take k zs))"
      using s(2) by auto
    let ?c = "c(d := arranged Fifo (flavor (store d)) (take k zs))" and ?st = "(q', store(d := dest'))"
    have "holds N ?st (drop k zs) ?c" using less.prems k by (auto simp: holds_def)
    moreover have "mset (take k zs) + mset (drop k zs) = mset zs" by (simp flip: mset_append)
    then have "all_tasks N gs c = {#x#} + all_tasks N (drop k zs) ?c"
      using all_tasks_update [OF assms(3), of d "drop k zs" c "arranged Fifo (flavor (store d)) (take k zs)"] assms(2,4) k(1)
      by (simp add: all_tasks_def arranged_def ac_simps)
    moreover have "find_task_loop iquiet spurious (\<lambda>_. quiet) (\<lambda>_. quiet) d ss n (q, store) = Some (Some x, ?st)"
      by (subst find_task_loop.simps) (simp add: steal_global_def s(1) Success del: quiet_apply quiet_shift)
    ultimately show ?thesis using k(1)
      by (intro exI [of _ "Some x"] exI [of _ ?st] exI [of _ "drop k zs"] exI [of _ ?c]) simp
  next
    case no_task: Empty
    then have h: "holds N (q', store) gs c" and g: "steal_global iquiet spurious quiet d (q, store) = Some (Empty, q', store)"
      using s less.prems by (auto simp: holds_def steal_global_def)
    obtain r' st' c' where o: "steal_from_iter (map (steal_other quiet) ss) (q', store) = Some (r', st')" "holds N st' gs c'"
      "\<not> steal_is_retry r'" "steal_success r' = first os" "all_tasks N gs c = mset (option_list (steal_success r')) + all_tasks N gs c'"
      using steal_others [OF h others assms(3), folded os_def] by (elim exE conjE) (rule that; assumption)
    have "find_task_loop iquiet spurious (\<lambda>_. quiet) (\<lambda>_. quiet) d ss n (q, store) = Some (steal_success r', st')"
      by (subst find_task_loop.simps) (simp add: g o(1,3) del: quiet_apply quiet_shift)
    then show ?thesis using o s(2) no_task by auto
  next
    case Retry
    then have q': "clock q < clock q'" "spurious (clock q')" and h: "holds N (q', store) gs c"
      and g: "steal_global iquiet spurious quiet d (q, store) = Some (Retry, q', store)"
      using s less.prems by (auto simp: holds_def steal_global_def)
    obtain r' st' c' where o: "steal_from_iter (map (steal_other quiet) ss) (q', store) = Some (r', st')" "holds N st' gs c'"
      "\<not> steal_is_retry r'" "steal_success r' = first os" "all_tasks N gs c = mset (option_list (steal_success r')) + all_tasks N gs c'"
      "steal_success r' = None \<longrightarrow> st' = (q', store) \<and> c' = c"
      using steal_others [OF h others assms(3), folded os_def] by (elim exE conjE) (rule that; assumption)
    show ?thesis
    proof (cases r')
      case (Success x)
      have "find_task_loop iquiet spurious (\<lambda>_. quiet) (\<lambda>_. quiet) d ss n (q, store) = Some (Some x, st')"
        by (subst find_task_loop.simps) (simp add: g o(1) Success del: quiet_apply quiet_shift)
      moreover have "os \<noteq> []" "first os = Some x" using o(4) Success by (auto simp: first_def)
      ultimately show ?thesis using o(2,5) q'(2) Success
        by (intro exI [of _ "Some x"] exI [of _ st'] exI [of _ gs] exI [of _ c']) auto
    next
      case no_task: Empty
      have "find_task_loop iquiet spurious (\<lambda>_. quiet) (\<lambda>_. quiet) d ss n (q, store)
          = find_task_loop iquiet spurious (\<lambda>_. quiet) (\<lambda>_. quiet) d ss (Suc n) (q', store)"
        using o(6) no_task by (subst find_task_loop.simps) (simp add: g o(1) del: quiet_apply quiet_shift)
      moreover have "m - clock q' < m - clock q" using q' assms(5) by (meson diff_less_mono2 leI order_less_trans)
      ultimately show ?thesis using less.hyps [OF _ h] by simp
    qed (use o(3) in simp)
  qed
qed

section \<open>Properties\<close>

text \<open>
  C13: \<open>find_task\<close>, when no other thread interferes, returns in spite of any finite number of
  spurious failures at the injector. It takes its task from the local queue if that has one, then
  the oldest of the injector, then the oldest of the first other thread that has one (after a
  spurious failure at the injector that last choice may come first); it answers that there is none
  only if there is none anywhere. The task it returns and the tasks in the queues afterwards are
  exactly the tasks from before: none is lost or duplicated.
\<close>

theorem find_task_complete:
  assumes "holds N (q, store) gs c" "insert d (inner ` set ss) \<subseteq> N" "finite N" "\<forall>k \<ge> m. \<not> spurious k"
  shows "\<exists>r st' gs' c'. find_task quiet iquiet spurious (\<lambda>_. quiet) (\<lambda>_. quiet) d ss (q, store) = Some (r, st')
    \<and> (r = chosen_task (flavor (store d)) (c d) gs (map (\<lambda>s. c (inner s)) ss)
       \<or> (\<exists>k. spurious k) \<and> c d = [] \<and> r = chosen_task Fifo [] [] (map (\<lambda>s. c (inner s)) ss) \<and> r \<noteq> None)
    \<and> holds N st' gs' c' \<and> all_tasks N gs c = mset (option_list r) + all_tasks N gs' c'"
proof -
  let ?fl = "flavor (store d)"
  have d: "d \<in> N" and r: "represents (store d) (c d)" using assms(1,2) by (auto simp: holds_def)
  obtain w ys where w: "worker_pop quiet (store d) = Some (first (pop_order ?fl (c d)), w)" "represents w ys"
    "mset (c d) = mset (option_list (first (pop_order ?fl (c d)))) + mset ys"
  proof (cases ?fl)
    case Fifo
    with worker_pop_quiet_fifo [OF r] that [of _ "tl (c d)"] show ?thesis by (cases "c d") auto
  next
    case Lifo
    with worker_pop_quiet_lifo [OF r] that [of _ "butlast (c d)"] show ?thesis by (cases "c d" rule: rev_cases) auto
  qed
  define c1 where "c1 = c(d := ys)"
  have h: "holds N (q, store(d := w)) gs c1" unfolding c1_def using assms(1) w(2) by (auto simp: holds_def)
  have a: "all_tasks N gs c = mset (option_list (first (pop_order ?fl (c d)))) + all_tasks N gs c1"
    using all_tasks_update [OF assms(3) d, of gs c ys] unfolding w(3) c1_def by (simp add: ac_simps)
  show ?thesis
  proof (cases "pop_order ?fl (c d)")
    case (Cons x xs)
    have "find_task quiet iquiet spurious (\<lambda>_. quiet) (\<lambda>_. quiet) d ss (q, store) = Some (Some x, q, store(d := w))"
      using w(1) Cons by (simp add: find_task_def del: quiet_apply quiet_shift)
    then show ?thesis using h a Cons
      by (intro exI [of _ "Some x"] exI [of _ "(q, store(d := w))"] exI [of _ gs] exI [of _ c1])
        (simp add: chosen_task_def del: quiet_apply quiet_shift)
  next
    case Nil
    then have n: "c d = []" "ys = []" using w(3) by (cases ?fl; simp)+
    then have c1: "c1 = c" unfolding c1_def by auto
    have "find_task quiet iquiet spurious (\<lambda>_. quiet) (\<lambda>_. quiet) d ss (q, store)
        = find_task_loop iquiet spurious (\<lambda>_. quiet) (\<lambda>_. quiet) d ss 0 (q, store(d := w))"
      using w(1) Nil by (simp add: find_task_def del: quiet_apply quiet_shift)
    moreover obtain r' st' gs' c' where "find_task_loop iquiet spurious (\<lambda>_. quiet) (\<lambda>_. quiet) d ss 0 (q, store(d := w)) = Some (r', st')"
      "r' = first (gs @ concat (map (\<lambda>s. c (inner s)) ss)) \<or> (\<exists>k. spurious k) \<and> concat (map (\<lambda>s. c (inner s)) ss) \<noteq> []
        \<and> r' = first (concat (map (\<lambda>s. c (inner s)) ss))"
      "holds N st' gs' c'" "all_tasks N gs c = mset (option_list r') + all_tasks N gs' c'"
      using find_task_loop_quiet [OF h [unfolded c1] assms(2,3) n(1) assms(4), of 0] by (elim exE conjE) (rule that; assumption)
    ultimately show ?thesis using Nil n
      by (intro exI [of _ r'] exI [of _ st'] exI [of _ gs'] exI [of _ c'])
        (auto simp: chosen_task_def first_eq_None simp del: quiet_apply quiet_shift)
  qed
qed

theorem find_task_complete_witness:
  "\<exists>(q :: nat injector) store c. holds {0, 1} (q, store) [] c \<and> c 0 = [] \<and> c 1 = [5, 6, 7] \<and>
    (\<exists>st' gs' c'. find_task quiet iquiet (\<lambda>_. False) (\<lambda>_. quiet) (\<lambda>_. quiet) 0 [\<lparr>inner = 1, sflavor = Fifo\<rparr>] (q, store) = Some (Some 5, st')
      \<and> holds {0, 1} st' gs' c' \<and> all_tasks {0, 1} [] c = {#5#} + all_tasks {0, 1} gs' c')"
proof -
  obtain q0 :: "nat worker" where q0: "represents q0 []" "flavor q0 = Fifo" using queue_exists [of "[]" Fifo] by auto
  obtain q1 :: "nat worker" where q1: "represents q1 [5, 6, 7]" using some_queue by blast
  let ?store = "\<lambda>i :: nat. if i = 0 then q0 else q1" and ?c = "\<lambda>i :: nat. if i = 0 then [] else [5, 6, 7 :: nat]"
  have h: "holds {0, 1} (injector_new :: nat injector, ?store) [] ?c"
    using q0(1) q1 injector_push_all [of "[] :: nat list" 0 "\<lambda>_. False"] by (simp add: holds_def)
  have "\<exists>st' gs' c'. find_task quiet iquiet (\<lambda>_. False) (\<lambda>_. quiet) (\<lambda>_. quiet) 0 [\<lparr>inner = 1, sflavor = Fifo\<rparr>] (injector_new, ?store) = Some (Some 5, st')
      \<and> holds {0, 1} st' gs' c' \<and> all_tasks {0, 1} [] ?c = {#5#} + all_tasks {0, 1} gs' c'"
    using find_task_complete [OF h, of 0 "[\<lparr>inner = 1, sflavor = Fifo\<rparr>]" 0 "\<lambda>_. False"] q0(2)
    by (simp add: chosen_task_def del: quiet_apply quiet_shift)
  then show ?thesis using h
    by (intro exI [of _ injector_new] exI [of _ ?store] exI [of _ ?c]) (simp del: quiet_apply quiet_shift)
qed

end
