(* ===== verification/Tasks.thy ===== *)
theory Tasks
  imports Prelude
begin

text \<open>
  Tasks of the executor (\<^verbatim>\<open>TaskId\<close>, \<^verbatim>\<open>Task\<close> and \<^verbatim>\<open>Yield\<close> of \<^verbatim>\<open>task/mod.rs\<close>, and the data of
  \<^verbatim>\<open>Executor\<close> and \<^verbatim>\<open>TaskWaker\<close> of \<^verbatim>\<open>task/executor.rs\<close>). A future is a value of a type \<open>'f\<close>; what
  polling it does is a parameter of the executor. A waker is the identifier of the task that it
  puts back into a ready queue.
\<close>

section \<open>Identifiers and tasks\<close>

type_synonym task_id = u64

datatype poll = Ready | Pending

record 'f task =
  task_id :: task_id
  future :: 'f

text \<open>\<^verbatim>\<open>TaskId::new\<close>: a fetch-and-add on the static counter, which wraps around.\<close>

definition task_id_new :: "u64 \<Rightarrow> task_id \<times> u64" where
  "task_id_new next_id = (next_id, next_id + 1)"

definition task_new :: "'f \<Rightarrow> u64 \<Rightarrow> 'f task \<times> u64" where
  "task_new fut next_id = (let (i, next_id) = task_id_new next_id in (\<lparr>task_id = i, future = fut\<rparr>, next_id))"

section \<open>Yielding\<close>

record yield =
  yielded :: bool

definition yield_default :: yield where
  "yield_default = \<lparr>yielded = False\<rparr>"

text \<open>\<^verbatim>\<open>Yield::poll\<close>: the second component is the number of calls of \<open>wake_by_ref\<close>.\<close>

definition yield_poll :: "yield \<Rightarrow> poll \<times> nat \<times> yield" where
  "yield_poll y = (if yielded y then (Ready, 0, y) else (Pending, 1, y\<lparr>yielded := True\<rparr>))"

text \<open>
  The body of a task that executes \<^verbatim>\<open>ayield!()\<close> a number of times: the list of its yields that are
  not finished, the one being awaited first.
\<close>

fun yields_poll :: "yield list \<Rightarrow> task_id \<Rightarrow> 's \<Rightarrow> poll \<times> yield list \<times> task_id list \<times> 's" where
  "yields_poll [] i s = (Ready, [], [], s)"
| "yields_poll (y # ys) i s =
     (case yield_poll y of
        (Ready, _, _) \<Rightarrow> yields_poll ys i s
      | (Pending, wakes, y) \<Rightarrow> (Pending, y # ys, replicate wakes i, s))"

fun yields_left :: "yield list \<Rightarrow> nat" where
  "yields_left [] = 0"
| "yields_left (y # ys) = (if yielded y then 0 else 1) + yields_left ys"

lemma yields_poll_left:
  "case yields_poll ys i s of
     (Ready, ys', ws, s') \<Rightarrow> ws = []
   | (Pending, ys', ws, s') \<Rightarrow> ws = [i] \<and> yields_left ys' < yields_left ys"
proof (induction ys)
  case (Cons y ys)
  then show ?case by (cases "yielded y") (auto simp: yield_poll_def split: prod.splits poll.splits)
qed simp

section \<open>The executor's tables\<close>

record 'f executor =
  etasks :: "task_id \<Rightarrow> 'f task option"
  waker_cache :: "task_id \<Rightarrow> task_id option"

definition executor_new :: "'f executor" where
  "executor_new = \<lparr>etasks = Map.empty, waker_cache = Map.empty\<rparr>"

text \<open>\<^verbatim>\<open>TaskWaker::new_waker\<close>.\<close>

definition task_waker :: "task_id \<Rightarrow> task_id" where
  "task_waker i = i"

end
