(* ===== verification/Cores.thy ===== *)
theory Cores
  imports Tasks Stealer_Ops
begin

text \<open>
  State local to a core (\<^verbatim>\<open>cores.rs\<close>): the table of the cores, the table of the stealers of their
  queues, and \<open>cpu()\<close>, which fills both at its first call on a core. Queues live in a store, since
  the worker of a core and its stealer share one; the core that executes is given by the value
  \<open>num\<close> of its local APIC's identification register. The handle of the epoch collector has no
  counterpart.
\<close>

section \<open>State\<close>

definition MAX_NUM_CPUS :: nat where "MAX_NUM_CPUS = 64"

record 'f core =
  timer :: usize
  executor :: "'f executor"
  worker :: nat

record 'f kernel =
  cpus :: "'f core option list"
  stealer_table :: "stealer option list"
  queues :: "nat \<Rightarrow> task_id worker"
  next_queue :: nat

definition kernel_init :: "(nat \<Rightarrow> task_id worker) \<Rightarrow> 'f kernel" where
  "kernel_init qs = \<lparr>cpus = replicate MAX_NUM_CPUS None, stealer_table = replicate MAX_NUM_CPUS None, queues = qs, next_queue = 0\<rparr>"

text \<open>\<^verbatim>\<open>Cpu::new\<close>; a \<^verbatim>\<open>TaskId\<close> has 8 bytes.\<close>

definition cpu_new :: "'f kernel \<Rightarrow> 'f core \<times> 'f kernel" where
  "cpu_new k =
     (\<lparr>timer = 0, executor = executor_new, worker = next_queue k\<rparr>,
      k\<lparr>queues := (queues k)(next_queue k := worker_new_fifo 8), next_queue := Suc (next_queue k)\<rparr>)"

text \<open>\<^verbatim>\<open>CpuKey::scope\<close> calls back with the key of the core that executes, which is its number.\<close>

definition cpu_scope :: "u32 \<Rightarrow> (u32 \<Rightarrow> 'a) \<Rightarrow> 'a" where
  [simp]: "cpu_scope num callback = callback num"

text \<open>\<open>cpu()\<close>: \<open>None\<close> is the panic of an index outside the table.\<close>

definition cpu :: "u32 \<Rightarrow> 'f kernel \<Rightarrow> ('f core \<times> 'f kernel) option" where
  "cpu num k = cpu_scope num (\<lambda>key.
     (let i = unat key
      in if i < length (cpus k) then
           case cpus k ! i of
             Some c \<Rightarrow> Some (c, k)
           | None \<Rightarrow>
               let (c, k) = cpu_new k;
                   k = k\<lparr>stealer_table := (stealer_table k)[i := Some (worker_stealer (worker c) (queues k (worker c)))]\<rparr>
               in Some (c, k\<lparr>cpus := (cpus k)[i := Some c]\<rparr>)
         else None))"

definition stealers :: "'f kernel \<Rightarrow> stealer list" where
  "stealers k = List.map_filter (\<lambda>st. st) (stealer_table k)"

section \<open>Invariant\<close>

text \<open>A core and its stealer agree on the queue, cores do not share queues, and queues in use are well-formed FIFO queues.\<close>

definition kernel_inv :: "'f kernel \<Rightarrow> bool" where
  "kernel_inv k \<longleftrightarrow> length (cpus k) = MAX_NUM_CPUS \<and>
     stealer_table k = map (map_option (\<lambda>c. \<lparr>inner = worker c, sflavor = Fifo\<rparr>)) (cpus k) \<and>
     (\<forall>i j c d. i < MAX_NUM_CPUS \<longrightarrow> j < MAX_NUM_CPUS \<longrightarrow> cpus k ! i = Some c \<longrightarrow> cpus k ! j = Some d \<longrightarrow> worker c = worker d \<longrightarrow> i = j) \<and>
     (\<forall>i c. i < MAX_NUM_CPUS \<longrightarrow> cpus k ! i = Some c \<longrightarrow> worker c < next_queue k) \<and>
     (\<forall>n < next_queue k. wf_worker (queues k n) \<and> flavor (queues k n) = Fifo)"

lemma kernel_inv_init: "kernel_inv (kernel_init qs)"
  by (simp add: kernel_inv_def kernel_init_def)

lemma kernel_invD:
  assumes "kernel_inv k"
  shows "length (cpus k) = MAX_NUM_CPUS"
    "stealers k = map (\<lambda>c. \<lparr>inner = worker c, sflavor = Fifo\<rparr>) (List.map_filter (\<lambda>c. c) (cpus k))"
    "\<lbrakk>i < MAX_NUM_CPUS; cpus k ! i = Some c\<rbrakk> \<Longrightarrow> worker c < next_queue k"
    "n < next_queue k \<Longrightarrow> represents (queues k n) (tasks (queues k n))" "n < next_queue k \<Longrightarrow> flavor (queues k n) = Fifo"
proof -
  show "stealers k = map (\<lambda>c. \<lparr>inner = worker c, sflavor = Fifo\<rparr>) (List.map_filter (\<lambda>c. c) (cpus k))"
    using assms by (auto simp: kernel_inv_def stealers_def map_filter_def filter_map comp_def option.map_sel intro!: map_cong filter_cong)
qed (use assms in \<open>auto simp: kernel_inv_def represents_iff\<close>)

lemma kernel_inv_queue:
  assumes "kernel_inv k" "represents q xs" "flavor q = Fifo"
  shows "kernel_inv (k\<lparr>queues := (queues k)(n := q)\<rparr>)"
  using assms by (auto simp: kernel_inv_def represents_iff)

lemma cpu_there:
  "\<lbrakk>kernel_inv k; unat num < MAX_NUM_CPUS; cpus k ! unat num = Some c\<rbrakk> \<Longrightarrow> cpu num k = Some (c, k)"
  by (simp add: cpu_def kernel_inv_def Let_def)

lemma cpu_first_call:
  assumes "kernel_inv k" "unat num < MAX_NUM_CPUS" "cpus k ! unat num = None"
  defines "c \<equiv> fst (cpu_new k)"
  defines "k' \<equiv> (snd (cpu_new k))\<lparr>stealer_table := (stealer_table k)[unat num := Some \<lparr>inner = worker c, sflavor = Fifo\<rparr>],
    cpus := (cpus k)[unat num := Some c]\<rparr>"
  shows "cpu num k = Some (c, k')" "kernel_inv k'"
proof -
  show "cpu num k = Some (c, k')"
    using assms by (simp add: cpu_def kernel_inv_def Let_def cpu_new_def worker_stealer_def worker_new_fifo_def worker_new_wf)
  note inv = assms(1) [unfolded kernel_inv_def]
  have l: "length (cpus k) = MAX_NUM_CPUS" and st: "stealer_table k = map (map_option (\<lambda>c. \<lparr>inner = worker c, sflavor = Fifo\<rparr>)) (cpus k)"
    using inv by blast+
  have w: "worker d < next_queue k" if "i < MAX_NUM_CPUS" "cpus k ! i = Some d" for i d
    using kernel_invD(3) [OF assms(1) that] .
  have k': "cpus k' = (cpus k)[unat num := Some c]" "next_queue k' = Suc (next_queue k)" "worker c = next_queue k"
    "queues k' = (queues k)(next_queue k := worker_new_fifo 8)"
    "stealer_table k' = (stealer_table k)[unat num := Some \<lparr>inner = worker c, sflavor = Fifo\<rparr>]"
    by (simp_all add: k'_def c_def cpu_new_def)
  show "kernel_inv k'" unfolding kernel_inv_def
  proof (intro conjI allI impI)
    show "stealer_table k' = map (map_option (\<lambda>c. \<lparr>inner = worker c, sflavor = Fifo\<rparr>)) (cpus k')"
      using k' st by (simp add: map_update)
    fix i d assume i: "i < MAX_NUM_CPUS" "cpus k' ! i = Some d"
    then show "worker d < next_queue k'" using k' l w [of i d] by (cases "i = unat num") auto
    fix j e assume "j < MAX_NUM_CPUS" "cpus k' ! j = Some e" "worker d = worker e"
    with i k' l show "i = j" using w [of i d] w [of j e] inv
      by (cases "i = unat num"; cases "j = unat num") auto
  qed (use k' l inv in \<open>auto simp: worker_new_fifo_def worker_new_wf less_Suc_eq\<close>)
qed

section \<open>Properties\<close>

text \<open>
  C20: \<open>cpu()\<close> on a core whose number is in range returns the state of that core, keeps the
  invariant (each core has its own well-formed FIFO queue, and the table of stealers holds exactly
  the stealers of these queues) and leaves the other cores alone; the next call finds the same
  state and changes nothing. At the first call on the core the queue is new and empty.
\<close>

theorem cpu_invariant:
  assumes "kernel_inv k" "unat num < MAX_NUM_CPUS"
  shows "\<exists>c k'. cpu num k = Some (c, k') \<and> kernel_inv k' \<and> cpu num k' = Some (c, k')
    \<and> cpus k' = (cpus k)[unat num := Some c] \<and> \<lparr>inner = worker c, sflavor = Fifo\<rparr> \<in> set (stealers k')
    \<and> (cpus k ! unat num = None \<longrightarrow> worker c = next_queue k \<and> tasks (queues k' (worker c)) = [])"
proof -
  have member: "\<lparr>inner = worker c, sflavor = Fifo\<rparr> \<in> set (stealers k')" if "kernel_inv k'" "cpus k' ! unat num = Some c" for c and k' :: "'a kernel"
    using kernel_invD(1,2) [OF that(1)] that(2) assms(2)
    by (force simp: map_filter_def in_set_conv_nth image_def)
  show ?thesis
  proof (cases "cpus k ! unat num")
    case None
    note f = cpu_first_call [OF assms None]
    show ?thesis using f member [OF f(2)] cpu_there [OF f(2) assms(2)] assms(2) kernel_invD(1) [OF assms(1)]
      by (auto simp: cpu_new_def worker_new_fifo_def worker_new_wf)
  next
    case (Some c)
    show ?thesis using cpu_there [OF assms Some] member [OF assms(1) Some] assms(1) Some list_update_id [of "cpus k" "unat num"] by auto
  qed
qed

theorem cpu_invariant_witness:
  "\<exists>c (k' :: nat kernel). cpu 3 (kernel_init (\<lambda>_. worker_new Fifo 8)) = Some (c, k') \<and> kernel_inv k' \<and> cpu 3 k' = Some (c, k')
    \<and> worker c = 0 \<and> tasks (queues k' 0) = []"
proof -
  let ?k = "kernel_init (\<lambda>_. worker_new Fifo 8) :: nat kernel"
  have "unat (3 :: u32) < MAX_NUM_CPUS" "cpus ?k ! unat (3 :: u32) = None" "next_queue ?k = 0"
    by (simp_all add: kernel_init_def MAX_NUM_CPUS_def)
  with cpu_invariant [OF kernel_inv_init, of 3 "\<lambda>_. worker_new Fifo 8", where 'a = nat] show ?thesis by force
qed

lemma cpu_outside: "\<lbrakk>length (cpus k) = MAX_NUM_CPUS; MAX_NUM_CPUS \<le> unat num\<rbrakk> \<Longrightarrow> cpu num k = None"
  by (simp add: cpu_def Let_def)

end
