(* ===== verification/Executor.thy ===== *)
theory Executor
  imports Cores
begin

text \<open>
  The executor of a core (\<^verbatim>\<open>task/executor.rs\<close>): \<open>spawn\<close>, the loop that polls ready tasks, the
  wakers and the attempt to steal before the core halts. A future's \<^verbatim>\<open>poll\<close> is a parameter: from
  the future, the waker it is given and the rest of the system's state \<open>'s\<close> it computes
  whether it is done, the future afterwards, the tasks that it wakes in this order, and the
  state. A poll cannot spawn through \<^verbatim>\<open>cpu().executor\<close>, which \<open>run\<close> keeps borrowed.

  \<open>env\<close> is what the thieves of the other cores do during each operation on a queue.
\<close>

type_synonym ('f, 's) poll_fn = "'f \<Rightarrow> task_id \<Rightarrow> 's \<Rightarrow> poll \<times> 'f \<times> task_id list \<times> 's"

section \<open>Operations\<close>

text \<open>\<^verbatim>\<open>cpu().worker.push(i)\<close>, which is also what a waker does, and \<^verbatim>\<open>cpu().worker.pop()\<close>.\<close>

definition push_local :: "task_id env \<Rightarrow> u32 \<Rightarrow> task_id \<Rightarrow> 'f kernel \<Rightarrow> 'f kernel option" where
  "push_local env num i k = do {
     (c, k) \<leftarrow> cpu num k;
     q \<leftarrow> worker_push env i (queues k (worker c));
     Some (k\<lparr>queues := (queues k)(worker c := q)\<rparr>) }"

definition pop_local :: "task_id env \<Rightarrow> u32 \<Rightarrow> 'f kernel \<Rightarrow> (task_id option \<times> 'f kernel) option" where
  "pop_local env num k = do {
     (c, k) \<leftarrow> cpu num k;
     (r, q) \<leftarrow> worker_pop env (queues k (worker c));
     Some (r, k\<lparr>queues := (queues k)(worker c := q)\<rparr>) }"

definition wake_task :: "task_id env \<Rightarrow> u32 \<Rightarrow> task_id \<Rightarrow> 'f kernel \<Rightarrow> 'f kernel option" where
  "wake_task env num i k = push_local env num i k"

text \<open>\<open>spawn\<close>: \<open>None\<close> is the panic when the identifier is taken.\<close>

definition spawn :: "task_id env \<Rightarrow> u32 \<Rightarrow> 'f task \<Rightarrow> 'f executor \<times> 'f kernel \<Rightarrow> ('f executor \<times> 'f kernel) option" where
  "spawn env num task = (\<lambda>(ex, k).
     let i = task_id task; old = etasks ex i; ex = ex\<lparr>etasks := (etasks ex)(i \<mapsto> task)\<rparr>
     in if old \<noteq> None then None
        else do { k \<leftarrow> push_local env num i k; Some (ex, k) })"

text \<open>One turn of a task that exists: its waker comes from the cache, and a task that is done is removed.\<close>

definition poll_task :: "('f, 's) poll_fn \<Rightarrow> task_id \<Rightarrow> 'f task \<Rightarrow> 'f executor \<Rightarrow> 's \<Rightarrow> task_id list \<times> 'f executor \<times> 's" where
  "poll_task poll i task ex s =
     (let waker = (case waker_cache ex i of Some w \<Rightarrow> w | None \<Rightarrow> task_waker i);
          ex = ex\<lparr>waker_cache := (waker_cache ex)(i \<mapsto> waker)\<rparr>;
          (r, fut, woken, s) = poll (future task) waker s
      in (woken,
          case r of
            Ready \<Rightarrow> ex\<lparr>etasks := (etasks ex)(i := None), waker_cache := (waker_cache ex)(i := None)\<rparr>
          | Pending \<Rightarrow> ex\<lparr>etasks := (etasks ex)(i \<mapsto> task\<lparr>future := fut\<rparr>)\<rparr>,
          s))"

text \<open>The loop of \<open>run_ready_tasks\<close>; \<open>env n 0\<close> is for the pop of round \<open>n\<close>, \<open>env n 1\<close> for its wake-ups.\<close>

partial_function (option) run_ready_tasks :: "(nat \<Rightarrow> nat \<Rightarrow> task_id env) \<Rightarrow> ('f, 's) poll_fn \<Rightarrow> u32 \<Rightarrow> nat
    \<Rightarrow> 'f executor \<Rightarrow> 'f kernel \<Rightarrow> 's \<Rightarrow> ('f executor \<times> 'f kernel \<times> 's) option" where
  "run_ready_tasks env poll num n ex k s = do {
     (r, k) \<leftarrow> pop_local (env n 0) num k;
     case r of
       None \<Rightarrow> Some (ex, k, s)
     | Some i \<Rightarrow>
         (case etasks ex i of
            None \<Rightarrow> run_ready_tasks env poll num (Suc n) ex k s
          | Some task \<Rightarrow>
              let (woken, ex, s) = poll_task poll i task ex s
              in do {
                k \<leftarrow> for_in woken (wake_task (env n 1) num) k;
                run_ready_tasks env poll num (Suc n) ex k s }) }"

text \<open>The inner loop of \<open>sleep_if_idle\<close>: \<open>steal_batch\<close> until it does not ask for a retry.\<close>

partial_function (option) steal_retry :: "(nat \<Rightarrow> task_id env) \<Rightarrow> (nat \<Rightarrow> task_id env) \<Rightarrow> u32 \<Rightarrow> stealer \<Rightarrow> nat
    \<Rightarrow> 'f kernel \<Rightarrow> (unit steal \<times> 'f kernel) option" where
  "steal_retry env denv num st n k = do {
     (c, k) \<leftarrow> cpu num k;
     (r, qs) \<leftarrow> stealer_steal_batch st (env n) (denv n) (worker c) (queues k);
     let k = k\<lparr>queues := qs\<rparr>;
     if steal_is_retry r then steal_retry env denv num st (Suc n) k else Some (r, k) }"

fun steal_any :: "(nat \<Rightarrow> task_id env) \<Rightarrow> (nat \<Rightarrow> task_id env) \<Rightarrow> u32 \<Rightarrow> stealer list \<Rightarrow> 'f kernel \<Rightarrow> (bool \<times> 'f kernel) option" where
  "steal_any env denv num [] k = Some (False, k)"
| "steal_any env denv num (st # sts) k = do {
     (r, k) \<leftarrow> steal_retry env denv num st 0 k;
     if steal_is_success r then Some (True, k) else steal_any env denv num sts k }"

text \<open>\<open>sleep_if_idle\<close>: whether interrupts are enabled afterwards, whether the core halted, and the state.\<close>

definition sleep_if_idle :: "(nat \<Rightarrow> task_id env) \<Rightarrow> (nat \<Rightarrow> task_id env) \<Rightarrow> u32 \<Rightarrow> 'f kernel \<Rightarrow> (bool \<times> bool \<times> 'f kernel) option" where
  "sleep_if_idle env denv num k = do {
     let interrupts = False;
     (c, k) \<leftarrow> cpu num k;
     if worker_is_empty (queues k (worker c)) then do {
       (found, k) \<leftarrow> steal_any env denv num (stealers k) k;
       if \<not> found then Some (True, True, k) else Some (interrupts, False, k) }
     else Some (True, False, k) }"

text \<open>One round of the endless loop of \<open>run\<close>.\<close>

definition run_round :: "(nat \<Rightarrow> nat \<Rightarrow> task_id env) \<Rightarrow> (nat \<Rightarrow> task_id env) \<Rightarrow> (nat \<Rightarrow> task_id env) \<Rightarrow> ('f, 's) poll_fn \<Rightarrow> u32
    \<Rightarrow> 'f executor \<Rightarrow> 'f kernel \<Rightarrow> 's \<Rightarrow> (bool \<times> bool \<times> 'f executor \<times> 'f kernel \<times> 's) option" where
  "run_round env senv denv poll num ex k s = do {
     (ex, k, s) \<leftarrow> run_ready_tasks env poll num 0 ex k s;
     (intr, halted, k) \<leftarrow> sleep_if_idle senv denv num k;
     Some (intr, halted, ex, k, s) }"

declare quiet_apply [simp del] quiet_shift [simp del]

section \<open>Specification: a list of ready tasks\<close>

text \<open>
  Round robin over a list of ready identifiers that never has more than \<open>2 ^ 62\<close> entries:
  take the first, poll its task if there is one, append what it wakes.
\<close>

partial_function (option) round_robin :: "('f, 's) poll_fn \<Rightarrow> 'f executor \<Rightarrow> task_id list \<Rightarrow> 's \<Rightarrow> ('f executor \<times> 's) option" where
  "round_robin poll ex ready s =
     (case ready of
        [] \<Rightarrow> Some (ex, s)
      | i # ready \<Rightarrow>
          (case etasks ex i of
             None \<Rightarrow> round_robin poll ex ready s
           | Some task \<Rightarrow>
               let (woken, ex, s) = poll_task poll i task ex s
               in if length (ready @ woken) \<le> 2 ^ 62 then round_robin poll ex (ready @ woken) s else None))"

text \<open>Core \<open>num\<close> is set up and its queue holds \<open>ready\<close>.\<close>

definition core_ready :: "u32 \<Rightarrow> 'f core \<Rightarrow> task_id list \<Rightarrow> 'f kernel \<Rightarrow> bool" where
  "core_ready num c ready k \<longleftrightarrow> kernel_inv k \<and> unat num < MAX_NUM_CPUS \<and> cpus k ! unat num = Some c
     \<and> represents (queues k (worker c)) ready"

definition same_but_queue :: "'f core \<Rightarrow> 'f kernel \<Rightarrow> 'f kernel \<Rightarrow> bool" where
  "same_but_queue c k k' \<longleftrightarrow> (\<exists>q. k' = k\<lparr>queues := (queues k)(worker c := q)\<rparr>)"

lemma same_but_queue_refl [simp]: "same_but_queue c k k"
  unfolding same_but_queue_def by (rule exI [of _ "queues k (worker c)"]) simp

lemma same_but_queue_trans: "\<lbrakk>same_but_queue c k k'; same_but_queue c k' k''\<rbrakk> \<Longrightarrow> same_but_queue c k k''"
  by (auto simp: same_but_queue_def)

lemma core_ready_cpu: "core_ready num c ready k \<Longrightarrow> cpu num k = Some (c, k)"
  by (simp add: core_ready_def cpu_there)

lemma core_ready_fifo: "core_ready num c ready k \<Longrightarrow> flavor (queues k (worker c)) = Fifo"
  unfolding core_ready_def by (metis kernel_invD(3,5))

lemma core_ready_update:
  assumes "core_ready num c ready k" "represents q ready'" "flavor q = Fifo"
  shows "core_ready num c ready' (k\<lparr>queues := (queues k)(worker c := q)\<rparr>)"
  using assms kernel_inv_queue [of k q ready' "worker c"] by (simp add: core_ready_def)

lemma push_local_ready:
  assumes "core_ready num c ready k" "length ready < 2 ^ 62"
  shows "\<exists>k'. push_local quiet num i k = Some k' \<and> core_ready num c (ready @ [i]) k' \<and> same_but_queue c k k'"
proof -
  obtain q where "worker_push quiet i (queues k (worker c)) = Some q" "represents q (ready @ [i])" "flavor q = Fifo"
    using worker_push_quiet [of "queues k (worker c)" ready i] assms core_ready_fifo [OF assms(1)] by (auto simp: core_ready_def)
  then show ?thesis
    using core_ready_update [OF assms(1)] by (auto simp: push_local_def core_ready_cpu [OF assms(1)] same_but_queue_def)
qed

lemma wake_all_ready:
  assumes "core_ready num c ready k" "length (ready @ ws) \<le> 2 ^ 62"
  shows "\<exists>k'. for_in ws (wake_task quiet num) k = Some k' \<and> core_ready num c (ready @ ws) k' \<and> same_but_queue c k k'"
  using assms
proof (induction ws arbitrary: ready k)
  case (Cons w ws)
  then obtain k1 where k1: "push_local quiet num w k = Some k1" "core_ready num c (ready @ [w]) k1" "same_but_queue c k k1"
    using push_local_ready [of num c ready k w] by auto
  with Cons.IH [OF k1(2)] Cons.prems(2) show ?case by (auto simp: wake_task_def intro: same_but_queue_trans)
qed auto

lemma pop_local_ready:
  assumes "core_ready num c ready k"
  shows "\<exists>k'. pop_local quiet num k = Some (case ready of [] \<Rightarrow> None | i # _ \<Rightarrow> Some i, k') \<and> core_ready num c (tl ready) k'
    \<and> same_but_queue c k k'"
proof -
  obtain q where "worker_pop quiet (queues k (worker c)) = Some (case ready of [] \<Rightarrow> None | i # _ \<Rightarrow> Some i, q)"
    "represents q (tl ready)" "flavor q = Fifo"
    using worker_pop_quiet_fifo [of "queues k (worker c)" ready] assms core_ready_fifo [OF assms] by (auto simp: core_ready_def)
  then show ?thesis
    using core_ready_update [OF assms] by (auto simp: pop_local_def core_ready_cpu [OF assms] same_but_queue_def)
qed

abbreviation run_quiet :: "('f, 's) poll_fn \<Rightarrow> u32 \<Rightarrow> nat \<Rightarrow> 'f executor \<Rightarrow> 'f kernel \<Rightarrow> 's \<Rightarrow> ('f executor \<times> 'f kernel \<times> 's) option" where
  "run_quiet \<equiv> run_ready_tasks (\<lambda>_ _. quiet)"

lemma run_refines_round_robin:
  assumes ret: "round_robin poll ex ready s = Some (ex', s')"
  shows "\<forall>k n. core_ready num c ready k \<longrightarrow>
    (\<exists>k'. run_quiet poll num n ex k s = Some (ex', k', s') \<and> core_ready num c [] k' \<and> same_but_queue c k k')"
proof -
  let ?P = "\<lambda>ex ready s r. \<forall>k n. core_ready num c ready k \<longrightarrow>
    (\<exists>k'. run_quiet poll num n ex k s = Some (fst r, k', snd r) \<and> core_ready num c [] k' \<and> same_but_queue c k k')"
  have "?P ex ready s (ex', s')"
  proof (rule round_robin.raw_induct [where P = "\<lambda>p ex ready s r. p = poll \<longrightarrow> ?P ex ready s r", OF _ ret, THEN mp])
    fix f p ex ready s r
    assume IH: "\<And>p ex ready s r. f p ex ready s = Some r \<Longrightarrow> p = poll \<longrightarrow> ?P ex ready s r"
      and eq: "(case ready of
          [] \<Rightarrow> Some (ex, s)
        | i # ready \<Rightarrow>
            (case etasks ex i of
               None \<Rightarrow> f p ex ready s
             | Some task \<Rightarrow>
                 let (woken, ex, s) = poll_task p i task ex s
                 in if length (ready @ woken) \<le> 2 ^ 62 then f p ex (ready @ woken) s else None)) = Some r"
    show "p = poll \<longrightarrow> ?P ex ready s r"
    proof (intro impI allI)
      fix k n assume p: "p = poll" and k: "core_ready num c ready k"
      obtain k1 where k1: "pop_local quiet num k = Some (case ready of [] \<Rightarrow> None | i # _ \<Rightarrow> Some i, k1)"
        "core_ready num c (tl ready) k1" "same_but_queue c k k1" using pop_local_ready [OF k] by blast
      show "\<exists>k'. run_quiet poll num n ex k s = Some (fst r, k', snd r) \<and> core_ready num c [] k' \<and> same_but_queue c k k'"
      proof (cases ready)
        case Nil
        then show ?thesis using k1 eq by (subst run_ready_tasks.simps) auto
      next
        case (Cons i rest)
        show ?thesis
        proof (cases "etasks ex i")
          case None
          with eq Cons p have "?P ex rest s r" using IH by simp
          moreover have "core_ready num c rest k1" using k1(2) Cons by simp
          ultimately obtain k' where "run_quiet poll num (Suc n) ex k1 s = Some (fst r, k', snd r)" "core_ready num c [] k'" "same_but_queue c k1 k'"
            by blast
          then show ?thesis using k1 Cons None
            by (subst run_ready_tasks.simps) (auto intro: same_but_queue_trans)
        next
          case (Some task)
          obtain ws ex1 s1 where t: "poll_task poll i task ex s = (ws, ex1, s1)" by (cases "poll_task poll i task ex s")
          with eq Cons Some p have le: "length (rest @ ws) \<le> 2 ^ 62" and P: "?P ex1 (rest @ ws) s1 r"
            using IH by (simp_all split: if_splits)
          obtain k2 where k2: "for_in ws (wake_task quiet num) k1 = Some k2" "core_ready num c (rest @ ws) k2" "same_but_queue c k1 k2"
            using wake_all_ready [of num c rest k1 ws] k1(2) Cons le by auto
          moreover from P k2(2) obtain k' where "run_quiet poll num (Suc n) ex1 k2 s1 = Some (fst r, k', snd r)"
            "core_ready num c [] k'" "same_but_queue c k2 k'" by blast
          ultimately show ?thesis using k1 Cons Some t
            by (subst run_ready_tasks.simps) (auto intro: same_but_queue_trans)
        qed
      qed
    qed
  qed simp
  then show ?thesis by simp
qed

section \<open>Tasks that come to an end\<close>

text \<open>The executor's tables: a task is filed under its identifier, its cached waker wakes it.\<close>

definition executor_inv :: "'f executor \<Rightarrow> bool" where
  "executor_inv ex \<longleftrightarrow> (\<forall>i t. etasks ex i = Some t \<longrightarrow> task_id t = i) \<and>
     (\<forall>i w. waker_cache ex i = Some w \<longrightarrow> w = i \<and> etasks ex i \<noteq> None)"

text \<open>
  A future that is done wakes nobody; one that is not wakes its own task once, and comes closer to
  its end, as measured by \<open>m\<close>.
\<close>

definition settles :: "('f \<Rightarrow> nat) \<Rightarrow> ('f, 's) poll_fn \<Rightarrow> bool" where
  "settles m poll \<longleftrightarrow> (\<forall>f i s. case poll f i s of
     (Ready, f', ws, s') \<Rightarrow> ws = []
   | (Pending, f', ws, s') \<Rightarrow> ws = [i] \<and> m f' < m f)"

definition cost :: "('f \<Rightarrow> nat) \<Rightarrow> 'f executor \<Rightarrow> task_id \<Rightarrow> nat" where
  "cost m ex i = (case etasks ex i of None \<Rightarrow> 1 | Some t \<Rightarrow> 2 + m (future t))"

lemma poll_task_settles:
  assumes "executor_inv ex" "settles m poll" "etasks ex i = Some t"
  obtains (Ready) ex' s' where "poll_task poll i t ex s = ([], ex', s')" "etasks ex' = (etasks ex)(i := None)" "executor_inv ex'"
  | (Pending) t' ex' s' where "poll_task poll i t ex s = ([i], ex', s')" "etasks ex' = (etasks ex)(i \<mapsto> t')"
      "m (future t') < m (future t)" "executor_inv ex'"
proof -
  have w: "(case waker_cache ex i of Some w \<Rightarrow> w | None \<Rightarrow> task_waker i) = i"
    using assms(1) by (auto simp: executor_inv_def task_waker_def split: option.splits)
  obtain r f ws s1 where p: "poll (future t) i s = (r, f, ws, s1)" by (cases "poll (future t) i s")
  have q: "case r of Ready \<Rightarrow> ws = [] | Pending \<Rightarrow> ws = [i] \<and> m f < m (future t)"
    using assms(2) p unfolding settles_def by (metis (mono_tags, lifting) case_prod_conv)
  show ?thesis
  proof (cases r)
    case Ready
    then show ?thesis using p q w assms(1) that(1) by (simp add: poll_task_def Let_def executor_inv_def)
  next
    case Pending
    then show ?thesis using p q w assms(1,3) that(2) [of _ _ "t\<lparr>future := f\<rparr>"]
      by (simp add: poll_task_def Let_def executor_inv_def)
  qed
qed

lemma cost_sum_less:
  assumes "\<And>j. cost m ex' j \<le> cost m ex j" "sum_list (map (cost m ex') ws) < cost m ex i"
  shows "sum_list (map (cost m ex') (rest @ ws)) < sum_list (map (cost m ex) (i # rest))"
  using assms(2) sum_list_mono [of rest "cost m ex'" "cost m ex"] assms(1) by simp

lemma round_robin_settles:
  assumes "settles m poll" "executor_inv ex" "length ready \<le> 2 ^ 62"
  shows "\<exists>ex' s'. round_robin poll ex ready s = Some (ex', s') \<and> executor_inv ex'
    \<and> (\<forall>i. etasks ex' i = (if i \<in> set ready then None else etasks ex i))"
  using assms(2,3)
proof (induction "sum_list (map (cost m ex) ready)" arbitrary: ex ready s rule: less_induct)
  case less
  show ?case
  proof (cases ready)
    case Nil
    then show ?thesis using less.prems by (subst round_robin.simps) simp
  next
    case (Cons i rest)
    show ?thesis
    proof (cases "etasks ex i")
      case None
      then have "sum_list (map (cost m ex) rest) < sum_list (map (cost m ex) ready)" by (simp add: Cons cost_def)
      then obtain ex' s' where "round_robin poll ex rest s = Some (ex', s')" "executor_inv ex'"
        "\<forall>i. etasks ex' i = (if i \<in> set rest then None else etasks ex i)"
        using less.hyps [OF _ less.prems(1)] less.prems(2) Cons by fastforce
      then show ?thesis using Cons None by (subst round_robin.simps) auto
    next
      case (Some t)
      from less.prems(1) assms(1) Some show ?thesis
      proof (cases rule: poll_task_settles [where s = s])
        case (Ready ex' s')
        have "sum_list (map (cost m ex') (rest @ [])) < sum_list (map (cost m ex) (i # rest))"
          by (rule cost_sum_less) (auto simp: cost_def Ready Some split: option.splits)
        from less.hyps [OF _ Ready(3), of "rest @ []" s'] this less.prems(2) show ?thesis
          using Cons Some Ready by (subst round_robin.simps) (simp, force)
      next
        case (Pending t' ex' s')
        have "sum_list (map (cost m ex') (rest @ [i])) < sum_list (map (cost m ex) (i # rest))"
          by (rule cost_sum_less) (use Pending(3) in \<open>auto simp: cost_def Pending(2) Some split: option.splits\<close>)
        from less.hyps [OF _ Pending(4), of "rest @ [i]" s'] this less.prems(2) show ?thesis
          using Cons Some Pending by (subst round_robin.simps) (simp, force)
      qed
    qed
  qed
qed

text \<open>Identifiers without a task are skipped.\<close>

lemma round_robin_unknown:
  "\<forall>i \<in> set ready. etasks ex i = None \<Longrightarrow> round_robin poll ex ready s = Some (ex, s)"
  by (induction ready) (subst round_robin.simps, simp)+

section \<open>Stealing before halting\<close>

lemma steal_retry_empty:
  assumes "core_ready num c [] k" "represents (queues k (inner st)) []"
  shows "steal_retry (\<lambda>_. quiet) (\<lambda>_. quiet) num st n k = Some (Empty, k)"
proof -
  have "worker_is_empty (queues k (worker c))" using assms(1) worker_is_empty_represents [of _ "[]"] by (auto simp: core_ready_def)
  moreover have "stealer_steal_batch st quiet quiet (worker c) (queues k) = Some (Empty, queues k)"
    using calculation representsD(11) [OF assms(2)] by (simp add: stealer_steal_batch_def steal_batch_body_def quiet_apply)
  ultimately show ?thesis by (subst steal_retry.simps) (simp add: core_ready_cpu [OF assms(1)])
qed

lemma steal_retry_success:
  assumes "core_ready num c [] k" "represents (queues k (inner st)) xs" "xs \<noteq> []" "sflavor st = Fifo" "inner st < next_queue k"
  shows "\<exists>k'. steal_retry (\<lambda>_. quiet) (\<lambda>_. quiet) num st n k = Some (Success (), k') \<and> core_ready num c (take (batch_count (length xs)) xs) k'
    \<and> represents (queues k' (inner st)) (drop (batch_count (length xs)) xs)"
proof -
  let ?n = "batch_count (length xs)" and ?src = "queues k (inner st)"
  let ?src' = "?src\<lparr>front := front ?src + of_nat ?n\<rparr>"
  have r: "represents (queues k (worker c)) []" and w: "worker c < next_queue k"
    using assms(1) kernel_invD(3) by (auto simp: core_ready_def)
  have ne: "inner st \<noteq> worker c" using assms(2,3) r by (auto simp: represents_iff)
  obtain d where d: "steal_batch_body Fifo quiet quiet ?src (queues k (worker c)) = Some (Success (), ?src', d)"
    "represents d (take ?n xs)" "flavor d = Fifo"
    using steal_batch_body_quiet [OF assms(2) r assms(3), of Fifo] core_ready_fifo [OF assms(1)] by (auto simp: arranged_def)
  have s: "represents ?src' (drop ?n xs)" by (rule represents_drop [OF assms(2) batch_count_le(1)])
  let ?k = "k\<lparr>queues := (queues k)(inner st := ?src', worker c := d)\<rparr>"
  have "steal_retry (\<lambda>_. quiet) (\<lambda>_. quiet) num st n k = Some (Success (), ?k)"
    using d(1) ne assms(4) by (subst steal_retry.simps) (simp add: core_ready_cpu [OF assms(1)] stealer_steal_batch_def)
  moreover have "kernel_inv ?k"
    using kernel_inv_queue [OF kernel_inv_queue [OF _ s, of k "inner st"] d(2,3), of "worker c"] assms(1,5) kernel_invD(5) [of k "inner st"]
    by (simp add: core_ready_def)
  ultimately show ?thesis using assms(1) d(2) s ne by (intro exI [of _ ?k]) (simp add: core_ready_def)
qed

lemma steal_any_quiet:
  assumes "core_ready num c [] k" "\<forall>st \<in> set sts. sflavor st = Fifo \<and> inner st < next_queue k"
  shows "(case filter (\<lambda>st. tasks (queues k (inner st)) \<noteq> []) sts of
      [] \<Rightarrow> steal_any (\<lambda>_. quiet) (\<lambda>_. quiet) num sts k = Some (False, k)
    | st # _ \<Rightarrow> let xs = tasks (queues k (inner st)); n = batch_count (length xs)
        in \<exists>k'. steal_any (\<lambda>_. quiet) (\<lambda>_. quiet) num sts k = Some (True, k') \<and> core_ready num c (take n xs) k'
           \<and> represents (queues k' (inner st)) (drop n xs))"
  using assms(2)
proof (induction sts)
  case (Cons st sts)
  have r: "represents (queues k (inner st)) (tasks (queues k (inner st)))"
    using assms(1) Cons.prems kernel_invD(4) [of k "inner st"] by (simp add: core_ready_def)
  show ?case
  proof (cases "tasks (queues k (inner st)) = []")
    case True
    then have e: "steal_any (\<lambda>_. quiet) (\<lambda>_. quiet) num (st # sts) k = steal_any (\<lambda>_. quiet) (\<lambda>_. quiet) num sts k"
      using steal_retry_empty [OF assms(1), of st 0] r by simp
    show ?thesis unfolding e using Cons True by simp
  next
    case False
    then show ?thesis using steal_retry_success [OF assms(1) r, of 0] Cons.prems by (auto simp: Let_def)
  qed
qed simp

lemma kernel_stealers:
  assumes "kernel_inv k"
  shows "\<forall>st \<in> set (stealers k). sflavor st = Fifo \<and> inner st < next_queue k"
    "inner ` set (stealers k) = {worker u | u i. i < MAX_NUM_CPUS \<and> cpus k ! i = Some u}"
  using kernel_invD(1-3) [OF assms] by (force simp: map_filter_def in_set_conv_nth)+

section \<open>Properties\<close>

text \<open>Kernels with one and with two cores set up, for concrete inputs; the tasks yield twice.\<close>

lemma two_cores:
  assumes "length xs \<le> 2 ^ 62" "length ys \<le> 2 ^ 62"
  shows "\<exists>c d (k :: 'f kernel). core_ready 0 c xs k \<and> core_ready 1 d ys k \<and> stealers k = [\<lparr>inner = worker c, sflavor = Fifo\<rparr>, \<lparr>inner = worker d, sflavor = Fifo\<rparr>]
    \<and> (\<forall>i u. i < MAX_NUM_CPUS \<longrightarrow> cpus k ! i = Some u \<longrightarrow> i = 0 \<and> u = c \<or> i = 1 \<and> u = d)"
proof -
  obtain q r :: "task_id worker" where q: "represents q xs" "flavor q = Fifo" "represents r ys" "flavor r = Fifo"
    using queue_exists [OF assms(1)] queue_exists [OF assms(2)] by blast
  define c d :: "'f core" where "c = \<lparr>timer = 0, executor = executor_new, worker = 0\<rparr>" and "d = \<lparr>timer = 0, executor = executor_new, worker = 1\<rparr>"
  let ?st = "\<lambda>c :: 'f core. \<lparr>inner = worker c, sflavor = Fifo\<rparr>"
  let ?k = "\<lparr>cpus = Some c # Some d # replicate 62 None, stealer_table = Some (?st c) # Some (?st d) # replicate 62 None,
    queues = (\<lambda>i. if i = 0 then q else r), next_queue = 2\<rparr>"
  have n: "i = 0 \<and> u = c \<or> i = 1 \<and> u = d" if "i < 64" "(Some c # Some d # replicate 62 None) ! i = Some u" for i u
    using that by (cases i; cases "i - 1") (auto split: if_splits)
  have w: "worker c = 0" "worker d = 1" by (simp_all add: c_def d_def)
  have "kernel_inv ?k" unfolding kernel_inv_def
  proof (intro conjI allI impI)
    fix i j u v assume "i < MAX_NUM_CPUS" "j < MAX_NUM_CPUS" "cpus ?k ! i = Some u" "cpus ?k ! j = Some v" "worker u = worker v"
    then show "i = j" using n [of i u] n [of j v] w by (auto simp: MAX_NUM_CPUS_def)
  next
    fix i u assume "i < MAX_NUM_CPUS" "cpus ?k ! i = Some u"
    then show "worker u < next_queue ?k" using n [of i u] w by (auto simp: MAX_NUM_CPUS_def)
  qed (use q in \<open>auto simp: MAX_NUM_CPUS_def represents_iff\<close>)
  then have "core_ready 0 c xs ?k" "core_ready 1 d ys ?k" using q w by (simp_all add: core_ready_def MAX_NUM_CPUS_def)
  moreover have "stealers ?k = [?st c, ?st d]" by (simp add: stealers_def map_filter_def filter_replicate)
  moreover have "\<forall>i u. i < MAX_NUM_CPUS \<longrightarrow> cpus ?k ! i = Some u \<longrightarrow> i = 0 \<and> u = c \<or> i = 1 \<and> u = d"
    using n by (simp add: MAX_NUM_CPUS_def)
  ultimately show ?thesis by blast
qed

lemma some_core: "length ready \<le> 2 ^ 62 \<Longrightarrow> \<exists>c k. core_ready 0 c ready (k :: 'f kernel)"
  using two_cores [of ready "[]"] by auto

definition two_yields :: "task_id \<Rightarrow> yield list task" where
  "two_yields i = \<lparr>task_id = i, future = [yield_default, yield_default]\<rparr>"

definition two_tasks :: "yield list executor" where
  "two_tasks = \<lparr>etasks = [5 \<mapsto> two_yields 5, 6 \<mapsto> two_yields 6], waker_cache = Map.empty\<rparr>"

lemma two_tasks_inv: "executor_inv two_tasks"
  by (auto simp: executor_inv_def two_tasks_def two_yields_def split: if_splits)

lemma yields_settle: "settles yields_left yields_poll"
  unfolding settles_def by (intro allI) (rule yields_poll_left)

text \<open>
  C11: \<open>run_ready_tasks\<close> on a core implements round robin over its ready queue: whenever the
  specification on lists comes to an end, so does the loop, with the same executor and system
  state, an empty queue, and nothing else of the kernel changed.
\<close>

theorem run_ready_tasks_refines:
  assumes "round_robin poll ex ready s = Some (ex', s')" "core_ready num c ready k"
  shows "\<exists>k'. run_ready_tasks (\<lambda>_ _. quiet) poll num 0 ex k s = Some (ex', k', s') \<and> core_ready num c [] k' \<and> same_but_queue c k k'"
  using run_refines_round_robin [OF assms(1)] assms(2) by blast

theorem run_ready_tasks_refines_witness:
  "\<exists>c (k :: yield list kernel). core_ready 0 c [7, 8] k \<and>
    (\<exists>k'. run_ready_tasks (\<lambda>_ _. quiet) yields_poll 0 0 two_tasks k () = Some (two_tasks, k', ()) \<and> core_ready 0 c [] k' \<and> same_but_queue c k k')"
proof -
  obtain c and k :: "yield list kernel" where k: "core_ready 0 c [7, 8] k" using some_core [of "[7, 8]"] by auto
  have "round_robin yields_poll two_tasks [7, 8] () = Some (two_tasks, ())"
    by (rule round_robin_unknown) (simp add: two_tasks_def)
  from run_ready_tasks_refines [OF this k] k show ?thesis by blast
qed

text \<open>
  C12: if every future, when it is polled, either ends or wakes its own task and comes closer to its
  end, then \<open>run_ready_tasks\<close> returns, every task whose identifier was ready has run to its end
  and is removed, every other task is untouched, and the ready queue is empty.
\<close>

theorem run_ready_tasks_completes:
  assumes "settles m poll" "executor_inv ex" "core_ready num c ready k"
  shows "\<exists>ex' k' s'. run_ready_tasks (\<lambda>_ _. quiet) poll num 0 ex k s = Some (ex', k', s') \<and> core_ready num c [] k' \<and> executor_inv ex'
    \<and> (\<forall>i. etasks ex' i = (if i \<in> set ready then None else etasks ex i))"
proof -
  have "length ready \<le> 2 ^ 62" using assms(3) representsD(10) by (auto simp: core_ready_def)
  then obtain ex' s' where "round_robin poll ex ready s = Some (ex', s')" "executor_inv ex'"
    "\<forall>i. etasks ex' i = (if i \<in> set ready then None else etasks ex i)"
    using round_robin_settles [OF assms(1,2)] by blast
  with run_refines_round_robin [OF this(1)] assms(3) show ?thesis by blast
qed

theorem run_ready_tasks_completes_witness:
  "\<exists>c (k :: yield list kernel). core_ready 0 c [5, 6] k \<and>
    (\<exists>ex' k'. run_ready_tasks (\<lambda>_ _. quiet) yields_poll 0 0 two_tasks k () = Some (ex', k', ()) \<and> core_ready 0 c [] k' \<and> etasks ex' = Map.empty)"
proof -
  obtain c and k :: "yield list kernel" where k: "core_ready 0 c [5, 6] k" using some_core [of "[5, 6]"] by auto
  obtain ex' k' where "run_ready_tasks (\<lambda>_ _. quiet) yields_poll 0 0 two_tasks k () = Some (ex', k', ())" "core_ready 0 c [] k'"
    and e: "\<forall>i. etasks ex' i = (if i \<in> set [5, 6] then None else etasks two_tasks i)"
    using run_ready_tasks_completes [OF yields_settle two_tasks_inv k, of "()"] by auto
  moreover have "etasks ex' = Map.empty" by (rule ext) (use e in \<open>auto simp: two_tasks_def\<close>)
  ultimately show ?thesis using k by blast
qed

text \<open>
  \<open>spawn\<close> files a task under its identifier and makes it ready, or panics when the
  identifier is taken; it keeps the invariant of the executor's tables.
\<close>

lemma spawn_adds:
  assumes "executor_inv ex" "core_ready num c ready k" "length ready < 2 ^ 62"
  shows "if etasks ex (task_id t) \<noteq> None then spawn quiet num t (ex, k) = None
    else \<exists>ex' k'. spawn quiet num t (ex, k) = Some (ex', k') \<and> executor_inv ex' \<and> etasks ex' = (etasks ex)(task_id t \<mapsto> t)
      \<and> core_ready num c (ready @ [task_id t]) k'"
  using push_local_ready [OF assms(2,3), of "task_id t"] assms(1) by (auto simp: spawn_def Let_def executor_inv_def)

text \<open>
  C21: \<open>sleep_if_idle\<close> on a core with an empty queue steals from the first core in the table that
  has ready tasks: half of them, at most 32, the oldest ones, move to its own queue, and it returns
  with interrupts still disabled. If no core has any, it halts with interrupts enabled and changes
  nothing.
\<close>

theorem sleep_if_idle_steals:
  assumes "core_ready num c [] k"
  shows "case filter (\<lambda>st. tasks (queues k (inner st)) \<noteq> []) (stealers k) of
      [] \<Rightarrow> sleep_if_idle (\<lambda>_. quiet) (\<lambda>_. quiet) num k = Some (True, True, k)
    | st # _ \<Rightarrow> let xs = tasks (queues k (inner st)); n = min ((length xs + 1) div 2) 32
        in \<exists>k'. sleep_if_idle (\<lambda>_. quiet) (\<lambda>_. quiet) num k = Some (False, False, k') \<and> core_ready num c (take n xs) k'
           \<and> represents (queues k' (inner st)) (drop n xs)"
proof -
  have i: "kernel_inv k" and e: "worker_is_empty (queues k (worker c))"
    using assms worker_is_empty_represents [of _ "[]"] by (auto simp: core_ready_def)
  show ?thesis
    using steal_any_quiet [OF assms kernel_stealers(1) [OF i]] e
    by (auto simp: sleep_if_idle_def core_ready_cpu [OF assms] batch_count_def Let_def split: list.splits)
qed

theorem sleep_if_idle_steals_witness:
  "\<exists>v c (k :: yield list kernel). core_ready 0 v [5, 6, 7] k \<and> core_ready 1 c [] k \<and>
    (\<exists>k'. sleep_if_idle (\<lambda>_. quiet) (\<lambda>_. quiet) 1 k = Some (False, False, k') \<and> core_ready 1 c [5, 6] k'
       \<and> represents (queues k' (worker v)) [7])"
proof -
  obtain v c and k :: "yield list kernel" where k: "core_ready 0 v [5, 6, 7] k" "core_ready 1 c [] k"
    and o: "stealers k = [\<lparr>inner = worker v, sflavor = Fifo\<rparr>, \<lparr>inner = worker c, sflavor = Fifo\<rparr>]"
    using two_cores [of "[5, 6, 7]" "[]"] by auto
  have t: "tasks (queues k (worker v)) = [5, 6, 7]" using k(1) by (simp add: core_ready_def represents_iff)
  show ?thesis using sleep_if_idle_steals [OF k(2)] o t k by (auto simp: Let_def)
qed

text \<open>
  C22: a task that is stolen is lost. The identifiers that \<open>sleep_if_idle\<close> steals name tasks in the
  table of another core's executor; the thief's executor does not know them, so its
  \<open>run_ready_tasks\<close> takes them from the queue and drops them. Afterwards they are in no queue,
  and nothing has been polled.
\<close>

theorem stolen_tasks_lost:
  assumes "core_ready num c [] k" "kernel_inv k" "i < MAX_NUM_CPUS" "cpus k ! i = Some v" "represents (queues k (worker v)) xs" "xs \<noteq> []"
    and others: "\<forall>j u. j < MAX_NUM_CPUS \<longrightarrow> cpus k ! j = Some u \<longrightarrow> j \<noteq> i \<longrightarrow> tasks (queues k (worker u)) = []"
    and unknown: "\<forall>t \<in> set xs. etasks ex t = None"
  shows "\<exists>k1 k2 n. sleep_if_idle (\<lambda>_. quiet) (\<lambda>_. quiet) num k = Some (False, False, k1)
    \<and> run_ready_tasks (\<lambda>_ _. quiet) poll num 0 ex k1 s = Some (ex, k2, s)
    \<and> 0 < n \<and> n \<le> length xs \<and> represents (queues k2 (worker v)) (drop n xs) \<and> represents (queues k2 (worker c)) []"
proof -
  have t: "tasks (queues k (worker v)) = xs" using assms(5) by (simp add: represents_iff)
  have only: "inner st = worker v" if st: "st \<in> set (stealers k)" "tasks (queues k (inner st)) \<noteq> []" for st
  proof -
    have "inner st \<in> {worker u | u i. i < MAX_NUM_CPUS \<and> cpus k ! i = Some u}" using st(1) kernel_stealers(2) [OF assms(2)] by blast
    then obtain u j where u: "j < MAX_NUM_CPUS" "cpus k ! j = Some u" "inner st = worker u" by blast
    moreover from this st(2) others have "j = i" by auto
    ultimately show ?thesis using assms(4) by simp
  qed
  have "worker v \<in> inner ` set (stealers k)" unfolding kernel_stealers(2) [OF assms(2)] using assms(3,4) by blast
  then obtain st where v: "worker v = inner st" "st \<in> set (stealers k)" by (rule imageE)
  then obtain st' sts where f: "filter (\<lambda>st. tasks (queues k (inner st)) \<noteq> []) (stealers k) = st' # sts"
    using t assms(6) by (cases "filter (\<lambda>st. tasks (queues k (inner st)) \<noteq> []) (stealers k)") (auto simp: filter_empty_conv)
  then have "st' \<in> set (filter (\<lambda>st. tasks (queues k (inner st)) \<noteq> []) (stealers k))" by simp
  then have st': "inner st' = worker v" using only [of st'] by simp
  define n where "n = batch_count (length xs)"
  have n: "0 < n" "n \<le> length xs" using batch_count_le [of "length xs"] assms(6) by (simp_all add: n_def)
  obtain k1 where k1: "steal_any (\<lambda>_. quiet) (\<lambda>_. quiet) num (stealers k) k = Some (True, k1)" "core_ready num c (take n xs) k1"
    "represents (queues k1 (worker v)) (drop n xs)"
    using steal_any_quiet [OF assms(1) kernel_stealers(1) [OF assms(2)]] f st' t by (auto simp: Let_def n_def)
  have e: "worker_is_empty (queues k (worker c))" using assms(1) worker_is_empty_represents [of _ "[]"] by (auto simp: core_ready_def)
  have rr: "round_robin poll ex (take n xs) s = Some (ex, s)" using unknown by (intro round_robin_unknown) (auto dest: in_set_takeD)
  obtain k2 where k2: "run_ready_tasks (\<lambda>_ _. quiet) poll num 0 ex k1 s = Some (ex, k2, s)" "core_ready num c [] k2" "same_but_queue c k1 k2"
    using run_refines_round_robin [OF rr] k1(2) by blast
  have "worker v \<noteq> worker c" using assms(1,5,6) by (auto simp: core_ready_def represents_iff)
  then have "represents (queues k2 (worker v)) (drop n xs)" using k1(3) k2(3) by (auto simp: same_but_queue_def)
  with k1(1) k2 n e show ?thesis
    by (auto simp: sleep_if_idle_def core_ready_cpu [OF assms(1)] core_ready_def)
qed

theorem stolen_tasks_lost_witness:
  "\<exists>v c (k :: yield list kernel). core_ready 0 v [5, 6] k \<and> core_ready 1 c [] k \<and>
    (\<exists>k1 k2 n. sleep_if_idle (\<lambda>_. quiet) (\<lambda>_. quiet) 1 k = Some (False, False, k1)
      \<and> run_ready_tasks (\<lambda>_ _. quiet) yields_poll 1 0 executor_new k1 () = Some (executor_new, k2, ())
      \<and> 0 < n \<and> n \<le> length [5 :: task_id, 6] \<and> represents (queues k2 (worker v)) (drop n [5, 6]) \<and> represents (queues k2 (worker c)) [])"
proof -
  obtain v c and k :: "yield list kernel" where k: "core_ready 0 v [5, 6] k" "core_ready 1 c [] k"
    and o: "\<forall>i u. i < MAX_NUM_CPUS \<longrightarrow> cpus k ! i = Some u \<longrightarrow> i = 0 \<and> u = v \<or> i = 1 \<and> u = c"
    using two_cores [of "[5, 6]" "[]"] by auto
  have "kernel_inv k" "0 < MAX_NUM_CPUS" "cpus k ! 0 = Some v" "represents (queues k (worker v)) [5, 6]" "[5 :: task_id, 6] \<noteq> []"
    "\<forall>t \<in> set [5, 6]. etasks (executor_new :: yield list executor) t = None"
    "\<forall>j u. j < MAX_NUM_CPUS \<longrightarrow> cpus k ! j = Some u \<longrightarrow> j \<noteq> 0 \<longrightarrow> tasks (queues k (worker u)) = []"
    using k o by (auto simp: core_ready_def represents_iff executor_new_def)
  from stolen_tasks_lost [OF k(2) this(1-5,7,6), of yields_poll "()"] k show ?thesis by blast
qed

end
