(* ===== verification/Block_Protocol.thy ===== *)
theory Block_Protocol
  imports Injector
begin

text \<open>
  The life of one block of the injector under every interleaving of the threads that use it. Its
  slots are won by pushing threads one by one and by stealing threads in consecutive ranges
  (\<open>steal\<close> wins one slot, the batch operations several). A pusher stores its task and sets \<^verbatim>\<open>WRITE\<close>; a
  thief waits for \<^verbatim>\<open>WRITE\<close>, reads the tasks of its range and then sets \<^verbatim>\<open>READ\<close> on its slots, or, when its range ends
  the block, starts \<^verbatim>\<open>Block::destroy\<close>. A destroying thread that meets a slot in use leaves \<^verbatim>\<open>DESTROY\<close> there and
  hands the destruction over to the thief of that slot. Each step makes one access to the shared
  block; an access that is undefined behaviour (a freed block, a task that was not written, freeing
  twice) is \<open>None\<close>.
\<close>

section \<open>Threads and steps\<close>

text \<open>
  Range \<open>j\<close> of a block has the slots from \<open>bs ! j\<close> up to \<open>bs ! (j + 1)\<close>; one thief owns it. \<open>Destroying c\<close>
  has to look at the slots below \<open>c\<close>, \<open>Destroy_Mark i\<close> has seen slot \<open>i\<close> in use.
\<close>

datatype thief = Taking nat | Read_Mark nat | Destroying nat | Destroy_Mark nat | Finished

datatype pusher = Store_Task | Write_Mark | Pushed

record 'a users =
  injector_of :: "'a injector"
  pushers :: "nat \<Rightarrow> pusher"
  thieves :: "nat \<Rightarrow> thief"
  got :: "nat \<Rightarrow> 'a list"

text \<open>The pusher that won slot \<open>i\<close> for \<open>task\<close>.\<close>

definition pusher_step :: "nat \<Rightarrow> (nat \<Rightarrow> 'a) \<Rightarrow> nat \<Rightarrow> 'a users \<Rightarrow> 'a users option" where
  "pusher_step p task i s =
     (case pushers s i of
        Store_Task \<Rightarrow> do {
          q \<leftarrow> slot_write p i (task i) (injector_of s);
          Some (s\<lparr>injector_of := q, pushers := (pushers s)(i := Write_Mark)\<rparr>) }
      | Write_Mark \<Rightarrow> do {
          (_, q) \<leftarrow> slot_fetch_or p i WRITE (injector_of s);
          Some (s\<lparr>injector_of := q, pushers := (pushers s)(i := Pushed)\<rparr>) }
      | Pushed \<Rightarrow> Some s)"

text \<open>The thief of range \<open>j\<close>; it stays where it is while it waits for \<^verbatim>\<open>WRITE\<close>.\<close>

definition thief_step :: "nat \<Rightarrow> nat list \<Rightarrow> nat \<Rightarrow> 'a users \<Rightarrow> 'a users option" where
  "thief_step p bs j s =
     (let offset = bs ! j; new_offset = bs ! Suc j; q = injector_of s; to = (\<lambda>q t. s\<lparr>injector_of := q, thieves := (thieves s)(j := t)\<rparr>)
      in case thieves s j of
        Taking i \<Rightarrow>
          if i < new_offset then do {
            sl \<leftarrow> slot_get p i q;
            if state sl AND WRITE = 0 then Some s
            else do { t \<leftarrow> slot_read p i q; Some ((to q (Taking (Suc i)))\<lparr>got := (got s)(j := got s j @ [t])\<rparr>) } }
          else Some (to q (if new_offset = unat BLOCK_CAP then Destroying offset else Read_Mark offset))
      | Read_Mark i \<Rightarrow> do {
          (old, q) \<leftarrow> slot_fetch_or p i READ q;
          Some (to q (if old AND DESTROY \<noteq> 0 then Destroying offset
                      else if Suc i = new_offset then Finished else Read_Mark (Suc i))) }
      | Destroying c \<Rightarrow>
          (case c of
             0 \<Rightarrow> do { q \<leftarrow> block_free p q; Some (to q Finished) }
           | Suc i \<Rightarrow> do { sl \<leftarrow> slot_get p i q; Some (to q (if state sl AND READ = 0 then Destroy_Mark i else Destroying i)) })
      | Destroy_Mark i \<Rightarrow> do {
          (old, q) \<leftarrow> slot_fetch_or p i DESTROY q;
          Some (to q (if old AND READ = 0 then Finished else Destroying i)) }
      | Finished \<Rightarrow> Some s)"

text \<open>One step of any thread.\<close>

definition ranges :: "nat list \<Rightarrow> nat" where "ranges bs = length bs - 1"

inductive users_step :: "nat \<Rightarrow> (nat \<Rightarrow> 'a) \<Rightarrow> nat list \<Rightarrow> 'a users \<Rightarrow> 'a users \<Rightarrow> bool" for p task bs where
  push: "\<lbrakk>i < unat BLOCK_CAP; pusher_step p task i s = Some s'\<rbrakk> \<Longrightarrow> users_step p task bs s s'"
| steal: "\<lbrakk>j < ranges bs; thief_step p bs j s = Some s'\<rbrakk> \<Longrightarrow> users_step p task bs s s'"

text \<open>A new block at \<open>p\<close>, nothing done yet.\<close>

definition users_init :: "nat \<Rightarrow> nat list \<Rightarrow> 'a users \<Rightarrow> bool" where
  "users_init p bs s \<longleftrightarrow> blocks (injector_of s) p = Some block_new \<and> pushers s = (\<lambda>_. Store_Task)
     \<and> thieves s = (\<lambda>j. Taking (bs ! j)) \<and> got s = (\<lambda>_. [])"

text \<open>Ranges that cover the block, each with at least one slot.\<close>

definition block_ranges :: "nat list \<Rightarrow> bool" where
  "block_ranges bs \<longleftrightarrow> 2 \<le> length bs \<and> bs ! 0 = 0 \<and> bs ! ranges bs = unat BLOCK_CAP \<and> sorted_wrt (<) bs"

section \<open>The flags of a slot\<close>

lemma BLOCK_CAP_63 [simp]: "unat BLOCK_CAP = 63"
  by (simp add: BLOCK_CAP_def LAP_def)

definition flag :: "usize \<Rightarrow> usize \<Rightarrow> bool" where
  "flag x f \<longleftrightarrow> x AND f \<noteq> 0"

lemma flag_bit: "flag x WRITE \<longleftrightarrow> bit x 0" "flag x READ \<longleftrightarrow> bit x 1" "flag x DESTROY \<longleftrightarrow> bit x 2"
proof -
  have "flag x (2 ^ n) \<longleftrightarrow> bit x n" for n by (simp add: flag_def and_exp_eq_0_iff_not_bit)
  from this [of 0] this [of 1] this [of 2] show "flag x WRITE \<longleftrightarrow> bit x 0" "flag x READ \<longleftrightarrow> bit x 1" "flag x DESTROY \<longleftrightarrow> bit x 2"
    by (simp_all add: WRITE_def READ_def DESTROY_def)
qed

lemma flag_or [simp]:
  "flag (x OR WRITE) WRITE" "flag (x OR WRITE) READ = flag x READ" "flag (x OR WRITE) DESTROY = flag x DESTROY"
  "flag (x OR READ) READ" "flag (x OR READ) WRITE = flag x WRITE" "flag (x OR READ) DESTROY = flag x DESTROY"
  "flag (x OR DESTROY) DESTROY" "flag (x OR DESTROY) READ = flag x READ" "flag (x OR DESTROY) WRITE = flag x WRITE"
  by (simp_all add: flag_bit bit_or_iff) (simp_all add: WRITE_def READ_def DESTROY_def)

lemma flag_zero [simp]: "\<not> flag 0 f"
  by (simp add: flag_def)

text \<open>The block as the task and the state of each slot.\<close>

definition block_is :: "nat \<Rightarrow> 'a injector \<Rightarrow> (nat \<Rightarrow> 'a option) \<Rightarrow> (nat \<Rightarrow> usize) \<Rightarrow> bool" where
  "block_is p q ts st \<longleftrightarrow> (\<exists>b. blocks q p = Some b \<and> length (slots b) = 63 \<and> (\<forall>i < 63. slots b ! i = \<lparr>stask = ts i, state = st i\<rparr>))"

lemma block_is_get: "\<lbrakk>block_is p q ts st; i < 63\<rbrakk> \<Longrightarrow> slot_get p i q = Some \<lparr>stask = ts i, state = st i\<rparr>"
  by (auto simp: block_is_def slot_get_def)

lemma block_is_put:
  assumes "block_is p q ts st" "i < 63"
  shows "\<exists>q'. slot_put p i \<lparr>stask = t, state = x\<rparr> q = Some q' \<and> block_is p q' (ts(i := t)) (st(i := x))"
  using assms by (auto simp: block_is_def slot_put_def nth_list_update)

lemma block_is_fetch_or:
  assumes "block_is p q ts st" "i < 63"
  shows "\<exists>q'. slot_fetch_or p i f q = Some (st i, q') \<and> block_is p q' ts (st(i := st i OR f))"
  using block_is_get [OF assms] block_is_put [OF assms, of "ts i" "st i OR f"] by (auto simp: slot_fetch_or_def)

lemma block_is_write:
  assumes "block_is p q ts st" "i < 63"
  shows "\<exists>q'. slot_write p i t q = Some q' \<and> block_is p q' (ts(i := Some t)) st"
  using block_is_get [OF assms] block_is_put [OF assms, of "Some t" "st i"] by (auto simp: slot_write_def)

lemma block_is_read: "\<lbrakk>block_is p q ts st; i < 63\<rbrakk> \<Longrightarrow> slot_read p i q = ts i"
  by (simp add: slot_read_def block_is_get)

lemma block_is_new: "blocks q p = Some block_new \<Longrightarrow> block_is p q (\<lambda>_. None) (\<lambda>_. 0)"
  by (simp add: block_is_def block_new_def)

section \<open>Ranges\<close>

definition last_start :: "nat list \<Rightarrow> nat" where "last_start bs = bs ! (ranges bs - 1)"

lemma range_bounds:
  assumes "block_ranges bs" "j < ranges bs"
  shows "bs ! j < bs ! Suc j" "bs ! Suc j \<le> 63" "bs ! Suc j = 63 \<longleftrightarrow> Suc j = ranges bs"
    "Suc j \<noteq> ranges bs \<Longrightarrow> bs ! Suc j \<le> last_start bs" "Suc j = ranges bs \<Longrightarrow> last_start bs = bs ! j"
proof -
  have l: "length bs = Suc (ranges bs)" "0 < ranges bs" and w: "sorted_wrt (<) bs" and e: "bs ! ranges bs = 63"
    using assms(1) by (auto simp: block_ranges_def ranges_def)
  have lt: "a < b \<Longrightarrow> b \<le> ranges bs \<Longrightarrow> bs ! a < bs ! b" for a b using sorted_wrt_nth_less [OF w, of a b] l(1) by simp
  show "bs ! j < bs ! Suc j" using lt assms(2) by simp
  show "bs ! Suc j \<le> 63" using lt [of "Suc j" "ranges bs"] e assms(2) by (cases "Suc j = ranges bs") auto
  show "bs ! Suc j = 63 \<longleftrightarrow> Suc j = ranges bs" using lt [of "Suc j" "ranges bs"] e assms(2) by (cases "Suc j = ranges bs") auto
  show "bs ! Suc j \<le> last_start bs" if "Suc j \<noteq> ranges bs"
  proof (cases "Suc j = ranges bs - 1")
    case False
    then have "Suc j < ranges bs - 1" using assms(2) that by linarith
    then show ?thesis using lt [of "Suc j" "ranges bs - 1"] by (simp add: last_start_def)
  qed (simp add: last_start_def)
  show "last_start bs = bs ! j" if "Suc j = ranges bs" unfolding last_start_def by (simp flip: that)
qed

lemma last_range:
  assumes "block_ranges bs"
  obtains l where "Suc l = ranges bs" "bs ! l = last_start bs" "bs ! Suc l = 63" "last_start bs < 63"
proof -
  have "0 < ranges bs" using assms by (auto simp: block_ranges_def ranges_def)
  then obtain l where l: "Suc l = ranges bs" by (metis Suc_pred)
  then have "l < ranges bs" by simp
  from range_bounds [OF assms this] l that show thesis by simp
qed

lemma ranges_apart:
  assumes "block_ranges bs" "i < ranges bs" "j < ranges bs" "i \<noteq> j" "bs ! i \<le> k" "k < bs ! Suc i" "bs ! j \<le> k"
  shows "bs ! Suc j \<le> k"
proof -
  have w: "sorted_wrt (<) bs" and l: "length bs = Suc (ranges bs)" using assms(1,2) by (auto simp: block_ranges_def ranges_def)
  have le: "a \<le> b \<Longrightarrow> b \<le> ranges bs \<Longrightarrow> bs ! a \<le> bs ! b" for a b
    using sorted_wrt_nth_less [OF w, of a b] l by (cases "a = b") auto
  show ?thesis using le [of "Suc i" j] le [of "Suc j" i] assms by (cases "i < j") auto
qed

lemma range_of_slot:
  assumes "block_ranges bs" "k < 63"
  shows "\<exists>j < ranges bs. bs ! j \<le> k \<and> k < bs ! Suc j"
proof -
  have z: "bs ! 0 = 0" "bs ! ranges bs = 63"
    using assms(1) by (auto simp: block_ranges_def ranges_def)
  let ?j = "LEAST j. k < bs ! j"
  have k: "k < bs ! ?j" "?j \<le> ranges bs" using z(2) assms(2) LeastI [of "\<lambda>j. k < bs ! j" "ranges bs"] Least_le [of "\<lambda>j. k < bs ! j" "ranges bs"] by simp_all
  then have "?j \<noteq> 0" using z(1) by (metis not_less_zero)
  then obtain j where j: "?j = Suc j" by (metis not0_implies_Suc)
  then have "\<not> k < bs ! j" using not_less_Least [of j "\<lambda>j. k < bs ! j"] by simp
  then show ?thesis using k j by (intro exI [of _ j]) auto
qed

section \<open>Invariant\<close>

fun dpos :: "thief \<Rightarrow> nat option" where
  "dpos (Destroying c) = Some c"
| "dpos (Destroy_Mark i) = Some (Suc i)"
| "dpos _ = None"

definition pusher_ok :: "(nat \<Rightarrow> 'a) \<Rightarrow> (nat \<Rightarrow> 'a option) \<Rightarrow> (nat \<Rightarrow> usize) \<Rightarrow> nat \<Rightarrow> pusher \<Rightarrow> bool" where
  "pusher_ok task ts st i t \<longleftrightarrow> (flag (st i) WRITE \<longleftrightarrow> t = Pushed) \<and> (t \<noteq> Store_Task \<longrightarrow> ts i = Some (task i))"

definition thief_ok :: "(nat \<Rightarrow> 'a) \<Rightarrow> nat \<Rightarrow> nat \<Rightarrow> (nat \<Rightarrow> usize) \<Rightarrow> thief \<Rightarrow> 'a list \<Rightarrow> bool" where
  "thief_ok task a e st t g \<longleftrightarrow>
     (let i = (case t of Taking i \<Rightarrow> i | _ \<Rightarrow> e)
      in a \<le> i \<and> i \<le> e \<and> g = map task [a..<i] \<and> (\<forall>k. a \<le> k \<and> k < i \<longrightarrow> flag (st k) WRITE)) \<and>
     (case t of
        Taking i \<Rightarrow> \<forall>k. a \<le> k \<and> k < e \<longrightarrow> \<not> flag (st k) READ
      | Read_Mark i \<Rightarrow> a \<le> i \<and> i < e \<and> e \<noteq> 63 \<and> (\<forall>k. a \<le> k \<and> k < e \<longrightarrow> (flag (st k) READ \<longleftrightarrow> k < i))
      | _ \<Rightarrow> \<forall>k. a \<le> k \<and> k < e \<longrightarrow> (flag (st k) READ \<longleftrightarrow> e \<noteq> 63))"

fun taking :: "thief \<Rightarrow> bool" where
  "taking (Taking _) = True"
| "taking _ = False"

text \<open>Who is to go on with the destruction: nobody yet, a destroying thread, or the owner of a marked slot.\<close>

definition not_begun :: "nat list \<Rightarrow> (nat \<Rightarrow> usize) \<Rightarrow> (nat \<Rightarrow> thief) \<Rightarrow> bool" where
  "not_begun bs st th \<longleftrightarrow> taking (th (ranges bs - 1)) \<and> (\<forall>j < ranges bs. dpos (th j) = None) \<and> (\<forall>k < 63. \<not> flag (st k) DESTROY)"

definition at_work :: "nat list \<Rightarrow> (nat \<Rightarrow> usize) \<Rightarrow> (nat \<Rightarrow> thief) \<Rightarrow> nat \<Rightarrow> nat \<Rightarrow> bool" where
  "at_work bs st th j c \<longleftrightarrow> j < ranges bs \<and> dpos (th j) = Some c \<and> (\<forall>i < ranges bs. i \<noteq> j \<longrightarrow> dpos (th i) = None)
     \<and> \<not> taking (th (ranges bs - 1)) \<and> c \<le> last_start bs
     \<and> (\<forall>k. c \<le> k \<and> k < last_start bs \<longrightarrow> flag (st k) READ) \<and> (\<forall>k < c. \<not> flag (st k) DESTROY)"

definition handed_over :: "nat list \<Rightarrow> (nat \<Rightarrow> usize) \<Rightarrow> (nat \<Rightarrow> thief) \<Rightarrow> nat \<Rightarrow> bool" where
  "handed_over bs st th d \<longleftrightarrow> d < last_start bs \<and> (\<forall>j < ranges bs. dpos (th j) = None) \<and> \<not> taking (th (ranges bs - 1))
     \<and> flag (st d) DESTROY \<and> \<not> flag (st d) READ
     \<and> (\<forall>k. d < k \<and> k < last_start bs \<longrightarrow> flag (st k) READ) \<and> (\<forall>k < d. \<not> flag (st k) DESTROY)"

definition token :: "nat list \<Rightarrow> (nat \<Rightarrow> usize) \<Rightarrow> (nat \<Rightarrow> thief) \<Rightarrow> bool" where
  "token bs st th \<longleftrightarrow> not_begun bs st th \<or> (\<exists>j c. at_work bs st th j c) \<or> (\<exists>d. handed_over bs st th d)"

definition in_use :: "nat \<Rightarrow> (nat \<Rightarrow> 'a) \<Rightarrow> nat list \<Rightarrow> 'a users \<Rightarrow> (nat \<Rightarrow> 'a option) \<Rightarrow> (nat \<Rightarrow> usize) \<Rightarrow> bool" where
  "in_use p task bs s ts st \<longleftrightarrow> block_is p (injector_of s) ts st
     \<and> (\<forall>i < 63. pusher_ok task ts st i (pushers s i))
     \<and> (\<forall>j < ranges bs. thief_ok task (bs ! j) (bs ! Suc j) st (thieves s j) (got s j))
     \<and> token bs st (thieves s)"

definition freed :: "nat \<Rightarrow> (nat \<Rightarrow> 'a) \<Rightarrow> nat list \<Rightarrow> 'a users \<Rightarrow> bool" where
  "freed p task bs s \<longleftrightarrow> blocks (injector_of s) p = None \<and> (\<forall>i < 63. pushers s i = Pushed)
     \<and> (\<forall>j < ranges bs. thieves s j = Finished \<and> got s j = map task [bs ! j..<bs ! Suc j])"

definition users_inv :: "nat \<Rightarrow> (nat \<Rightarrow> 'a) \<Rightarrow> nat list \<Rightarrow> 'a users \<Rightarrow> bool" where
  "users_inv p task bs s \<longleftrightarrow> (\<exists>ts st. in_use p task bs s ts st) \<or> freed p task bs s"

lemma users_invI: "in_use p task bs s ts st \<Longrightarrow> users_inv p task bs s"
  by (auto simp: users_inv_def)

text \<open>Only the flags matter: \<^verbatim>\<open>WRITE\<close> may be added, \<^verbatim>\<open>READ\<close> of other ranges may change.\<close>

lemma thief_ok_mono:
  assumes "thief_ok task a e st t g" "\<And>k. flag (st k) WRITE \<Longrightarrow> flag (st' k) WRITE"
    "\<And>k. a \<le> k \<Longrightarrow> k < e \<Longrightarrow> flag (st' k) READ = flag (st k) READ"
  shows "thief_ok task a e st' t g"
  using assms unfolding thief_ok_def by (cases t) (simp_all add: Let_def)

lemma token_cong:
  "\<lbrakk>token bs st th; \<And>k. flag (st' k) READ = flag (st k) READ; \<And>k. flag (st' k) DESTROY = flag (st k) DESTROY\<rbrakk> \<Longrightarrow> token bs st' th"
  by (simp add: token_def not_begun_def at_work_def handed_over_def)

lemma users_init_inv:
  assumes "block_ranges bs" "users_init p bs s"
  shows "users_inv p task bs s"
proof -
  have "thief_ok task (bs ! j) (bs ! Suc j) (\<lambda>_. 0) (Taking (bs ! j)) []" if "j < ranges bs" for j
    using range_bounds(1) [OF assms(1) that] by (simp add: thief_ok_def)
  then have "in_use p task bs s (\<lambda>_. None) (\<lambda>_. 0)"
    using assms(2) block_is_new [of "injector_of s" p] by (simp add: users_init_def in_use_def pusher_ok_def token_def not_begun_def)
  then show ?thesis by (auto simp: users_inv_def)
qed

section \<open>Pushing threads\<close>

lemma in_useD:
  assumes "in_use p task bs s ts st"
  shows "block_is p (injector_of s) ts st" "\<And>i. i < 63 \<Longrightarrow> pusher_ok task ts st i (pushers s i)"
    "\<And>j. j < ranges bs \<Longrightarrow> thief_ok task (bs ! j) (bs ! Suc j) st (thieves s j) (got s j)" "token bs st (thieves s)"
  using assms by (auto simp: in_use_def)

lemma pusher_step_inv:
  assumes "in_use p task bs s ts st" "i < 63"
  shows "\<exists>s'. pusher_step p task i s = Some s' \<and> users_inv p task bs s'"
proof -
  note u = in_useD [OF assms(1)]
  show ?thesis
  proof (cases "pushers s i")
    case Store_Task
    obtain q where q: "slot_write p i (task i) (injector_of s) = Some q" "block_is p q (ts(i := Some (task i))) st"
      using block_is_write [OF u(1) assms(2)] by blast
    have "in_use p task bs (s\<lparr>injector_of := q, pushers := (pushers s)(i := Write_Mark)\<rparr>) (ts(i := Some (task i))) st"
      using u(2-4) u(2) [OF assms(2)] q(2) Store_Task by (auto simp: in_use_def pusher_ok_def)
    then show ?thesis using q(1) Store_Task by (auto simp: pusher_step_def users_inv_def)
  next
    case Write_Mark
    let ?st = "st(i := st i OR WRITE)"
    obtain q where q: "slot_fetch_or p i WRITE (injector_of s) = Some (st i, q)" "block_is p q ts ?st"
      using block_is_fetch_or [OF u(1) assms(2)] by blast
    have "thief_ok task (bs ! j) (bs ! Suc j) ?st (thieves s j) (got s j)" if "j < ranges bs" for j
      by (rule thief_ok_mono [OF u(3) [OF that]]) auto
    moreover have "token bs ?st (thieves s)" by (rule token_cong [OF u(4)]) auto
    ultimately have "in_use p task bs (s\<lparr>injector_of := q, pushers := (pushers s)(i := Pushed)\<rparr>) ts ?st"
      using u(2) u(2) [OF assms(2)] q(2) Write_Mark by (auto simp: in_use_def pusher_ok_def)
    then show ?thesis using q(1) Write_Mark by (auto simp: pusher_step_def users_inv_def)
  next
    case Pushed
    then show ?thesis using assms(1) by (auto simp: pusher_step_def users_inv_def)
  qed
qed

section \<open>Stealing threads\<close>

lemma thief_frame:
  assumes "block_ranges bs" "in_use p task bs s ts st" "j < ranges bs" "block_is p q ts st'" "\<And>k. flag (st' k) WRITE = flag (st k) WRITE"
    "\<And>k. k < bs ! j \<or> bs ! Suc j \<le> k \<Longrightarrow> flag (st' k) READ = flag (st k) READ"
    "thief_ok task (bs ! j) (bs ! Suc j) st' t g" "token bs st' ((thieves s)(j := t))"
  shows "in_use p task bs (s\<lparr>injector_of := q, thieves := (thieves s)(j := t), got := (got s)(j := g)\<rparr>) ts st'"
proof -
  note u = in_useD [OF assms(2)]
  have "thief_ok task (bs ! i) (bs ! Suc i) st' (thieves s i) (got s i)" if "i < ranges bs" "i \<noteq> j" for i
  proof (rule thief_ok_mono [OF u(3) [OF that(1)]])
    show "flag (st' k) READ = flag (st k) READ" if "bs ! i \<le> k" "k < bs ! Suc i" for k
      using ranges_apart [OF assms(1) \<open>i < ranges bs\<close> assms(3) \<open>i \<noteq> j\<close> that] assms(6) [of k] by linarith
  qed (simp add: assms(5))
  then show ?thesis using u(2) assms by (auto simp: in_use_def pusher_ok_def)
qed

lemma token_upd:
  assumes "token bs st th" "dpos t = dpos (th j)" "j = ranges bs - 1 \<Longrightarrow> taking t = taking (th j)"
  shows "token bs st (th(j := t))"
proof -
  have "dpos ((th(j := t)) i) = dpos (th i)" for i using assms(2) by simp
  moreover have "taking ((th(j := t)) (ranges bs - 1)) = taking (th (ranges bs - 1))" using assms(3) by auto
  ultimately show ?thesis using assms(1) unfolding token_def not_begun_def at_work_def handed_over_def by presburger
qed

lemma taking_step_inv:
  assumes "block_ranges bs" "in_use p task bs s ts st" "j < ranges bs" "thieves s j = Taking i"
  shows "\<exists>s'. thief_step p bs j s = Some s' \<and> users_inv p task bs s'"
proof -
  note u = in_useD [OF assms(2)]
  note r = range_bounds [OF assms(1,3)]
  have ok: "thief_ok task (bs ! j) (bs ! Suc j) st (Taking i) (got s j)" using u(3) [OF assms(3)] assms(4) by simp
  show ?thesis
  proof (cases "i < bs ! Suc j")
    case True
    then have i: "i < 63" using r(2) by simp
    show ?thesis
    proof (cases "flag (st i) WRITE")
      case W: True
      then have t: "ts i = Some (task i)" using u(2) [OF i] by (auto simp: pusher_ok_def)
      have "in_use p task bs (s\<lparr>injector_of := injector_of s, thieves := (thieves s)(j := Taking (Suc i)), got := (got s)(j := got s j @ [task i])\<rparr>) ts st"
      proof (rule thief_frame [OF assms(1-3) u(1)])
        show "thief_ok task (bs ! j) (bs ! Suc j) st (Taking (Suc i)) (got s j @ [task i])"
          using ok W True by (auto simp: thief_ok_def less_Suc_eq)
        show "token bs st ((thieves s)(j := Taking (Suc i)))" by (rule token_upd [OF u(4)], unfold assms(4)) simp_all
      qed simp_all
      from users_invI [OF this] show ?thesis using assms(4) True W t block_is_get [OF u(1) i] block_is_read [OF u(1) i]
        by (simp add: thief_step_def Let_def flag_def)
    next
      case False
      then show ?thesis using users_invI [OF assms(2)] assms(4) True block_is_get [OF u(1) i] by (simp add: thief_step_def Let_def flag_def)
    qed
  next
    case False
    then have e: "i = bs ! Suc j" using ok by (auto simp: thief_ok_def)
    let ?t = "if bs ! Suc j = 63 then Destroying (bs ! j) else Read_Mark (bs ! j)"
    have "in_use p task bs (s\<lparr>injector_of := injector_of s, thieves := (thieves s)(j := ?t), got := (got s)(j := got s j)\<rparr>) ts st"
    proof (rule thief_frame [OF assms(1-3) u(1)])
      show "thief_ok task (bs ! j) (bs ! Suc j) st ?t (got s j)" using ok e r(1) by (auto simp: thief_ok_def)
      show "token bs st ((thieves s)(j := ?t))"
      proof (cases "bs ! Suc j = 63")
        case True
        then have l: "Suc j = ranges bs" "ranges bs - 1 = j" "last_start bs = bs ! j" using r(3,5) by auto
        then have "not_begun bs st (thieves s)" using u(4) assms(4) by (auto simp: token_def at_work_def handed_over_def)
        then have "at_work bs st ((thieves s)(j := Destroying (bs ! j))) j (bs ! j)"
          using l r(1,2) assms(3) by (auto simp: not_begun_def at_work_def)
        then show ?thesis using True by (auto simp: token_def)
      next
        case False
        then have l: "j \<noteq> ranges bs - 1" using r(3) assms(3) by auto
        show ?thesis by (rule token_upd [OF u(4)]) (use False l assms(4) in auto)
      qed
    qed simp_all
    from users_invI [OF this] show ?thesis using assms(4) False by (simp add: thief_step_def Let_def)
  qed
qed

lemma read_mark_token:
  assumes "block_ranges bs" "token bs st th" "j < ranges bs" "th j = Read_Mark i" "thief_ok task (bs ! j) (bs ! Suc j) st (Read_Mark i) g"
  defines "st' \<equiv> st(i := st i OR READ)"
  shows "flag (st i) DESTROY \<Longrightarrow> Suc i = bs ! Suc j \<and> token bs st' (th(j := Destroying (bs ! j)))"
    "\<lbrakk>\<not> flag (st i) DESTROY; \<not> taking t; dpos t = None\<rbrakk> \<Longrightarrow> token bs st' (th(j := t))"
proof -
  note r = range_bounds [OF assms(1,3)]
  have ok: "bs ! j \<le> i" "i < bs ! Suc j" "bs ! Suc j \<noteq> 63" "\<And>k. bs ! j \<le> k \<Longrightarrow> k < bs ! Suc j \<Longrightarrow> flag (st k) READ \<longleftrightarrow> k < i"
    using assms(5) by (auto simp: thief_ok_def)
  have L: "bs ! Suc j \<le> last_start bs" "j \<noteq> ranges bs - 1" using r(3,4) ok(3) assms(3) by auto
  have nr: "\<not> flag (st i) READ" using ok(4) [OF ok(1,2)] by simp
  have R: "flag (st' k) READ \<longleftrightarrow> flag (st k) READ \<or> k = i" and D: "flag (st' k) DESTROY = flag (st k) DESTROY" for k
    by (simp_all add: st'_def)
  have n: "dpos (th j) = None" using assms(4) by simp
  have over: "i = d \<and> Suc i = bs ! Suc j" if d: "handed_over bs st th d" "flag (st i) DESTROY" for d
  proof -
    have h: "\<forall>k. d < k \<and> k < last_start bs \<longrightarrow> flag (st k) READ" "\<forall>k < d. \<not> flag (st k) DESTROY" using d(1) by (auto simp: handed_over_def)
    have "\<not> i < d" using h(2) d(2) by blast
    moreover have "\<not> d < i" using h(1) nr ok(2) L(1) by (meson less_le_trans)
    moreover have "\<not> Suc i < bs ! Suc j"
    proof
      assume "Suc i < bs ! Suc j"
      moreover have "d < Suc i" using \<open>\<not> i < d\<close> by simp
      ultimately have "flag (st (Suc i)) READ" using h(1) L(1) by (meson less_le_trans)
      then show False using ok(4) [of "Suc i"] ok(1) \<open>Suc i < bs ! Suc j\<close> by simp
    qed
    ultimately show ?thesis using ok(2) by linarith
  qed
  have work: "\<not> flag (st i) DESTROY" if w: "at_work bs st th k c" for k c
  proof
    assume "flag (st i) DESTROY"
    then have "c \<le> i" using w by (meson at_work_def not_le)
    then have "flag (st i) READ" using w ok(2) L(1) by (meson at_work_def less_le_trans)
    then show False using nr by blast
  qed
  show "Suc i = bs ! Suc j \<and> token bs st' (th(j := Destroying (bs ! j)))" if d: "flag (st i) DESTROY"
  proof -
    have "\<not> not_begun bs st th" using d ok(2) r(2) by (auto simp: not_begun_def)
    then obtain e where e: "handed_over bs st th e" using assms(2) work d by (auto simp: token_def)
    note o = over [OF e d]
    have "at_work bs st' (th(j := Destroying (bs ! j))) j (bs ! j)" unfolding at_work_def
    proof (intro conjI allI impI)
      show "flag (st' k) READ" if "bs ! j \<le> k \<and> k < last_start bs" for k
        using that e o ok(4) [of k] R [of k] by (cases "k < i") (auto simp: handed_over_def)
      show "\<not> flag (st' k) DESTROY" if "k < bs ! j" for k using that e o ok(1) D [of k] by (auto simp: handed_over_def)
      show "\<not> taking ((th(j := Destroying (bs ! j))) (ranges bs - 1))" using e L(2) by (auto simp: handed_over_def)
      show "bs ! j \<le> last_start bs" using r(1) L(1) by linarith
      show "dpos ((th(j := Destroying (bs ! j))) k) = None" if "k < ranges bs" "k \<noteq> j" for k using that e by (auto simp: handed_over_def)
    qed (use assms(3) in auto)
    then show ?thesis using o by (auto simp: token_def)
  qed
  show "token bs st' (th(j := t))" if t: "\<not> flag (st i) DESTROY" "\<not> taking t" "dpos t = None"
  proof -
    have "token bs st (th(j := t))" by (rule token_upd [OF assms(2)]) (use t(3) n L(2) in auto)
    then consider "not_begun bs st (th(j := t))" | k c where "at_work bs st (th(j := t)) k c" | d where "handed_over bs st (th(j := t)) d"
      by (auto simp: token_def)
    then show ?thesis
    proof cases
      case 1
      then show ?thesis by (simp add: token_def not_begun_def D)
    next
      case 2
      then have "at_work bs st' (th(j := t)) k c" unfolding at_work_def D R by blast
      then show ?thesis by (auto simp: token_def)
    next
      case 3
      then have "d \<noteq> i" using t(1) by (auto simp: handed_over_def)
      then have "handed_over bs st' (th(j := t)) d" using 3 unfolding handed_over_def D R by blast
      then show ?thesis by (auto simp: token_def)
    qed
  qed
qed

lemma read_mark_step_inv:
  assumes "block_ranges bs" "in_use p task bs s ts st" "j < ranges bs" "thieves s j = Read_Mark i"
  shows "\<exists>s'. thief_step p bs j s = Some s' \<and> users_inv p task bs s'"
proof -
  note u = in_useD [OF assms(2)]
  note r = range_bounds [OF assms(1,3)]
  have ok: "thief_ok task (bs ! j) (bs ! Suc j) st (Read_Mark i) (got s j)" using u(3) [OF assms(3)] assms(4) by simp
  then have i: "i < 63" "bs ! j \<le> i" "i < bs ! Suc j" using r(2) by (auto simp: thief_ok_def)
  note tk = read_mark_token [OF assms(1) u(4) assms(3,4) ok]
  let ?st = "st(i := st i OR READ)"
  let ?t = "if flag (st i) DESTROY then Destroying (bs ! j) else if Suc i = bs ! Suc j then Finished else Read_Mark (Suc i)"
  obtain q where q: "slot_fetch_or p i READ (injector_of s) = Some (st i, q)" "block_is p q ts ?st"
    using block_is_fetch_or [OF u(1) i(1)] by blast
  have "in_use p task bs (s\<lparr>injector_of := q, thieves := (thieves s)(j := ?t), got := (got s)(j := got s j)\<rparr>) ts ?st"
  proof (rule thief_frame [OF assms(1-3) q(2)])
    show "thief_ok task (bs ! j) (bs ! Suc j) ?st ?t (got s j)" using ok tk(1) i by (auto simp: thief_ok_def Let_def less_Suc_eq)
    show "token bs ?st ((thieves s)(j := ?t))" using tk by auto
  qed (use i in auto)
  from users_invI [OF this] show ?thesis using assms(4) q(1) by (simp add: thief_step_def Let_def flag_def)
qed

lemma destroying_ok:
  assumes "thief_ok task a e st t g" "dpos t \<noteq> None" "dpos t' \<noteq> None \<or> t' = Finished"
    "\<And>k. flag (st' k) READ = flag (st k) READ" "\<And>k. flag (st' k) WRITE = flag (st k) WRITE"
  shows "thief_ok task a e st' t' g"
  using assms by (cases t; cases t') (simp_all add: thief_ok_def Let_def)

lemma destroyer:
  assumes "token bs st th" "j < ranges bs" "dpos (th j) = Some c"
  shows "at_work bs st th j c"
proof -
  have "\<not> not_begun bs st th" "\<not> handed_over bs st th d" for d using assms(2,3) by (auto simp: not_begun_def handed_over_def)
  then obtain k d where w: "at_work bs st th k d" using assms(1) by (auto simp: token_def)
  have "k = j" using w assms(2,3) unfolding at_work_def by (metis option.distinct(1))
  moreover have "dpos (th k) = Some d" using w by (simp add: at_work_def)
  ultimately show ?thesis using w assms(3) by simp
qed

lemma at_work_upd:
  assumes "at_work bs st th j c" "dpos t = Some d" "d \<le> c" "\<And>k. d \<le> k \<Longrightarrow> k < c \<Longrightarrow> flag (st' k) READ"
    "\<And>k. flag (st' k) READ = flag (st k) READ" "\<And>k. k < d \<Longrightarrow> flag (st' k) DESTROY = flag (st k) DESTROY"
  shows "token bs st' (th(j := t))"
proof -
  have "at_work bs st' (th(j := t)) j d" unfolding at_work_def
  proof (intro conjI allI impI)
    show "flag (st' k) READ" if "d \<le> k \<and> k < last_start bs" for k using that assms by (cases "k < c") (auto simp: at_work_def)
    show "\<not> taking ((th(j := t)) (ranges bs - 1))" using assms(1,2) by (cases t) (auto simp: at_work_def)
  qed (use assms in \<open>auto simp: at_work_def\<close>)
  then show ?thesis by (auto simp: token_def)
qed

lemma destroy_mark_step_inv:
  assumes "block_ranges bs" "in_use p task bs s ts st" "j < ranges bs" "thieves s j = Destroy_Mark i"
  shows "\<exists>s'. thief_step p bs j s = Some s' \<and> users_inv p task bs s'"
proof -
  note u = in_useD [OF assms(2)]
  have w: "at_work bs st (thieves s) j (Suc i)" by (rule destroyer [OF u(4) assms(3)]) (simp add: assms(4))
  obtain l where "last_start bs < 63" by (rule last_range [OF assms(1)])
  then have i: "i < 63" "i < last_start bs" using w by (auto simp: at_work_def)
  let ?st = "st(i := st i OR DESTROY)"
  let ?t = "if flag (st i) READ then Destroying i else Finished"
  obtain q where q: "slot_fetch_or p i DESTROY (injector_of s) = Some (st i, q)" "block_is p q ts ?st"
    using block_is_fetch_or [OF u(1) i(1)] by blast
  have "in_use p task bs (s\<lparr>injector_of := q, thieves := (thieves s)(j := ?t), got := (got s)(j := got s j)\<rparr>) ts ?st"
  proof (rule thief_frame [OF assms(1-3) q(2)])
    show "thief_ok task (bs ! j) (bs ! Suc j) ?st ?t (got s j)"
      by (rule destroying_ok [OF u(3) [OF assms(3)]]) (simp_all add: assms(4))
    show "token bs ?st ((thieves s)(j := ?t))"
    proof (cases "flag (st i) READ")
      case True
      have "token bs ?st ((thieves s)(j := Destroying i))"
        by (rule at_work_upd [OF w, of _ i]) (use True in \<open>auto simp: less_Suc_eq\<close>)
      then show ?thesis using True by simp
    next
      case False
      have "handed_over bs ?st ((thieves s)(j := Finished)) i"
        using False w i(2) by (auto simp: handed_over_def at_work_def)
      then show ?thesis using False by (auto simp: token_def)
    qed
  qed auto
  from users_invI [OF this] show ?thesis using assms(4) q(1) by (auto simp: thief_step_def Let_def flag_def)
qed

lemma all_read_finished:
  assumes "block_ranges bs" "in_use p task bs s ts st" "at_work bs st (thieves s) j 0"
  shows "\<And>i. i < 63 \<Longrightarrow> pushers s i = Pushed"
    "\<And>k. \<lbrakk>k < ranges bs; k \<noteq> j\<rbrakk> \<Longrightarrow> thieves s k = Finished" "\<And>k. k < ranges bs \<Longrightarrow> got s k = map task [bs ! k..<bs ! Suc k]"
proof -
  note u = in_useD [OF assms(2)]
  have n: "\<not> taking (thieves s k) \<and> (\<forall>i. thieves s k \<noteq> Read_Mark i)" if k: "k < ranges bs" for k
  proof (cases "Suc k = ranges bs")
    case True
    then have "k = ranges bs - 1" "bs ! Suc k = 63" using range_bounds(3) [OF assms(1) k] by auto
    then show ?thesis using assms(3) u(3) [OF k] by (auto simp: at_work_def thief_ok_def)
  next
    case False
    note r = range_bounds [OF assms(1) k]
    have R: "flag (st i) READ" if "i < bs ! Suc k" for i using that r(4) [OF False] assms(3) by (auto simp: at_work_def)
    have "flag (st (bs ! k)) READ" using R r(1) by blast
    then show ?thesis using u(3) [OF k] r(1) R by (cases "thieves s k") (auto simp: thief_ok_def)
  qed
  have f: "thieves s k = Finished \<or> dpos (thieves s k) \<noteq> None" if "k < ranges bs" for k using n [OF that] by (cases "thieves s k") auto
  show "thieves s k = Finished" if "k < ranges bs" "k \<noteq> j" for k using f [OF that(1)] that assms(3) by (auto simp: at_work_def)
  have ok: "got s k = map task [bs ! k..<bs ! Suc k] \<and> (\<forall>i. bs ! k \<le> i \<and> i < bs ! Suc k \<longrightarrow> flag (st i) WRITE)" if "k < ranges bs" for k
    using u(3) [OF that] f [OF that] by (cases "thieves s k") (auto simp: thief_ok_def Let_def)
  then show "got s k = map task [bs ! k..<bs ! Suc k]" if "k < ranges bs" for k using that by blast
  show "pushers s i = Pushed" if "i < 63" for i
    using range_of_slot [OF assms(1) that] ok u(2) [OF that] by (auto simp: pusher_ok_def)
qed

lemma destroying_step_inv:
  assumes "block_ranges bs" "in_use p task bs s ts st" "j < ranges bs" "thieves s j = Destroying c"
  shows "\<exists>s'. thief_step p bs j s = Some s' \<and> users_inv p task bs s'"
proof -
  note u = in_useD [OF assms(2)]
  have w: "at_work bs st (thieves s) j c" by (rule destroyer [OF u(4) assms(3)]) (simp add: assms(4))
  obtain l where L: "last_start bs < 63" by (rule last_range [OF assms(1)])
  show ?thesis
  proof (cases c)
    case 0
    note f = all_read_finished [OF assms(1,2) w [unfolded 0]]
    obtain b where "blocks (injector_of s) p = Some b" using u(1) by (auto simp: block_is_def)
    then obtain q where q: "block_free p (injector_of s) = Some q" "blocks q p = None" by (auto simp: block_free_def)
    have "freed p task bs (s\<lparr>injector_of := q, thieves := (thieves s)(j := Finished)\<rparr>)" using f q(2) by (auto simp: freed_def)
    then show ?thesis using assms(4) q(1) by (simp add: thief_step_def 0 users_inv_def)
  next
    case (Suc i)
    then have i: "i < 63" using w L by (auto simp: at_work_def)
    let ?t = "if flag (st i) READ then Destroying i else Destroy_Mark i"
    have "in_use p task bs (s\<lparr>injector_of := injector_of s, thieves := (thieves s)(j := ?t), got := (got s)(j := got s j)\<rparr>) ts st"
    proof (rule thief_frame [OF assms(1-3) u(1)])
      show "thief_ok task (bs ! j) (bs ! Suc j) st ?t (got s j)"
        by (rule destroying_ok [OF u(3) [OF assms(3)]]) (simp_all add: assms(4))
      show "token bs st ((thieves s)(j := ?t))"
        by (rule at_work_upd [OF w, of _ "if flag (st i) READ then i else Suc i"]) (auto simp: Suc less_Suc_eq split: if_splits)
    qed simp_all
    from users_invI [OF this] show ?thesis using assms(4) Suc block_is_get [OF u(1) i] by (auto simp: thief_step_def Let_def flag_def)
  qed
qed

section \<open>Reachable states\<close>

lemma thief_step_inv:
  assumes "block_ranges bs" "in_use p task bs s ts st" "j < ranges bs"
  shows "\<exists>s'. thief_step p bs j s = Some s' \<and> users_inv p task bs s'"
proof (cases "thieves s j")
  case Finished
  then show ?thesis using users_invI [OF assms(2)] by (simp add: thief_step_def Let_def)
next
  case (Taking i)
  show ?thesis by (rule taking_step_inv [OF assms Taking])
next
  case (Read_Mark i)
  show ?thesis by (rule read_mark_step_inv [OF assms Read_Mark])
next
  case (Destroying c)
  show ?thesis by (rule destroying_step_inv [OF assms Destroying])
next
  case (Destroy_Mark i)
  show ?thesis by (rule destroy_mark_step_inv [OF assms Destroy_Mark])
qed

lemma freed_step:
  "\<lbrakk>freed p task bs s; i < 63\<rbrakk> \<Longrightarrow> pusher_step p task i s = Some s"
  "\<lbrakk>freed p task bs s; j < ranges bs\<rbrakk> \<Longrightarrow> thief_step p bs j s = Some s"
  by (simp_all add: freed_def pusher_step_def thief_step_def Let_def)

lemma users_step_total:
  assumes "block_ranges bs" "users_inv p task bs s"
  shows "i < 63 \<Longrightarrow> \<exists>s'. pusher_step p task i s = Some s' \<and> users_inv p task bs s'"
    "j < ranges bs \<Longrightarrow> \<exists>s'. thief_step p bs j s = Some s' \<and> users_inv p task bs s'"
  using assms(2) freed_step [of p task bs s] pusher_step_inv [of p task bs s] thief_step_inv [OF assms(1), of p task s]
  unfolding users_inv_def by blast+

lemma reachable_inv:
  assumes "block_ranges bs" "users_init p bs s" "(users_step p task bs)\<^sup>*\<^sup>* s s'"
  shows "users_inv p task bs s'"
  using assms(3)
proof (induction rule: rtranclp_induct)
  case base
  then show ?case by (rule users_init_inv [OF assms(1,2)])
next
  case (step y z)
  from step(2) show ?case
    by cases (use users_step_total [OF assms(1) step(3)] in \<open>fastforce+\<close>)
qed

lemma in_use_unfinished:
  assumes "block_ranges bs" "in_use p task bs s ts st"
  shows "\<exists>j < ranges bs. thieves s j \<noteq> Finished"
proof (rule ccontr)
  assume "\<not> ?thesis"
  then have f: "\<And>j. j < ranges bs \<Longrightarrow> thieves s j = Finished" by blast
  note u = in_useD [OF assms(2)]
  obtain l where l: "Suc l = ranges bs" "last_start bs < 63" by (rule last_range [OF assms(1)])
  have "\<not> not_begun bs st (thieves s)" using f [of "ranges bs - 1"] l(1) by (auto simp: not_begun_def)
  moreover have "\<not> at_work bs st (thieves s) j c" for j c using f [of j] by (auto simp: at_work_def)
  ultimately obtain d where d: "handed_over bs st (thieves s) d" using u(4) by (auto simp: token_def)
  then have dL: "d < last_start bs" "\<not> flag (st d) READ" by (auto simp: handed_over_def)
  then have "d < 63" using l(2) by simp
  from range_of_slot [OF assms(1) this] obtain j where j: "j < ranges bs" "bs ! j \<le> d" "d < bs ! Suc j" by blast
  have "bs ! Suc j \<noteq> 63"
  proof
    assume "bs ! Suc j = 63"
    then have "last_start bs = bs ! j" using range_bounds(3,5) [OF assms(1) j(1)] by simp
    then show False using dL(1) j(2) by simp
  qed
  then have "flag (st d) READ" using u(3) [OF j(1)] f [OF j(1)] j(2,3) by (auto simp: thief_ok_def)
  then show False using dL(2) by blast
qed

section \<open>Waiting for a task to be written\<close>

lemma in_use_taking:
  assumes "users_inv p task bs s" "j < ranges bs" "thieves s j = Taking i"
  obtains ts st where "in_use p task bs s ts st"
  using assms by (auto simp: users_inv_def freed_def)

lemma pusher_keeps: "pusher_step p task i s = Some s' \<Longrightarrow> thieves s' = thieves s \<and> got s' = got s"
  by (auto simp: pusher_step_def split: pusher.splits bind_splits)

lemma pusher_write_mark:
  assumes "users_inv p task bs s" "i < 63" "pushers s i = Write_Mark"
  shows "\<exists>s'. pusher_step p task i s = Some s' \<and> users_inv p task bs s' \<and> pushers s' i = Pushed"
proof -
  obtain ts st where "in_use p task bs s ts st" using assms by (auto simp: users_inv_def freed_def)
  from pusher_step_inv [OF this assms(2)] obtain s' where "pusher_step p task i s = Some s'" "users_inv p task bs s'" by blast
  moreover from this have "pushers s' i = Pushed" using assms(3) by (auto simp: pusher_step_def split: bind_splits)
  ultimately show ?thesis by blast
qed

text \<open>The pusher of a slot has written its task within two steps.\<close>

lemma pusher_finishes:
  assumes "users_inv p task bs s" "i < 63"
  shows "\<exists>n s'. n \<le> 2 \<and> for_in (replicate n i) (pusher_step p task) s = Some s' \<and> users_inv p task bs s' \<and> pushers s' i = Pushed"
proof (cases "pushers s i")
  case Store_Task
  then obtain ts st where "in_use p task bs s ts st" using assms by (auto simp: users_inv_def freed_def)
  from pusher_step_inv [OF this assms(2)] obtain s1 where s1: "pusher_step p task i s = Some s1" "users_inv p task bs s1" by blast
  have "pushers s1 i = Write_Mark" using s1(1) Store_Task by (auto simp: pusher_step_def split: bind_splits)
  from pusher_write_mark [OF s1(2) assms(2) this] obtain s2 where "pusher_step p task i s1 = Some s2" "users_inv p task bs s2" "pushers s2 i = Pushed" by blast
  then show ?thesis using s1(1) by (intro exI [of _ "Suc (Suc 0)"] exI [of _ s2]) simp
next
  case Write_Mark
  from pusher_write_mark [OF assms this] obtain s2 where "pusher_step p task i s = Some s2" "users_inv p task bs s2" "pushers s2 i = Pushed" by blast
  then show ?thesis by (intro exI [of _ "Suc 0"] exI [of _ s2]) simp
next
  case Pushed
  then show ?thesis using assms(1) by (intro exI [of _ 0] exI [of _ s]) simp
qed

lemma pushers_keep: "for_in (replicate n i) (pusher_step p task) s = Some s' \<Longrightarrow> thieves s' = thieves s \<and> got s' = got s"
  by (induction n arbitrary: s) (auto dest!: pusher_keeps split: bind_splits)

lemma write_wait_ends:
  assumes "block_ranges bs" "users_inv p task bs s" "j < ranges bs" "thieves s j = Taking i" "i < bs ! Suc j"
  shows "\<exists>n s1 s2. n \<le> 2 \<and> for_in (replicate n i) (pusher_step p task) s = Some s1 \<and> thief_step p bs j s1 = Some s2
    \<and> thieves s2 j = Taking (Suc i) \<and> got s2 j = got s j @ [task i]"
proof -
  have i: "i < 63" using range_bounds(2) [OF assms(1,3)] assms(5) by simp
  from pusher_finishes [OF assms(2) i] obtain n s1 where n: "n \<le> 2" "for_in (replicate n i) (pusher_step p task) s = Some s1"
    "users_inv p task bs s1" "pushers s1 i = Pushed" by blast
  have k: "thieves s1 = thieves s" "got s1 = got s" using pushers_keep [OF n(2)] by simp_all
  obtain ts st where u: "in_use p task bs s1 ts st" using in_use_taking [OF n(3) assms(3)] assms(4) k(1) by metis
  note u = in_useD [OF u]
  have "flag (st i) WRITE" "ts i = Some (task i)" using u(2) [OF i] n(4) by (auto simp: pusher_ok_def)
  then have "thief_step p bs j s1 = Some (s1\<lparr>thieves := (thieves s1)(j := Taking (Suc i)), got := (got s1)(j := got s1 j @ [task i])\<rparr>)"
    using block_is_get [OF u(1) i] block_is_read [OF u(1) i] assms(4,5) k by (simp add: thief_step_def Let_def flag_def)
  then show ?thesis using n(1,2) k by auto
qed

section \<open>Properties\<close>

text \<open>
  C3: a block of the injector is freed exactly once, when nobody needs it any more, under every interleaving
  of the pushers of its slots and of the thieves of its ranges, whatever the ranges are: in every reachable state no thread's
  next access is undefined behaviour (no use after free, no read of a task that is not there, no
  second free); the block is gone exactly when all thieves have finished, and then all pushers
  have finished too and each thief got exactly the tasks of its range, in order.
\<close>

theorem block_freed_once:
  assumes "block_ranges bs" "users_init p bs s" "(users_step p task bs)\<^sup>*\<^sup>* s s'"
  shows "(\<forall>i < 63. pusher_step p task i s' \<noteq> None) \<and> (\<forall>j < ranges bs. thief_step p bs j s' \<noteq> None)
    \<and> (blocks (injector_of s') p = None \<longleftrightarrow> (\<forall>j < ranges bs. thieves s' j = Finished))
    \<and> (blocks (injector_of s') p = None \<longrightarrow> (\<forall>i < 63. pushers s' i = Pushed)
         \<and> (\<forall>j < ranges bs. got s' j = map task [bs ! j..<bs ! Suc j]))"
proof -
  note inv = reachable_inv [OF assms]
  have "(\<forall>i < 63. pusher_step p task i s' \<noteq> None) \<and> (\<forall>j < ranges bs. thief_step p bs j s' \<noteq> None)"
    using users_step_total [OF assms(1) inv] by fastforce
  moreover have "blocks (injector_of s') p \<noteq> None" if "in_use p task bs s' ts st" for ts st
    using in_useD(1) [OF that] by (auto simp: block_is_def)
  ultimately show ?thesis using inv in_use_unfinished [OF assms(1)] unfolding users_inv_def freed_def by blast
qed

theorem block_freed_once_witness:
  "\<exists>s :: nat users. users_init 0 [0, 5, 63] s \<and> thief_step 0 [0, 5, 63] 1 s \<noteq> None \<and> blocks (injector_of s) 0 \<noteq> None"
proof -
  let ?s = "\<lparr>injector_of = injector_new, pushers = \<lambda>_. Store_Task, thieves = \<lambda>j. Taking ([0, 5, 63] ! j), got = \<lambda>_. []\<rparr> :: nat users"
  have i: "users_init 0 [0, 5, 63] ?s" by (simp add: users_init_def injector_new_def)
  have b: "block_ranges [0, 5, 63]" by (simp add: block_ranges_def ranges_def)
  have r: "ranges [0, 5, 63 :: nat] = 2" by (simp add: ranges_def)
  have "\<forall>j < 2. thief_step 0 [0, 5, 63] j ?s \<noteq> None" using block_freed_once [OF b i rtranclp.rtrancl_refl, of id] unfolding r by blast
  moreover have "blocks (injector_of ?s) 0 \<noteq> None" by (simp add: injector_new_def)
  ultimately show ?thesis using i by (intro exI [of _ ?s]) simp
qed

end
