(* ===== verification/Injector_Threads.thy ===== *)
theory Injector_Threads
  imports Injector_Rep "HOL-Library.Sublist"
begin

text \<open>
  The indices of the injector under every interleaving of any number of pushing and stealing threads,
  each step one access to the shared indices and links (\<^verbatim>\<open>Injector::push\<close>, \<^verbatim>\<open>steal\<close>, \<^verbatim>\<open>steal_batch\<close> and
  \<^verbatim>\<open>steal_batch_and_pop\<close> of \<^verbatim>\<open>task/crossbeam.rs\<close> up to the point where their slots are won). What happens to
  the slots of a block afterwards, and when the block is freed, is the subject of
  \<open>Block_Protocol\<close>; blocks stay allocated here. A \<^verbatim>\<open>compare_exchange_weak\<close> may fail at any time.

  The ghost field \<open>chain\<close> names the block of each lap; \<open>pushed\<close> and \<open>stolen\<close> record the slots in the
  order in which pushers and thieves won them.
\<close>

section \<open>Threads\<close>

text \<open>
  A pusher remembers the tail index, the tail block and the block it allocated in advance. A thief of
  \<open>steal\<close> has no limit, a thief of a batch the limit \<^verbatim>\<open>MAX_BATCH\<close> or \<^verbatim>\<open>MAX_BATCH + 1\<close>.
\<close>

datatype push_pc =
    P_Idle
  | P_Start "nat option"
  | P_Tail usize "nat option"
  | P_Try usize nat "nat option"
  | P_Block usize nat nat
  | P_Index usize nat nat
  | P_Link nat nat
  | P_Won nat usize

datatype steal_pc =
    S_Idle
  | S_Start "usize option"
  | S_Head "usize option" usize
  | S_Tail "usize option" usize nat
  | S_Try usize nat usize usize
  | S_Wait usize nat usize usize
  | S_Peek usize nat nat usize usize
  | S_Set_Block usize nat nat usize usize
  | S_Set_Index usize nat usize usize
  | S_Won nat usize usize
  | S_Empty
  | S_Retry

record 'a threads =
  shared :: "'a injector"
  chain :: "nat \<Rightarrow> nat"
  pushing :: "nat \<Rightarrow> push_pc"
  stealing :: "nat \<Rightarrow> steal_pc"
  pushed :: "(nat \<times> nat) list"
  stolen :: "(nat \<times> nat) list"

section \<open>Steps\<close>

text \<open>One access of the pusher \<open>t\<close>; \<open>sp\<close> makes a \<^verbatim>\<open>compare_exchange_weak\<close> fail. \<open>None\<close> is undefined behaviour or a panic.\<close>

definition push_step :: "bool \<Rightarrow> nat \<Rightarrow> 'a threads \<Rightarrow> 'a threads option" where
  "push_step sp t s =
     (let q = shared s; to = (\<lambda>q pc. s\<lparr>shared := q, pushing := (pushing s)(t := pc)\<rparr>)
      in case pushing s t of
        P_Idle \<Rightarrow> Some (to q (P_Start None))
      | P_Start box \<Rightarrow> Some (to q (P_Tail (tail_index q) box))
      | P_Tail tail box \<Rightarrow>
          let block = tail_block q; offset = offset_of tail
          in if offset = BLOCK_CAP then Some (to q (P_Start box))
             else if offset + 1 = BLOCK_CAP \<and> box = None
             then let (p, q) = block_alloc q in Some (to q (P_Try tail block (Some p)))
             else Some (to q (P_Try tail block box))
      | P_Try tail block box \<Rightarrow>
          let offset = offset_of tail; new_tail = tail + push_bit SHIFT 1
          in if tail_index q = tail \<and> \<not> sp then
               let q = q\<lparr>tail_index := new_tail\<rparr>; s = s\<lparr>pushed := pushed s @ [(block, unat offset)]\<rparr>
               in if offset + 1 = BLOCK_CAP then do {
                    nxt \<leftarrow> box;
                    Some (s\<lparr>shared := q, chain := (chain s)(Suc (unat (drop_bit SHIFT tail div LAP)) := nxt),
                            pushing := (pushing s)(t := P_Block new_tail block nxt)\<rparr>) }
                  else Some (s\<lparr>shared := q, pushing := (pushing s)(t := P_Won block offset)\<rparr>)
             else Some (to q (P_Tail (tail_index q) box))
      | P_Block new_tail block nxt \<Rightarrow> Some (to (q\<lparr>tail_block := nxt\<rparr>) (P_Index new_tail block nxt))
      | P_Index new_tail block nxt \<Rightarrow>
          Some (to (q\<lparr>tail_index := new_tail + push_bit SHIFT 1\<rparr>) (P_Link block nxt))
      | P_Link block nxt \<Rightarrow> do {
          b \<leftarrow> blocks q block;
          Some (to (q\<lparr>blocks := (blocks q)(block \<mapsto> b\<lparr>bnext := Some nxt\<rparr>)\<rparr>) (P_Won block (BLOCK_CAP - 1))) }
      | P_Won block offset \<Rightarrow> Some (to q P_Idle))"

text \<open>The first value of \<^verbatim>\<open>new_head\<close>: \<^verbatim>\<open>steal\<close> moves it on at once, the batch operations do so later.\<close>

definition first_head :: "usize option \<Rightarrow> usize \<Rightarrow> usize" where
  "first_head lim head = (case lim of None \<Rightarrow> head + push_bit SHIFT 1 | Some l \<Rightarrow> head)"

text \<open>The new head index and the number of slots to take; \<open>tail\<close> counts only if the head has no \<^verbatim>\<open>HAS_NEXT\<close>.\<close>

definition advance :: "usize option \<Rightarrow> usize \<Rightarrow> usize \<Rightarrow> usize \<times> usize" where
  "advance lim head tail =
     (case lim of
        None \<Rightarrow>
          let new_head = first_head lim head
          in (if new_head AND HAS_NEXT = 0 \<and> drop_bit SHIFT head div LAP \<noteq> drop_bit SHIFT tail div LAP
              then new_head OR HAS_NEXT else new_head, 1)
      | Some l \<Rightarrow> let (new_head, adv) = batch_advance l head tail (offset_of head) in (new_head + push_bit SHIFT adv, adv))"

definition steal_step :: "bool \<Rightarrow> usize option \<Rightarrow> nat \<Rightarrow> 'a threads \<Rightarrow> 'a threads option" where
  "steal_step sp lim t s =
     (let q = shared s; to = (\<lambda>q pc. s\<lparr>shared := q, stealing := (stealing s)(t := pc)\<rparr>)
      in case stealing s t of
        S_Start lim \<Rightarrow> Some (to q (S_Head lim (head_index q)))
      | S_Head lim head \<Rightarrow>
          let block = head_block q
          in if offset_of head = BLOCK_CAP then Some (to q (S_Start lim))
             else if first_head lim head AND HAS_NEXT = 0 then Some (to q (S_Tail lim head block))
             else let (new_head, adv) = advance lim head 0 in Some (to q (S_Try head block new_head adv))
      | S_Tail lim head block \<Rightarrow>
          let tail = tail_index q
          in if drop_bit SHIFT head = drop_bit SHIFT tail then Some (to q S_Empty)
             else let (new_head, adv) = advance lim head tail in Some (to q (S_Try head block new_head adv))
      | S_Try head block new_head adv \<Rightarrow>
          let offset = offset_of head; new_offset = offset + adv
          in if head_index q = head \<and> \<not> sp then
               let q = q\<lparr>head_index := new_head\<rparr>;
                   s = s\<lparr>stolen := stolen s @ map (Pair block) [unat offset..<unat new_offset]\<rparr>
               in Some (s\<lparr>shared := q, stealing := (stealing s)(t :=
                    if new_offset = BLOCK_CAP then S_Wait new_head block offset adv else S_Won block offset adv)\<rparr>)
             else Some (to q S_Retry)
      | S_Wait new_head block offset adv \<Rightarrow> do {
          b \<leftarrow> blocks q block;
          (case bnext b of None \<Rightarrow> Some s | Some next \<Rightarrow> Some (to q (S_Peek new_head block next offset adv))) }
      | S_Peek new_head block next offset adv \<Rightarrow> do {
          let next_index = (new_head AND NOT HAS_NEXT) + push_bit SHIFT 1;
          b \<leftarrow> blocks q next;
          let next_index = (if bnext b \<noteq> None then next_index OR HAS_NEXT else next_index);
          Some (to q (S_Set_Block next_index block next offset adv)) }
      | S_Set_Block next_index block next offset adv \<Rightarrow>
          Some (to (q\<lparr>head_block := next\<rparr>) (S_Set_Index next_index block offset adv))
      | S_Set_Index next_index block offset adv \<Rightarrow>
          Some (to (q\<lparr>head_index := next_index\<rparr>) (S_Won block offset adv))
      | _ \<Rightarrow> Some (to q (S_Start lim)))"

inductive threads_step :: "'a threads \<Rightarrow> 'a threads \<Rightarrow> bool" where
  push: "push_step sp t s = Some s' \<Longrightarrow> threads_step s s'"
| steal: "\<lbrakk>lim \<in> {None, Some MAX_BATCH, Some (MAX_BATCH + 1)}; steal_step sp lim t s = Some s'\<rbrakk> \<Longrightarrow> threads_step s s'"

definition threads_init :: "'a threads" where
  "threads_init = \<lparr>shared = injector_new, chain = (\<lambda>_. 0), pushing = (\<lambda>_. P_Idle), stealing = (\<lambda>_. S_Idle), pushed = [], stolen = []\<rparr>"

text \<open>A schedule says which thread steps next.\<close>

datatype choice = Pusher bool nat | Thief bool "usize option" nat

fun run_threads :: "choice list \<Rightarrow> 'a threads \<Rightarrow> 'a threads option" where
  "run_threads [] s = Some s"
| "run_threads (Pusher sp t # cs) s = do { s \<leftarrow> push_step sp t s; run_threads cs s }"
| "run_threads (Thief sp lim t # cs) s =
     (if lim \<in> {None, Some MAX_BATCH, Some (MAX_BATCH + 1)} then do { s \<leftarrow> steal_step sp lim t s; run_threads cs s } else None)"

lemma run_threads_reach: "run_threads cs s = Some s' \<Longrightarrow> threads_step\<^sup>*\<^sup>* s s'"
proof (induction cs s rule: run_threads.induct)
  case (2 sp t cs s)
  then show ?case by (auto simp: bind_eq_Some_conv intro: converse_rtranclp_into_rtranclp threads_step.push)
next
  case (3 sp lim t cs s)
  then show ?case by (auto simp: bind_eq_Some_conv split: if_splits intro: converse_rtranclp_into_rtranclp threads_step.steal)
qed simp

section \<open>Invariant\<close>

definition slot_at :: "(nat \<Rightarrow> nat) \<Rightarrow> nat \<Rightarrow> nat \<times> nat" where
  "slot_at ch p = (ch (p div 64), p mod 64)"

text \<open>Laps up to \<open>laps T\<close> have a block; when the tail is at the end of a block, the next lap already has one.\<close>

definition laps :: "nat \<Rightarrow> nat" where "laps T = Suc T div 64"

definition linked :: "'a injector \<Rightarrow> (nat \<Rightarrow> nat) \<Rightarrow> nat \<Rightarrow> nat \<Rightarrow> bool" where
  "linked q ch T L \<longleftrightarrow> ch L < next_block q \<and>
     (\<exists>b. blocks q (ch L) = Some b \<and> (\<forall>x. bnext b = Some x \<longrightarrow> L < T div 64 \<and> x = ch (Suc L)))"

definition shared_inv :: "'a injector \<Rightarrow> (nat \<Rightarrow> nat) \<Rightarrow> nat \<Rightarrow> nat \<Rightarrow> bool" where
  "shared_inv q ch H T \<longleftrightarrow> pos (head_index q) = H \<and> pos (tail_index q) = T \<and> even (unat (tail_index q))
     \<and> H \<le> T \<and> (odd (unat (head_index q)) \<longrightarrow> H div 64 < T div 64)
     \<and> (T mod 64 \<noteq> 63 \<longrightarrow> tail_block q = ch (T div 64)) \<and> (H mod 64 \<noteq> 63 \<longrightarrow> head_block q = ch (H div 64))
     \<and> inj_on ch {..laps T} \<and> (\<forall>L \<le> laps T. linked q ch T L)"

definition box_ok :: "'a injector \<Rightarrow> (nat \<Rightarrow> nat) \<Rightarrow> nat \<Rightarrow> nat option \<Rightarrow> bool" where
  "box_ok q ch T box \<longleftrightarrow> (\<forall>p. box = Some p \<longrightarrow> p < next_block q \<and> p \<notin> ch ` {..laps T} \<and> (\<exists>b. blocks q p = Some b \<and> bnext b = None))"

fun box_of :: "push_pc \<Rightarrow> nat option" where
  "box_of (P_Start box) = box"
| "box_of (P_Tail _ box) = box"
| "box_of (P_Try _ _ box) = box"
| "box_of _ = None"

fun installing :: "push_pc \<Rightarrow> bool" where
  "installing (P_Block _ _ _) = True"
| "installing (P_Index _ _ _) = True"
| "installing _ = False"

fun pusher_inv :: "'a injector \<Rightarrow> (nat \<Rightarrow> nat) \<Rightarrow> nat \<Rightarrow> push_pc \<Rightarrow> bool" where
  "pusher_inv q ch T (P_Tail tail box) \<longleftrightarrow> pos tail \<le> T \<and> even (unat tail)"
| "pusher_inv q ch T (P_Try tail block box) \<longleftrightarrow> pos tail \<le> T \<and> even (unat tail) \<and> pos tail mod 64 \<noteq> 63
     \<and> (pos tail = T \<longrightarrow> block = ch (T div 64)) \<and> (pos tail mod 64 = 62 \<longrightarrow> box \<noteq> None)"
| "pusher_inv q ch T (P_Block new_tail block next) \<longleftrightarrow> new_tail = tail_index q \<and> T mod 64 = 63
     \<and> block = ch (T div 64) \<and> next = ch (Suc (T div 64))"
| "pusher_inv q ch T (P_Index new_tail block next) \<longleftrightarrow> new_tail = tail_index q \<and> T mod 64 = 63
     \<and> block = ch (T div 64) \<and> next = ch (Suc (T div 64)) \<and> tail_block q = next"
| "pusher_inv q ch T (P_Link block next) \<longleftrightarrow> (\<exists>L < T div 64. block = ch L \<and> next = ch (Suc L))"
| "pusher_inv q ch T _ \<longleftrightarrow> True"

fun moving :: "steal_pc \<Rightarrow> bool" where
  "moving (S_Wait _ _ _ _) = True"
| "moving (S_Peek _ _ _ _ _) = True"
| "moving (S_Set_Block _ _ _ _ _) = True"
| "moving (S_Set_Index _ _ _ _) = True"
| "moving _ = False"

definition limit_ok :: "usize option \<Rightarrow> bool" where
  "limit_ok lim \<longleftrightarrow> (\<forall>l. lim = Some l \<longrightarrow> 0 < unat l \<and> unat l \<le> 33)"

text \<open>What a thief knows as long as the head has not moved on.\<close>

fun thief_inv :: "'a injector \<Rightarrow> (nat \<Rightarrow> nat) \<Rightarrow> nat \<Rightarrow> nat \<Rightarrow> steal_pc \<Rightarrow> bool" where
  "thief_inv q ch H T (S_Start lim) \<longleftrightarrow> limit_ok lim"
| "thief_inv q ch H T (S_Head lim head) \<longleftrightarrow> limit_ok lim \<and> unat head \<le> unat (head_index q)"
| "thief_inv q ch H T (S_Tail lim head block) \<longleftrightarrow> limit_ok lim \<and> unat head \<le> unat (head_index q) \<and> even (unat head)
     \<and> pos head mod 64 \<noteq> 63 \<and> (head = head_index q \<longrightarrow> block = ch (H div 64))"
| "thief_inv q ch H T (S_Try head block new_head adv) \<longleftrightarrow> unat head \<le> unat (head_index q)
     \<and> pos head mod 64 \<noteq> 63 \<and> (head = head_index q \<longrightarrow> block = ch (H div 64) \<and> 0 < unat adv \<and> H mod 64 + unat adv \<le> 63
          \<and> H + unat adv \<le> T \<and> pos new_head = H + unat adv \<and> (odd (unat new_head) \<longrightarrow> H div 64 < T div 64))"
| "thief_inv q ch H T (S_Wait new_head block offset adv) \<longleftrightarrow> new_head = head_index q \<and> H mod 64 = 63 \<and> block = ch (H div 64)"
| "thief_inv q ch H T (S_Peek new_head block next offset adv) \<longleftrightarrow> new_head = head_index q \<and> H mod 64 = 63 \<and> H div 64 < T div 64
     \<and> next = ch (Suc (H div 64))"
| "thief_inv q ch H T (S_Set_Block next_index block next offset adv) \<longleftrightarrow> H mod 64 = 63 \<and> H div 64 < T div 64
     \<and> next = ch (Suc (H div 64)) \<and> pos next_index = Suc H \<and> (odd (unat next_index) \<longrightarrow> Suc (H div 64) < T div 64)"
| "thief_inv q ch H T (S_Set_Index next_index block offset adv) \<longleftrightarrow> H mod 64 = 63 \<and> H div 64 < T div 64
     \<and> head_block q = ch (Suc (H div 64)) \<and> pos next_index = Suc H \<and> (odd (unat next_index) \<longrightarrow> Suc (H div 64) < T div 64)"
| "thief_inv q ch H T _ \<longleftrightarrow> True"

definition threads_inv :: "'a threads \<Rightarrow> nat \<Rightarrow> nat \<Rightarrow> bool" where
  "threads_inv s H T \<longleftrightarrow> shared_inv (shared s) (chain s) H T
     \<and> (\<forall>t. box_ok (shared s) (chain s) T (box_of (pushing s t)) \<and> pusher_inv (shared s) (chain s) T (pushing s t))
     \<and> (\<forall>t u p. box_of (pushing s t) = Some p \<longrightarrow> box_of (pushing s u) = Some p \<longrightarrow> t = u)
     \<and> (\<forall>t u. installing (pushing s t) \<longrightarrow> installing (pushing s u) \<longrightarrow> t = u)
     \<and> (\<forall>t. thief_inv (shared s) (chain s) H T (stealing s t))
     \<and> (\<forall>t u. moving (stealing s t) \<longrightarrow> moving (stealing s u) \<longrightarrow> t = u)
     \<and> pushed s = map (slot_at (chain s)) (positions 0 T) \<and> stolen s = map (slot_at (chain s)) (positions 0 H)"

lemma threads_init_inv: "threads_inv threads_init 0 0"
  by (simp add: threads_inv_def threads_init_def shared_inv_def injector_new_def linked_def laps_def pos_def box_ok_def block_new_def
      positions_def inj_on_def)

section \<open>Arithmetic of laps\<close>

lemma laps_ge: "T div 64 \<le> laps T" "H \<le> T \<Longrightarrow> H div 64 \<le> laps T"
  by (auto simp: laps_def intro: div_le_mono)

lemma laps_inner: "T mod 64 < 62 \<Longrightarrow> laps (Suc T) = laps T \<and> laps T = T div 64 \<and> Suc T div 64 = T div 64 \<and> Suc T mod 64 \<noteq> 63"
  using same_lap [of T 1] same_lap [of T 2] by (auto simp: laps_def)

lemma laps_last: "T mod 64 = 62 \<Longrightarrow> laps T = T div 64 \<and> laps (Suc T) = Suc (T div 64) \<and> Suc T div 64 = T div 64 \<and> Suc T mod 64 = 63"
  using same_lap [of T 1] next_lap [of "Suc T"] by (auto simp: laps_def)

lemma laps_end: "T mod 64 = 63 \<Longrightarrow> laps T = Suc (T div 64) \<and> laps (Suc T) = laps T \<and> Suc T div 64 = Suc (T div 64) \<and> Suc T mod 64 = 0"
  using next_lap [of T] same_lap [of "Suc T" 1] by (auto simp: laps_def)

lemma pos_less: "pos a < pos b \<Longrightarrow> unat a < unat b"
  by (auto simp: pos_def)

lemma pos_step: "pos w < 2 ^ 62 \<Longrightarrow> pos (w + push_bit SHIFT 1) = Suc (pos w) \<and> (even (unat (w + push_bit SHIFT 1)) \<longleftrightarrow> even (unat w))"
  using pos_add [of w 1] by simp

section \<open>What other threads' steps keep\<close>

lemma thief_stable_tail:
  assumes "thief_inv q ch H T pc" "head_index q' = head_index q" "head_block q' = head_block q" "H \<le> T" "T \<le> T'" "\<And>L. L \<le> laps T \<Longrightarrow> ch' L = ch L"
  shows "thief_inv q' ch' H T' pc"
proof -
  have "T div 64 \<le> T' div 64" using assms(5) by (rule div_le_mono)
  moreover have "ch' (H div 64) = ch (H div 64)" using assms(4,6) laps_ge(2) by blast
  moreover have "ch' (Suc (H div 64)) = ch (Suc (H div 64))" if "H div 64 < T div 64" using that assms(6) laps_ge(1) [of T] by (meson Suc_leI le_trans)
  ultimately show ?thesis using assms by (cases pc) auto
qed

lemma thief_stable_head:
  assumes "thief_inv q ch H T pc" "pos (head_index q) = H" "unat (head_index q) < unat (head_index q') \<or> head_index q' = head_index q \<and> H' = H"
    "moving pc \<Longrightarrow> head_index q' = head_index q \<and> head_block q' = head_block q \<and> H' = H"
  shows "thief_inv q' ch H' T pc"
  using assms by (cases pc) auto

lemma pusher_stable:
  assumes "pusher_inv q ch T pc" "T \<le> T'" "\<And>L. L \<le> laps T \<Longrightarrow> ch' L = ch L"
    "installing pc \<Longrightarrow> tail_index q' = tail_index q \<and> tail_block q' = tail_block q \<and> T' = T"
  shows "pusher_inv q' ch' T' pc"
proof (cases pc)
  case (P_Try tail block box)
  have "ch' (T div 64) = ch (T div 64)" using assms(3) laps_ge(1) by blast
  then show ?thesis using assms(1,2) P_Try by auto
next
  case (P_Link block nxt)
  then obtain L where L: "L < T div 64" "block = ch L" "nxt = ch (Suc L)" using assms(1) by auto
  have "ch' L = ch L" "ch' (Suc L) = ch (Suc L)" using assms(3) laps_ge(1) [of T] L(1) by simp_all
  moreover have "L < T' div 64" using L(1) div_le_mono [OF assms(2), of 64] by simp
  ultimately show ?thesis using P_Link L by auto
next
  case (P_Block new_tail block nxt)
  then have "T mod 64 = 63" using assms(1) by simp
  then have "ch' (T div 64) = ch (T div 64)" "ch' (Suc (T div 64)) = ch (Suc (T div 64))" using assms(3) laps_end [of T] by auto
  then show ?thesis using assms(1,4) P_Block by auto
next
  case (P_Index new_tail block nxt)
  then have "T mod 64 = 63" using assms(1) by simp
  then have "ch' (T div 64) = ch (T div 64)" "ch' (Suc (T div 64)) = ch (Suc (T div 64))" using assms(3) laps_end [of T] by auto
  then show ?thesis using assms(1,4) P_Index by auto
qed (use assms in auto)

lemma installing_end: "\<lbrakk>pusher_inv q ch T pc; installing pc\<rbrakk> \<Longrightarrow> T mod 64 = 63"
  by (cases pc) auto

lemma moving_end: "\<lbrakk>thief_inv q ch H T pc; moving pc\<rbrakk> \<Longrightarrow> H mod 64 = 63"
  by (cases pc) auto

lemma threads_invD:
  assumes "threads_inv s H T"
  shows "shared_inv (shared s) (chain s) H T" "\<And>t. box_ok (shared s) (chain s) T (box_of (pushing s t))" "\<And>t. pusher_inv (shared s) (chain s) T (pushing s t)"
    "\<And>t u p. \<lbrakk>box_of (pushing s t) = Some p; box_of (pushing s u) = Some p\<rbrakk> \<Longrightarrow> t = u"
    "\<And>t u. \<lbrakk>installing (pushing s t); installing (pushing s u)\<rbrakk> \<Longrightarrow> t = u"
    "\<And>t. thief_inv (shared s) (chain s) H T (stealing s t)" "\<And>t u. \<lbrakk>moving (stealing s t); moving (stealing s u)\<rbrakk> \<Longrightarrow> t = u"
    "pushed s = map (slot_at (chain s)) (positions 0 T)" "stolen s = map (slot_at (chain s)) (positions 0 H)"
  using assms unfolding threads_inv_def by auto

lemma shared_invD:
  assumes "shared_inv q ch H T"
  shows "pos (head_index q) = H" "pos (tail_index q) = T" "even (unat (tail_index q))" "H \<le> T" "odd (unat (head_index q)) \<Longrightarrow> H div 64 < T div 64"
    "T mod 64 \<noteq> 63 \<Longrightarrow> tail_block q = ch (T div 64)" "H mod 64 \<noteq> 63 \<Longrightarrow> head_block q = ch (H div 64)"
    "inj_on ch {..laps T}" "\<And>L. L \<le> laps T \<Longrightarrow> linked q ch T L"
  using assms by (auto simp: shared_inv_def)

lemma slots_cong:
  assumes "X \<le> T" "\<And>L. L \<le> laps T \<Longrightarrow> ch' L = ch L"
  shows "map (slot_at ch') (positions 0 X) = map (slot_at ch) (positions 0 X)"
proof -
  have "ch' (p div 64) = ch (p div 64)" if "p < X" for p using that assms laps_ge(2) [of p T] by simp
  then show ?thesis by (auto simp: slot_at_def positions_def)
qed

section \<open>Steps of pushing threads\<close>

lemma box_ok_None: "box_ok q ch T None"
  by (simp add: box_ok_def)

lemma pushing_same: "s\<lparr>shared := q, chain := chain s, pushing := ps, pushed := pushed s\<rparr> = s\<lparr>shared := q, pushing := ps\<rparr>"
  by (cases s) simp

lemma push_frame:
  assumes "threads_inv s H T" "shared_inv q ch H T'" "head_index q = head_index (shared s)" "head_block q = head_block (shared s)" "T \<le> T'"
    "\<And>L. L \<le> laps T \<Longrightarrow> ch L = chain s L"
    "box_ok q ch T' (box_of pc)" "pusher_inv q ch T' pc" "\<And>u. u \<noteq> t \<Longrightarrow> box_ok q ch T' (box_of (pushing s u))"
    "\<And>p u. \<lbrakk>box_of pc = Some p; u \<noteq> t\<rbrakk> \<Longrightarrow> box_of (pushing s u) \<noteq> Some p"
    "\<And>u. \<lbrakk>installing pc; u \<noteq> t\<rbrakk> \<Longrightarrow> \<not> installing (pushing s u)"
    "\<And>u. \<lbrakk>u \<noteq> t; installing (pushing s u)\<rbrakk> \<Longrightarrow> tail_index q = tail_index (shared s) \<and> tail_block q = tail_block (shared s) \<and> T' = T"
    "pd = map (slot_at ch) (positions 0 T')"
  shows "threads_inv (s\<lparr>shared := q, chain := ch, pushing := (pushing s)(t := pc), pushed := pd\<rparr>) H T'"
proof -
  note i = threads_invD [OF assms(1)]
  have HT: "H \<le> T" using shared_invD(4) [OF i(1)] .
  have p: "pusher_inv q ch T' (pushing s u)" if "u \<noteq> t" for u
    by (rule pusher_stable [OF i(3) assms(5,6)]) (use assms(12) that in auto)
  have th: "thief_inv q ch H T' (stealing s u)" for u
    by (rule thief_stable_tail [OF i(6) assms(3,4) HT assms(5,6)])
  have st: "stolen s = map (slot_at ch) (positions 0 H)" using i(9) slots_cong [OF HT assms(6)] by simp
  show ?thesis unfolding threads_inv_def
  proof (intro conjI allI impI)
    fix u v p assume "box_of (pushing (s\<lparr>shared := q, chain := ch, pushing := (pushing s)(t := pc), pushed := pd\<rparr>) u) = Some p"
      "box_of (pushing (s\<lparr>shared := q, chain := ch, pushing := (pushing s)(t := pc), pushed := pd\<rparr>) v) = Some p"
    then show "u = v" using i(4) [of u p v] assms(10) by (auto split: if_splits)
  next
    fix u v assume "installing (pushing (s\<lparr>shared := q, chain := ch, pushing := (pushing s)(t := pc), pushed := pd\<rparr>) u)"
      "installing (pushing (s\<lparr>shared := q, chain := ch, pushing := (pushing s)(t := pc), pushed := pd\<rparr>) v)"
    then show "u = v" using i(5) [of u v] assms(11) by (auto split: if_splits)
  qed (use assms(2,7-9,13) p th st i(7) in auto)
qed

text \<open>Steps that only change what the pusher knows.\<close>

lemma push_local:
  assumes "threads_inv s H T" "pusher_inv (shared s) (chain s) T pc" "box_of pc = None \<or> box_of pc = box_of (pushing s t)" "\<not> installing pc"
  shows "threads_inv (s\<lparr>shared := shared s, pushing := (pushing s)(t := pc)\<rparr>) H T"
proof -
  note i = threads_invD [OF assms(1)]
  have "threads_inv (s\<lparr>shared := shared s, chain := chain s, pushing := (pushing s)(t := pc), pushed := pushed s\<rparr>) H T"
  proof (rule push_frame [OF assms(1) i(1) refl refl order_refl refl _ assms(2) i(2) _ _ _ i(8)])
    show "box_ok (shared s) (chain s) T (box_of pc)" using assms(3) i(2) [of t] box_ok_None by metis
    show "box_of (pushing s u) \<noteq> Some p" if "box_of pc = Some p" "u \<noteq> t" for p u
    proof
      assume "box_of (pushing s u) = Some p"
      moreover have "box_of (pushing s t) = Some p" using assms(3) that(1) by (elim disjE) simp_all
      ultimately show False using i(4) that(2) by blast
    qed
  qed (simp_all add: assms(4))
  then show ?thesis unfolding pushing_same .
qed

text \<open>The block allocated in advance is new: it is in no lap and no other pusher has it.\<close>

lemma alloc_keeps:
  assumes "block_alloc q = (p, q')"
  shows "p = next_block q" "head_index q' = head_index q" "head_block q' = head_block q" "tail_index q' = tail_index q" "tail_block q' = tail_block q"
    "linked q ch T L \<Longrightarrow> linked q' ch T L" "box_ok q ch T box \<Longrightarrow> box_ok q' ch T box"
    "\<exists>b. blocks q' p = Some b \<and> bnext b = None" "p < next_block q'"
  using assms by (auto simp: block_alloc_def linked_def box_ok_def block_new_def)

lemma push_alloc:
  assumes inv: "threads_inv s H T" and al: "block_alloc (shared s) = (p, q)" and pc: "pusher_inv (shared s) (chain s) T (P_Try tail block (Some p))"
  shows "threads_inv (s\<lparr>shared := q, pushing := (pushing s)(t := P_Try tail block (Some p))\<rparr>) H T"
proof -
  note i = threads_invD [OF inv] and a = alloc_keeps [OF al]
  have sh: "shared_inv q (chain s) H T" using i(1) a by (auto simp: shared_inv_def)
  have new: "x < p" if "L \<le> laps T" "x = chain s L" for L x using shared_invD(9) [OF i(1) that(1)] that(2) a(1) by (auto simp: linked_def)
  have "threads_inv (s\<lparr>shared := q, chain := chain s, pushing := (pushing s)(t := P_Try tail block (Some p)), pushed := pushed s\<rparr>) H T"
  proof (rule push_frame [OF inv sh a(2,3) order_refl refl _ _ a(7) [OF i(2)] _ _ _ i(8)])
    show "box_ok q (chain s) T (box_of (P_Try tail block (Some p)))" unfolding box_ok_def using a(8,9) new by fastforce
    show "pusher_inv q (chain s) T (P_Try tail block (Some p))" using pc by simp
    show "box_of (pushing s u) \<noteq> Some p'" if "box_of (P_Try tail block (Some p)) = Some p'" for p' u
      using that i(2) [of u] a(1) by (auto simp: box_ok_def)
  qed (simp_all add: a)
  then show ?thesis unfolding pushing_same .
qed

text \<open>A pusher that wins a slot which is not the last one of its block.\<close>

lemma push_within:
  assumes inv: "threads_inv s H T" and bound: "T < 2 ^ 62" and m: "T mod 64 < 62" and q: "q = (shared s)\<lparr>tail_index := tail_index (shared s) + push_bit SHIFT 1\<rparr>"
  shows "threads_inv (s\<lparr>shared := q, pushing := (pushing s)(t := P_Won block c), pushed := pushed s @ [slot_at (chain s) T]\<rparr>) H (Suc T)"
proof -
  note i = threads_invD [OF inv] and sh = shared_invD [OF threads_invD(1) [OF inv]] and l = laps_inner [OF m]
  have p: "pos (tail_index q) = Suc T" "even (unat (tail_index q))" using pos_step [of "tail_index (shared s)"] sh(2,3) bound q by simp_all
  have lk: "linked q (chain s) (Suc T) L" if "L \<le> laps T" for L using sh(9) [OF that] l q by (simp add: linked_def)
  have "shared_inv q (chain s) H (Suc T)"
    unfolding shared_inv_def using p sh lk l m q by (auto simp: le_SucI)
  moreover have "\<not> installing (pushing s u)" for u using installing_end [OF i(3) [of u]] m by auto
  moreover have "box_ok q (chain s) (Suc T) (box_of (pushing s u))" for u using i(2) [of u] l q by (simp add: box_ok_def)
  moreover have "pushed s @ [slot_at (chain s) T] = map (slot_at (chain s)) (positions 0 (Suc T))" using i(8) m by (simp add: positions_snoc)
  ultimately have "threads_inv (s\<lparr>shared := q, chain := chain s, pushing := (pushing s)(t := P_Won block c), pushed := pushed s @ [slot_at (chain s) T]\<rparr>) H (Suc T)"
    by (intro push_frame [OF inv]) (simp_all add: q box_ok_None)
  moreover have "s\<lparr>shared := q, chain := chain s, pushing := ps, pushed := pd\<rparr> = s\<lparr>shared := q, pushing := ps, pushed := pd\<rparr>" for ps pd by (cases s) simp
  ultimately show ?thesis by simp
qed

text \<open>A pusher that wins the last slot of its block gives the next lap its block.\<close>

lemma push_last:
  assumes inv: "threads_inv s H T" and bound: "T < 2 ^ 62" and m: "T mod 64 = 62" and q: "q = (shared s)\<lparr>tail_index := tail_index (shared s) + push_bit SHIFT 1\<rparr>"
    and box: "box_of (pushing s t) = Some nxt"
  shows "threads_inv (s\<lparr>shared := q, chain := (chain s)(Suc (T div 64) := nxt), pushing := (pushing s)(t := P_Block (tail_index q) (chain s (T div 64)) nxt),
    pushed := pushed s @ [slot_at (chain s) T]\<rparr>) H (Suc T)"
proof -
  note i = threads_invD [OF inv] and sh = shared_invD [OF threads_invD(1) [OF inv]] and l = laps_last [OF m]
  let ?ch = "(chain s)(Suc (T div 64) := nxt)"
  have p: "pos (tail_index q) = Suc T" "even (unat (tail_index q))" using pos_step [of "tail_index (shared s)"] sh(2,3) bound q by simp_all
  have b: "nxt < next_block q" "nxt \<notin> chain s ` {..laps T}" "\<exists>b. blocks q nxt = Some b \<and> bnext b = None"
    using i(2) [of t] box q by (auto simp: box_ok_def)
  have lk: "linked q ?ch (Suc T) L" if "L \<le> laps (Suc T)" for L
  proof (cases "L \<le> laps T")
    case True
    then show ?thesis using sh(9) [OF True] l q by (auto simp: linked_def)
  next
    case False
    then have "L = Suc (T div 64)" using that l by simp
    then show ?thesis using b by (auto simp: linked_def)
  qed
  have "inj_on ?ch {..laps (Suc T)}" using sh(8) b(2) l by (auto simp: inj_on_def atMost_Suc)
  then have "shared_inv q ?ch H (Suc T)"
    unfolding shared_inv_def using p sh(1,4,5,7) lk l m q by (auto dest: div_le_mono [of _ _ 64])
  moreover have "\<not> installing (pushing s u)" for u using installing_end [OF i(3) [of u]] m by auto
  moreover have "box_ok q ?ch (Suc T) (box_of (pushing s u))" if "u \<noteq> t" for u
    using i(2) [of u] i(4) [of u nxt t] box that l q by (auto simp: box_ok_def atMost_Suc)
  moreover have "pushed s @ [slot_at (chain s) T] = map (slot_at ?ch) (positions 0 (Suc T))"
  proof -
    have "map (slot_at ?ch) (positions 0 T) = map (slot_at (chain s)) (positions 0 T)" by (rule slots_cong [OF order_refl]) (use l in auto)
    then show ?thesis using i(8) m by (simp add: positions_snoc slot_at_def)
  qed
  ultimately show ?thesis
    by (intro push_frame [OF inv]) (use l q in \<open>simp_all add: box_ok_None\<close>)
qed

lemma push_install_block:
  assumes inv: "threads_inv s H T" and pc: "pushing s t = P_Block new_tail block nxt"
  shows "threads_inv (s\<lparr>shared := (shared s)\<lparr>tail_block := nxt\<rparr>, pushing := (pushing s)(t := P_Index new_tail block nxt)\<rparr>) H T"
proof -
  note i = threads_invD [OF inv] and sh = shared_invD [OF threads_invD(1) [OF inv]]
  have p: "new_tail = tail_index (shared s)" "T mod 64 = 63" "block = chain s (T div 64)" "nxt = chain s (Suc (T div 64))" using i(3) [of t] pc by simp_all
  have "shared_inv ((shared s)\<lparr>tail_block := nxt\<rparr>) (chain s) H T" using i(1) p(2) by (simp add: shared_inv_def linked_def)
  moreover have "\<not> installing (pushing s u)" if "u \<noteq> t" for u using i(5) [of u t] pc that by auto
  moreover have "box_ok ((shared s)\<lparr>tail_block := nxt\<rparr>) (chain s) T (box_of (pushing s u))" for u using i(2) [of u] by (simp add: box_ok_def)
  ultimately have "threads_inv (s\<lparr>shared := (shared s)\<lparr>tail_block := nxt\<rparr>, chain := chain s, pushing := (pushing s)(t := P_Index new_tail block nxt), pushed := pushed s\<rparr>) H T"
    by (intro push_frame [OF inv]) (use p i(8) in \<open>simp_all add: box_ok_None\<close>)
  then show ?thesis unfolding pushing_same .
qed

lemma push_install_index:
  assumes inv: "threads_inv s H T" and bound: "T < 2 ^ 62" and pc: "pushing s t = P_Index new_tail block nxt"
  shows "threads_inv (s\<lparr>shared := (shared s)\<lparr>tail_index := new_tail + push_bit SHIFT 1\<rparr>, pushing := (pushing s)(t := P_Link block nxt)\<rparr>) H (Suc T)"
proof -
  note i = threads_invD [OF inv] and sh = shared_invD [OF threads_invD(1) [OF inv]]
  let ?q = "(shared s)\<lparr>tail_index := new_tail + push_bit SHIFT 1\<rparr>"
  have p: "new_tail = tail_index (shared s)" "T mod 64 = 63" "block = chain s (T div 64)" "nxt = chain s (Suc (T div 64))" "tail_block (shared s) = nxt"
    using i(3) [of t] pc by simp_all
  note l = laps_end [OF p(2)]
  have w: "pos (tail_index ?q) = Suc T" "even (unat (tail_index ?q))" using pos_step [of "tail_index (shared s)"] sh(2,3) bound p(1) by simp_all
  have lk: "linked ?q (chain s) (Suc T) L" if "L \<le> laps (Suc T)" for L using sh(9) [of L] that l by (auto simp: linked_def)
  have "shared_inv ?q (chain s) H (Suc T)" unfolding shared_inv_def using w sh(1,4,5,7,8) lk l p by auto
  moreover have "\<not> installing (pushing s u)" if "u \<noteq> t" for u using i(5) [of u t] pc that by auto
  moreover have "box_ok ?q (chain s) (Suc T) (box_of (pushing s u))" for u using i(2) [of u] l by (simp add: box_ok_def)
  moreover have "pushed s = map (slot_at (chain s)) (positions 0 (Suc T))" using i(8) p(2) by (simp add: positions_snoc)
  ultimately have "threads_inv (s\<lparr>shared := ?q, chain := chain s, pushing := (pushing s)(t := P_Link block nxt), pushed := pushed s\<rparr>) H (Suc T)"
    by (intro push_frame [OF inv]) (use p l in \<open>auto simp add: box_ok_None\<close>)
  then show ?thesis unfolding pushing_same .
qed

lemma push_set_link:
  assumes inv: "threads_inv s H T" and pc: "pushing s t = P_Link block nxt"
  obtains b where "blocks (shared s) block = Some b"
    "threads_inv (s\<lparr>shared := (shared s)\<lparr>blocks := (blocks (shared s))(block \<mapsto> b\<lparr>bnext := Some nxt\<rparr>)\<rparr>, pushing := (pushing s)(t := P_Won block c)\<rparr>) H T"
proof -
  note i = threads_invD [OF inv] and sh = shared_invD [OF threads_invD(1) [OF inv]]
  obtain L where L: "L < T div 64" "block = chain s L" "nxt = chain s (Suc L)" using i(3) [of t] pc by auto
  have Lt: "L \<le> laps T" using L(1) laps_ge(1) [of T] by simp
  obtain b where b: "blocks (shared s) block = Some b" using sh(9) [OF Lt] L(2) by (auto simp: linked_def)
  let ?q = "(shared s)\<lparr>blocks := (blocks (shared s))(block \<mapsto> b\<lparr>bnext := Some nxt\<rparr>)\<rparr>"
  have lk: "linked ?q (chain s) T K" if "K \<le> laps T" for K
  proof (cases "K = L")
    case True
    then show ?thesis using sh(9) [OF Lt] L by (auto simp: linked_def)
  next
    case False
    then have "chain s K \<noteq> block" using inj_onD [OF sh(8), of K L] that Lt L(2) by auto
    then show ?thesis using sh(9) [OF that] by (auto simp: linked_def)
  qed
  then have "shared_inv ?q (chain s) H T" using i(1) by (simp add: shared_inv_def)
  moreover have "box_ok ?q (chain s) T (box_of (pushing s u))" for u using i(2) [of u] L(2) Lt by (auto simp: box_ok_def)
  ultimately have "threads_inv (s\<lparr>shared := ?q, chain := chain s, pushing := (pushing s)(t := P_Won block c), pushed := pushed s\<rparr>) H T"
    by (intro push_frame [OF inv]) (use i(8) in \<open>simp_all add: box_ok_None\<close>)
  then show thesis using that b unfolding pushing_same by blast
qed

text \<open>Every step of a pusher is defined and keeps the invariant; the tail moves on by at most one position.\<close>

lemma push_tail_loaded:
  assumes inv: "threads_inv s H T" and pc: "pushing s t = P_Tail tail box"
  shows "\<exists>s'. push_step sp t s = Some s' \<and> threads_inv s' H T"
proof -
  note i = threads_invD [OF inv] and sh = shared_invD [OF threads_invD(1) [OF inv]]
  have tl: "pos tail \<le> T" "even (unat tail)" using i(3) [of t] pc by simp_all
  consider (over) "pos tail mod 64 = 63" | (last) "pos tail mod 64 = 62" "box = None"
    | (on) "pos tail mod 64 \<noteq> 63" "pos tail mod 64 = 62 \<longrightarrow> box \<noteq> None" by fastforce
  then show ?thesis
  proof cases
    case over
    then have "push_step sp t s = Some (s\<lparr>shared := shared s, pushing := (pushing s)(t := P_Start box)\<rparr>)" using pc by (simp add: push_step_def offset_end)
    then show ?thesis using push_local [OF inv, of "P_Start box" t] pc by simp
  next
    case last
    obtain p q where al: "block_alloc (shared s) = (p, q)" by fastforce
    have "push_step sp t s = Some (s\<lparr>shared := q, pushing := (pushing s)(t := P_Try tail (tail_block (shared s)) (Some p))\<rparr>)"
      using pc last al by (simp add: push_step_def offset_end offset_last)
    moreover have "pusher_inv (shared s) (chain s) T (P_Try tail (tail_block (shared s)) (Some p))" using tl last sh(6) by auto
    ultimately show ?thesis using push_alloc [OF inv al] by blast
  next
    case on
    then have "push_step sp t s = Some (s\<lparr>shared := shared s, pushing := (pushing s)(t := P_Try tail (tail_block (shared s)) box)\<rparr>)"
      using pc by (auto simp: push_step_def offset_end offset_last)
    moreover have "pusher_inv (shared s) (chain s) T (P_Try tail (tail_block (shared s)) box)" using tl on sh(6) by auto
    ultimately show ?thesis using push_local [OF inv, of "P_Try tail (tail_block (shared s)) box" t] pc by simp
  qed
qed

lemma push_attempt:
  assumes inv: "threads_inv s H T" and bound: "T < 2 ^ 62" and pc: "pushing s t = P_Try tail block box"
  shows "\<exists>s' T'. push_step sp t s = Some s' \<and> threads_inv s' H T' \<and> T' \<le> Suc T"
proof (cases "tail_index (shared s) = tail \<and> \<not> sp")
  case False
  then have "push_step sp t s = Some (s\<lparr>shared := shared s, pushing := (pushing s)(t := P_Tail (tail_index (shared s)) box)\<rparr>)" using pc by (auto simp: push_step_def)
  moreover have "pusher_inv (shared s) (chain s) T (P_Tail (tail_index (shared s)) box)" using shared_invD [OF threads_invD(1) [OF inv]] by simp
  ultimately show ?thesis using push_local [OF inv, of "P_Tail (tail_index (shared s)) box" t] pc by (intro exI [where x = T] exI conjI) auto
next
  case True
  note i = threads_invD [OF inv] and sh = shared_invD [OF threads_invD(1) [OF inv]]
  let ?q = "(shared s)\<lparr>tail_index := tail + push_bit SHIFT 1\<rparr>"
  have tl: "pos tail = T" using sh(2) True by simp
  then have b: "block = chain s (T div 64)" "T mod 64 \<noteq> 63" "T mod 64 = 62 \<longrightarrow> box \<noteq> None" using i(3) [of t] pc by auto
  then have sl: "(block, unat (offset_of tail)) = slot_at (chain s) T" by (simp add: slot_at_def offset_pos tl)
  show ?thesis
  proof (cases "T mod 64 = 62")
    case False
    then have "T mod 64 < 62" using b(2) mod_less_divisor [of 64 T] by linarith
    note push_within [OF inv bound this refl, of t block "offset_of tail"]
    moreover have "push_step sp t s = Some (s\<lparr>shared := ?q, pushing := (pushing s)(t := P_Won block (offset_of tail)), pushed := pushed s @ [slot_at (chain s) T]\<rparr>)"
      using pc True False tl sl by (simp add: push_step_def offset_last)
    ultimately show ?thesis using True by blast
  next
    case last: True
    then obtain nxt where nxt: "box = Some nxt" using b(3) by blast
    then have "box_of (pushing s t) = Some nxt" using pc by simp
    note push_last [OF inv bound last refl this]
    moreover have "push_step sp t s = Some (s\<lparr>shared := ?q, chain := (chain s)(Suc (T div 64) := nxt),
        pushing := (pushing s)(t := P_Block (tail_index ?q) block nxt), pushed := pushed s @ [slot_at (chain s) T]\<rparr>)"
      using pc True last tl sl nxt by (simp add: push_step_def offset_last lap_pos Let_def)
    ultimately show ?thesis using True b(1) by auto
  qed
qed

lemma push_preserves:
  assumes inv: "threads_inv s H T" and bound: "T < 2 ^ 62"
  shows "\<exists>s' T'. push_step sp t s = Some s' \<and> threads_inv s' H T' \<and> T' \<le> Suc T"
proof (cases "pushing s t")
  case P_Idle
  then show ?thesis using push_local [OF inv, of "P_Start None" t] by (intro exI [where x = T] exI conjI) (auto simp: push_step_def)
next
  case (P_Start box)
  then show ?thesis using push_local [OF inv, of "P_Tail (tail_index (shared s)) box" t] shared_invD [OF threads_invD(1) [OF inv]]
    by (intro exI [where x = T] exI conjI) (auto simp: push_step_def)
next
  case (P_Tail tail box)
  then show ?thesis using push_tail_loaded [OF inv P_Tail, of sp] by (auto intro: le_SucI)
next
  case (P_Try tail block box)
  then show ?thesis by (rule push_attempt [OF assms])
next
  case (P_Block new_tail block nxt)
  then show ?thesis using push_install_block [OF inv P_Block] by (intro exI [where x = T] exI conjI) (auto simp: push_step_def)
next
  case (P_Index new_tail block nxt)
  then show ?thesis using push_install_index [OF inv bound P_Index] by (intro exI [where x = "Suc T"] exI conjI) (auto simp: push_step_def)
next
  case (P_Link block nxt)
  obtain b where "blocks (shared s) block = Some b"
    "threads_inv (s\<lparr>shared := (shared s)\<lparr>blocks := (blocks (shared s))(block \<mapsto> b\<lparr>bnext := Some nxt\<rparr>)\<rparr>, pushing := (pushing s)(t := P_Won block (BLOCK_CAP - 1))\<rparr>) H T"
    by (rule push_set_link [OF inv P_Link])
  then show ?thesis using P_Link by (intro exI [where x = T] exI conjI) (auto simp: push_step_def Let_def)
next
  case (P_Won block c)
  then show ?thesis using push_local [OF inv, of P_Idle t] by (intro exI [where x = T] exI conjI) (auto simp: push_step_def)
qed

section \<open>Steps of stealing threads\<close>

lemma stealing_same: "s\<lparr>shared := q, stealing := ss, stolen := stolen s\<rparr> = s\<lparr>shared := q, stealing := ss\<rparr>"
  by (cases s) simp

lemma steal_frame:
  assumes inv: "threads_inv s H T" and sh: "shared_inv q (chain s) H' T"
    and same: "tail_index q = tail_index (shared s)" "tail_block q = tail_block (shared s)" "blocks q = blocks (shared s)" "next_block q = next_block (shared s)"
    and hd: "unat (head_index (shared s)) < unat (head_index q) \<or> head_index q = head_index (shared s) \<and> H' = H"
    and pc: "thief_inv q (chain s) H' T pc" "\<And>u. \<lbrakk>moving pc; u \<noteq> t\<rbrakk> \<Longrightarrow> \<not> moving (stealing s u)"
    and movers: "\<And>u. \<lbrakk>u \<noteq> t; moving (stealing s u)\<rbrakk> \<Longrightarrow> head_index q = head_index (shared s) \<and> head_block q = head_block (shared s) \<and> H' = H"
    and st: "st = map (slot_at (chain s)) (positions 0 H')"
  shows "threads_inv (s\<lparr>shared := q, stealing := (stealing s)(t := pc), stolen := st\<rparr>) H' T"
proof -
  note i = threads_invD [OF inv]
  have th: "thief_inv q (chain s) H' T (stealing s u)" if "u \<noteq> t" for u
    by (rule thief_stable_head [OF i(6) shared_invD(1) [OF i(1)] hd]) (use movers that in auto)
  have p: "pusher_inv q (chain s) T (pushing s u)" for u by (rule pusher_stable [OF i(3) order_refl refl]) (use same in auto)
  have b: "box_ok q (chain s) T (box_of (pushing s u))" for u using i(2) [of u] same by (simp add: box_ok_def)
  show ?thesis unfolding threads_inv_def
  proof (intro conjI allI impI)
    fix u v assume "moving (stealing (s\<lparr>shared := q, stealing := (stealing s)(t := pc), stolen := st\<rparr>) u)"
      "moving (stealing (s\<lparr>shared := q, stealing := (stealing s)(t := pc), stolen := st\<rparr>) v)"
    then show "u = v" using i(7) [of u v] pc(2) by (auto split: if_splits)
  qed (use sh pc(1) p b th st i(4,5,8) in auto)
qed

text \<open>Steps that only change what the thief knows.\<close>

lemma steal_local:
  assumes inv: "threads_inv s H T" and pc: "thief_inv (shared s) (chain s) H T pc" and m: "moving pc \<Longrightarrow> moving (stealing s t)"
  shows "threads_inv (s\<lparr>shared := shared s, stealing := (stealing s)(t := pc)\<rparr>) H T"
proof -
  note i = threads_invD [OF inv]
  have "threads_inv (s\<lparr>shared := shared s, stealing := (stealing s)(t := pc), stolen := stolen s\<rparr>) H T"
    by (rule steal_frame [OF inv i(1) refl refl refl refl _ pc _ _ i(9)]) (use i(7) m in auto)
  then show ?thesis unfolding stealing_same .
qed

lemma first_head_flag: "first_head lim head AND HAS_NEXT = 0 \<longleftrightarrow> even (unat head)"
  by (cases lim) (simp_all add: first_head_def has_next_even even_unat SHIFT_def push_bit_Suc)

lemma advance_words:
  assumes hd: "pos head = h" and tl: "pos tail = t" "even (unat tail)" and lt: "h < t" "t < 2 ^ 62"
    and hi: "h mod 64 \<noteq> 63" "odd (unat head) \<longrightarrow> h div 64 < t div 64" and l: "limit_ok lim"
  obtains nh adv where "advance lim head tail = (nh, adv)" "0 < unat adv" "h mod 64 + unat adv \<le> 63" "h + unat adv \<le> t"
    "pos nh = h + unat adv" "odd (unat nh) \<longrightarrow> h div 64 < t div 64"
proof (cases lim)
  case (Some l)
  then show thesis using assms by (elim batch_advance_words [of head h tail t l]) (auto simp: limit_ok_def advance_def intro!: that)
next
  case None
  let ?nh = "head + push_bit SHIFT 1"
  have m: "h mod 64 + 1 \<le> 63" using hi(1) mod_less_divisor [of 64 h] by linarith
  have n: "pos ?nh = Suc h" "even (unat ?nh) \<longleftrightarrow> even (unat head)" using pos_step [of head] hd lt by simp_all
  have lap: "h div 64 \<noteq> t div 64 \<Longrightarrow> h div 64 < t div 64" using div_le_mono [of h t 64] lt(1) by simp
  have a: "advance lim head tail = (if even (unat head) \<and> h div 64 \<noteq> t div 64 then ?nh OR HAS_NEXT else ?nh, 1)"
    using None n hd tl(1) by (simp add: advance_def first_head_def has_next_even lap_eq_pos Let_def)
  show thesis by (rule that [OF a]) (use m n lap hi(2) lt(1) pos_or [of ?nh] in \<open>auto split: if_splits\<close>)
qed

text \<open>Without a look at the tail nothing depends on it.\<close>

lemma advance_flagged: "odd (unat head) \<Longrightarrow> advance lim head tail = advance lim head tail'"
  using first_head_flag [of None head] by (cases lim) (auto simp: advance_def batch_advance_def has_next_even)

lemma steal_head_loaded:
  assumes inv: "threads_inv s H T" and bound: "T < 2 ^ 62" and pc: "stealing s t = S_Head lim' head"
  shows "\<exists>s'. steal_step sp lim t s = Some s' \<and> threads_inv s' H T"
proof -
  note i = threads_invD [OF inv] and sh = shared_invD [OF threads_invD(1) [OF inv]]
  have h: "limit_ok lim'" "unat head \<le> unat (head_index (shared s))" using i(6) [of t] pc by simp_all
  consider (over) "pos head mod 64 = 63" | (plain) "pos head mod 64 \<noteq> 63" "even (unat head)" | (flagged) "pos head mod 64 \<noteq> 63" "odd (unat head)" by blast
  then show ?thesis
  proof cases
    case over
    then have "steal_step sp lim t s = Some (s\<lparr>shared := shared s, stealing := (stealing s)(t := S_Start lim')\<rparr>)" using pc by (simp add: steal_step_def offset_end)
    then show ?thesis using steal_local [OF inv, of "S_Start lim'" t] h(1) by simp
  next
    case plain
    then have "steal_step sp lim t s = Some (s\<lparr>shared := shared s, stealing := (stealing s)(t := S_Tail lim' head (head_block (shared s)))\<rparr>)"
      using pc by (simp add: steal_step_def offset_end first_head_flag)
    then show ?thesis using steal_local [OF inv, of "S_Tail lim' head (head_block (shared s))" t] h plain sh(1,7) by auto
  next
    case flagged
    obtain nh adv where a: "advance lim' head 0 = (nh, adv)" by fastforce
    then have "steal_step sp lim t s = Some (s\<lparr>shared := shared s, stealing := (stealing s)(t := S_Try head (head_block (shared s)) nh adv)\<rparr>)"
      using pc flagged by (simp add: steal_step_def offset_end first_head_flag)
    moreover have "thief_inv (shared s) (chain s) H T (S_Try head (head_block (shared s)) nh adv)"
    proof (cases "head = head_index (shared s)")
      case True
      then have H: "pos head = H" "H div 64 < T div 64" using sh(1,5) flagged by auto
      then have lt: "H < T" using div_le_mono [of T H 64] by linarith
      have b: "advance lim' head (tail_index (shared s)) = (nh, adv)" using a advance_flagged [OF flagged(2)] by metis
      show ?thesis
        by (rule advance_words [of head H "tail_index (shared s)" T lim']) (use H sh lt bound flagged h True b in auto)
    qed (use flagged h in auto)
    ultimately show ?thesis using steal_local [OF inv, of "S_Try head (head_block (shared s)) nh adv" t] by simp
  qed
qed

lemma steal_tail_loaded:
  assumes inv: "threads_inv s H T" and bound: "T < 2 ^ 62" and pc: "stealing s t = S_Tail lim' head block"
  shows "\<exists>s'. steal_step sp lim t s = Some s' \<and> threads_inv s' H T"
proof (cases "pos head = T")
  case True
  then have "steal_step sp lim t s = Some (s\<lparr>shared := shared s, stealing := (stealing s)(t := S_Empty)\<rparr>)"
    using pc shared_invD(2) [OF threads_invD(1) [OF inv]] by (simp add: steal_step_def drop_bit_eq_pos)
  then show ?thesis using steal_local [OF inv, of S_Empty t] by simp
next
  case False
  note i = threads_invD [OF inv] and sh = shared_invD [OF threads_invD(1) [OF inv]]
  obtain nh adv where a: "advance lim' head (tail_index (shared s)) = (nh, adv)" by fastforce
  then have "steal_step sp lim t s = Some (s\<lparr>shared := shared s, stealing := (stealing s)(t := S_Try head block nh adv)\<rparr>)"
    using pc False sh(2) by (simp add: steal_step_def drop_bit_eq_pos)
  moreover have "thief_inv (shared s) (chain s) H T (S_Try head block nh adv)"
  proof (cases "head = head_index (shared s)")
    case True
    have th: "limit_ok lim'" "even (unat head)" "pos head mod 64 \<noteq> 63" "block = chain s (H div 64)" using i(6) [of t] pc True by auto
    have H: "pos head = H" "H < T" using sh(1,4) True False by auto
    show ?thesis
      by (rule advance_words [of head H "tail_index (shared s)" T lim']) (use H sh bound th True a in auto)
  qed (use i(6) [of t] pc in auto)
  ultimately show ?thesis using steal_local [OF inv, of "S_Try head block nh adv" t] by simp
qed

text \<open>A thief wins slots in the order in which they were pushed.\<close>

lemma positions_extend:
  assumes "H mod 64 + a \<le> 63"
  shows "map (slot_at ch) (positions 0 (H + a)) = map (slot_at ch) (positions 0 H) @ map (Pair (ch (H div 64))) [H mod 64..<H mod 64 + a]"
proof -
  have "positions 0 (H + a) = positions 0 H @ positions H (H + a)" by (simp add: positions_def upt_add_eq_append [of 0 H a])
  moreover have "positions H (H + a) = [H..<H + a]" using positions_split [OF assms order_refl] by (simp add: positions_def)
  moreover have "map (slot_at ch) [H..<H + a] = map (Pair (ch (H div 64))) [H mod 64..<H mod 64 + a]"
  proof (rule nth_equalityI)
    fix j assume "j < length (map (slot_at ch) [H..<H + a])"
    then have "j < a" by simp
    then show "map (slot_at ch) [H..<H + a] ! j = map (Pair (ch (H div 64))) [H mod 64..<H mod 64 + a] ! j"
      using same_lap [of H j] assms by (simp add: slot_at_def)
  qed simp
  ultimately show ?thesis by simp
qed

lemma steal_attempt:
  assumes inv: "threads_inv s H T" and bound: "T < 2 ^ 62" and pc: "stealing s t = S_Try head block new_head adv"
  shows "\<exists>s' H'. steal_step sp lim t s = Some s' \<and> threads_inv s' H' T"
proof (cases "head_index (shared s) = head \<and> \<not> sp")
  case False
  then have "steal_step sp lim t s = Some (s\<lparr>shared := shared s, stealing := (stealing s)(t := S_Retry)\<rparr>)" using pc by (auto simp: steal_step_def)
  then show ?thesis using steal_local [OF inv, of S_Retry t] by (intro exI [where x = H] exI conjI) auto
next
  case True
  note i = threads_invD [OF inv] and sh = shared_invD [OF threads_invD(1) [OF inv]]
  let ?a = "unat adv" and ?q = "(shared s)\<lparr>head_index := new_head\<rparr>"
  let ?pc = "if offset_of head + adv = BLOCK_CAP then S_Wait new_head block (offset_of head) adv else S_Won block (offset_of head) adv"
  have hd: "head = head_index (shared s)" using True by simp
  have th: "block = chain s (H div 64)" "0 < ?a" "H mod 64 + ?a \<le> 63" "H + ?a \<le> T" "pos new_head = H + ?a"
    "odd (unat new_head) \<longrightarrow> H div 64 < T div 64" and m: "pos head mod 64 \<noteq> 63"
    using i(6) [of t] hd unfolding pc by simp_all
  have H: "pos head = H" "H mod 64 \<noteq> 63" using sh(1) hd m by simp_all
  have lap: "(H + ?a) mod 64 = H mod 64 + ?a" "(H + ?a) div 64 = H div 64" using same_lap [of H ?a] th(3) by simp_all
  have o: "unat (offset_of head + adv) = H mod 64 + ?a" using th(3) H(1) by (simp add: unat_word_ariths offset_pos)
  then have e: "offset_of head + adv = BLOCK_CAP \<longleftrightarrow> (H + ?a) mod 64 = 63" using lap(1) by (simp add: word_unat_eq_iff BLOCK_CAP_def LAP_def)
  have st: "stolen s @ map (Pair block) [unat (offset_of head)..<unat (offset_of head + adv)] = map (slot_at (chain s)) (positions 0 (H + ?a))"
    unfolding positions_extend [OF th(3)] i(9) o using th(1) H(1) by (simp add: offset_pos)
  have nomove: "\<not> moving (stealing s u)" for u using moving_end [OF i(6) [of u]] H(2) by auto
  have "threads_inv (s\<lparr>shared := ?q, stealing := (stealing s)(t := ?pc),
      stolen := stolen s @ map (Pair block) [unat (offset_of head)..<unat (offset_of head + adv)]\<rparr>) (H + ?a) T"
  proof (rule steal_frame [OF inv _ _ _ _ _ _ _ _ _ st])
    show "shared_inv ?q (chain s) (H + ?a) T" using i(1) th lap H(2) by (auto simp: shared_inv_def linked_def)
    have "pos (head_index (shared s)) < pos new_head" using th(2,5) sh(1) by simp
    then show "unat (head_index (shared s)) < unat (head_index ?q) \<or> head_index ?q = head_index (shared s) \<and> H + ?a = H" by (simp add: pos_less)
    show "thief_inv ?q (chain s) (H + ?a) T ?pc" using e lap(2) th(1) by auto
  qed (use nomove in simp_all)
  moreover have "steal_step sp lim t s = Some (s\<lparr>shared := ?q, stealing := (stealing s)(t := ?pc),
      stolen := stolen s @ map (Pair block) [unat (offset_of head)..<unat (offset_of head + adv)]\<rparr>)"
    using pc True by (simp add: steal_step_def Let_def)
  ultimately show ?thesis by blast
qed

text \<open>The thief that took the last slot of a block moves the head to the next block.\<close>

lemma steal_wait_next:
  assumes inv: "threads_inv s H T" and pc: "stealing s t = S_Wait new_head block c adv"
  shows "\<exists>s'. steal_step sp lim t s = Some s' \<and> threads_inv s' H T"
proof -
  note i = threads_invD [OF inv] and sh = shared_invD [OF threads_invD(1) [OF inv]]
  have p: "new_head = head_index (shared s)" "H mod 64 = 63" "block = chain s (H div 64)" using i(6) [of t] pc by simp_all
  obtain b where b: "blocks (shared s) block = Some b" "\<And>x. bnext b = Some x \<Longrightarrow> H div 64 < T div 64 \<and> x = chain s (Suc (H div 64))"
    using sh(9) [OF laps_ge(2) [OF sh(4)]] p(3) by (auto simp: linked_def)
  show ?thesis
  proof (cases "bnext b")
    case None
    then show ?thesis using inv pc b(1) by (auto simp: steal_step_def)
  next
    case (Some x)
    then have "steal_step sp lim t s = Some (s\<lparr>shared := shared s, stealing := (stealing s)(t := S_Peek new_head block x c adv)\<rparr>)"
      using pc b(1) by (simp add: steal_step_def)
    then show ?thesis using steal_local [OF inv, of "S_Peek new_head block x c adv" t] p b(2) [OF Some] pc by simp
  qed
qed

lemma steal_peek_next:
  assumes inv: "threads_inv s H T" and bound: "T < 2 ^ 62" and pc: "stealing s t = S_Peek new_head block nxt c adv"
  shows "\<exists>s'. steal_step sp lim t s = Some s' \<and> threads_inv s' H T"
proof -
  note i = threads_invD [OF inv] and sh = shared_invD [OF threads_invD(1) [OF inv]]
  have p: "new_head = head_index (shared s)" "H mod 64 = 63" "H div 64 < T div 64" "nxt = chain s (Suc (H div 64))" using i(6) [of t] pc by simp_all
  have "Suc (H div 64) \<le> laps T" using p(3) laps_ge(1) [of T] by simp
  from sh(9) [OF this] obtain b where b: "blocks (shared s) nxt = Some b" "\<And>x. bnext b = Some x \<Longrightarrow> Suc (H div 64) < T div 64"
    using p(4) by (auto simp: linked_def)
  let ?n = "(new_head AND NOT HAS_NEXT) + push_bit SHIFT 1"
  let ?ni = "if bnext b \<noteq> None then ?n OR HAS_NEXT else ?n"
  have "pos ?n = Suc H" "even (unat ?n)" using pos_clear [of new_head] pos_step [of "new_head AND NOT HAS_NEXT"] p(1) sh(1,4) bound by simp_all
  then have n: "pos ?ni = Suc H" "odd (unat ?ni) \<longrightarrow> Suc (H div 64) < T div 64" using pos_or [of ?n] b(2) by auto
  have "steal_step sp lim t s = Some (s\<lparr>shared := shared s, stealing := (stealing s)(t := S_Set_Block ?ni block nxt c adv)\<rparr>)"
    using pc b(1) by (simp add: steal_step_def)
  then show ?thesis using steal_local [OF inv, of "S_Set_Block ?ni block nxt c adv" t] p n pc by simp
qed

lemma steal_set_block:
  assumes inv: "threads_inv s H T" and pc: "stealing s t = S_Set_Block next_index block nxt c adv"
  shows "threads_inv (s\<lparr>shared := (shared s)\<lparr>head_block := nxt\<rparr>, stealing := (stealing s)(t := S_Set_Index next_index block c adv)\<rparr>) H T"
proof -
  note i = threads_invD [OF inv]
  let ?q = "(shared s)\<lparr>head_block := nxt\<rparr>"
  have p: "thief_inv (shared s) (chain s) H T (S_Set_Block next_index block nxt c adv)" using i(6) [of t] pc by simp
  then have sh: "shared_inv ?q (chain s) H T" using i(1) by (simp add: shared_inv_def linked_def)
  have "\<not> moving (stealing s u)" if "u \<noteq> t" for u using i(7) [of u t] pc that by auto
  then have "threads_inv (s\<lparr>shared := ?q, stealing := (stealing s)(t := S_Set_Index next_index block c adv), stolen := stolen s\<rparr>) H T"
    by (intro steal_frame [OF inv sh _ _ _ _ _ _ _ _ i(9)]) (use p in simp_all)
  then show ?thesis unfolding stealing_same .
qed

lemma steal_set_index:
  assumes inv: "threads_inv s H T" and pc: "stealing s t = S_Set_Index next_index block c adv"
  shows "threads_inv (s\<lparr>shared := (shared s)\<lparr>head_index := next_index\<rparr>, stealing := (stealing s)(t := S_Won block c adv)\<rparr>) (Suc H) T"
proof -
  note i = threads_invD [OF inv] and sh = shared_invD [OF threads_invD(1) [OF inv]]
  let ?q = "(shared s)\<lparr>head_index := next_index\<rparr>"
  have p: "H mod 64 = 63" "H div 64 < T div 64" "head_block (shared s) = chain s (Suc (H div 64))" "pos next_index = Suc H"
    "odd (unat next_index) \<longrightarrow> Suc (H div 64) < T div 64" using i(6) [of t] pc by simp_all
  note l = laps_end [OF p(1)]
  have le: "Suc H \<le> T" using p(2) div_le_mono [of T H 64] by linarith
  have sq: "shared_inv ?q (chain s) (Suc H) T" using i(1) p le l by (auto simp: shared_inv_def linked_def)
  have st: "stolen s = map (slot_at (chain s)) (positions 0 (Suc H))" using i(9) p(1) by (simp add: positions_snoc)
  have "unat (head_index (shared s)) < unat next_index" using sh(1) p(4) by (intro pos_less) simp
  moreover have "\<not> moving (stealing s u)" if "u \<noteq> t" for u using i(7) [of u t] pc that by auto
  ultimately have "threads_inv (s\<lparr>shared := ?q, stealing := (stealing s)(t := S_Won block c adv), stolen := stolen s\<rparr>) (Suc H) T"
    by (intro steal_frame [OF inv sq _ _ _ _ _ _ _ _ st]) simp_all
  then show ?thesis unfolding stealing_same .
qed

lemma steal_preserves:
  assumes inv: "threads_inv s H T" and bound: "T < 2 ^ 62" and lim: "limit_ok lim"
  shows "\<exists>s' H'. steal_step sp lim t s = Some s' \<and> threads_inv s' H' T"
proof -
  have fresh: ?thesis if "steal_step sp lim t s = Some (s\<lparr>shared := shared s, stealing := (stealing s)(t := S_Start lim)\<rparr>)"
    using steal_local [OF inv, of "S_Start lim" t] lim that by (intro exI [where x = H] exI conjI) auto
  show ?thesis
  proof (cases "stealing s t")
    case (S_Start l)
    then show ?thesis using steal_local [OF inv, of "S_Head l (head_index (shared s))" t] threads_invD(6) [OF inv, of t]
      by (intro exI [where x = H] exI conjI) (auto simp: steal_step_def)
  next
    case (S_Head l head)
    then show ?thesis using steal_head_loaded [OF inv bound S_Head] by blast
  next
    case (S_Tail l head block)
    then show ?thesis using steal_tail_loaded [OF inv bound S_Tail] by blast
  next
    case (S_Try head block new_head adv)
    then show ?thesis by (rule steal_attempt [OF inv bound])
  next
    case (S_Wait new_head block c adv)
    then show ?thesis using steal_wait_next [OF inv S_Wait] by blast
  next
    case (S_Peek new_head block nxt c adv)
    then show ?thesis using steal_peek_next [OF inv bound S_Peek] by blast
  next
    case (S_Set_Block next_index block nxt c adv)
    then show ?thesis using steal_set_block [OF inv S_Set_Block] by (intro exI [where x = H] exI conjI) (auto simp: steal_step_def)
  next
    case (S_Set_Index next_index block c adv)
    then show ?thesis using steal_set_index [OF inv S_Set_Index] by (intro exI [where x = "Suc H"] exI conjI) (auto simp: steal_step_def)
  qed (use fresh in \<open>simp_all add: steal_step_def\<close>)
qed

section \<open>Reachable states\<close>

text \<open>The position of the tail is bounded by the number of slots that were pushed.\<close>

lemma positions_count: "length (positions 0 T) + T div 64 = T"
proof (induction T)
  case (Suc T)
  then show ?case by (auto simp: positions_snoc div_Suc mod_Suc)
qed (simp add: positions_def)

lemma pushed_grows: "threads_step s s' \<Longrightarrow> length (pushed s) \<le> length (pushed s')"
  by (induction rule: threads_step.induct)
    (auto simp: push_step_def steal_step_def Let_def split: push_pc.splits steal_pc.splits if_splits prod.splits option.splits bind_splits)

lemma limits_ok: "lim \<in> {None, Some MAX_BATCH, Some (MAX_BATCH + 1)} \<Longrightarrow> limit_ok lim"
  by (auto simp: limit_ok_def MAX_BATCH_def)

lemma tail_bound: "\<lbrakk>threads_inv s H T; length (pushed s) < 2 ^ 61\<rbrakk> \<Longrightarrow> T < 2 ^ 62"
  using positions_count [of T] div_mult_mod_eq [of T 64] threads_invD(8) [of s H T] by simp

lemma threads_step_inv:
  assumes "threads_step s s'" "threads_inv s H T" "T < 2 ^ 62"
  shows "\<exists>H' T'. threads_inv s' H' T'"
  using assms(1)
proof cases
  case (push sp t)
  then show ?thesis using push_preserves [OF assms(2,3), of sp t] by auto
next
  case (steal lim sp t)
  then show ?thesis using steal_preserves [OF assms(2,3) limits_ok, of lim sp t] by auto
qed

lemma threads_reachable_inv:
  assumes "threads_step\<^sup>*\<^sup>* threads_init s" "length (pushed s) < 2 ^ 61"
  obtains H T where "threads_inv s H T" "T < 2 ^ 62"
proof -
  have "\<exists>H T. threads_inv s H T" using assms
  proof (induction rule: rtranclp_induct)
    case base
    then show ?case using threads_init_inv by blast
  next
    case (step y z)
    have "length (pushed y) < 2 ^ 61" using pushed_grows [OF step(2)] step(4) by simp
    then show ?case using step(3) threads_step_inv [OF step(2)] tail_bound by blast
  qed
  then show thesis using that tail_bound [OF _ assms(2)] by blast
qed

lemma slots_distinct:
  assumes "inj_on ch {..laps T}"
  shows "distinct (map (slot_at ch) (positions 0 T))"
proof -
  have "inj_on (slot_at ch) (set (positions 0 T))"
  proof (rule inj_onI)
    fix x y assume m: "x \<in> set (positions 0 T)" "y \<in> set (positions 0 T)" "slot_at ch x = slot_at ch y"
    then have "x div 64 \<le> laps T" "y div 64 \<le> laps T" by (auto simp: positions_def intro!: laps_ge(2))
    then have "x div 64 = y div 64" using inj_onD [OF assms] m(3) by (simp add: slot_at_def)
    then show "x = y" using m(3) by (simp add: slot_at_def) (metis div_mult_mod_eq)
  qed
  then show ?thesis by (simp add: distinct_map) (simp add: positions_def)
qed

lemma positions_prefix:
  assumes "H \<le> T"
  shows "positions 0 T = positions 0 H @ positions H T"
proof -
  have "[0..<T] = [0..<H] @ [H..<T]" using upt_add_eq_append [of 0 H "T - H"] assms by simp
  then show ?thesis by (simp add: positions_def)
qed

lemma empty_seen:
  assumes inv: "threads_inv s H T" and st: "steal_step sp lim t s = Some s'" "stealing s' t = S_Empty"
  shows "H = T"
proof -
  note i = threads_invD [OF inv] and sh = shared_invD [OF threads_invD(1) [OF inv]]
  obtain l head block where pc: "stealing s t = S_Tail l head block" "pos head = T"
    using st sh(2) by (auto simp: steal_step_def Let_def drop_bit_eq_pos split: steal_pc.splits if_splits prod.splits option.splits bind_splits)
  have "pos head \<le> H" using i(6) [of t] pc(1) sh(1) by (auto simp: pos_def intro: div_le_mono)
  then show ?thesis using pc(2) sh(4) by simp
qed

lemma threads_fifo:
  assumes "threads_step\<^sup>*\<^sup>* threads_init s" "length (pushed s) < 2 ^ 61"
  shows "prefix (stolen s) (pushed s)" "distinct (pushed s)" "\<forall>(p, c) \<in> set (pushed s). blocks (shared s) p \<noteq> None \<and> c < 63"
    "push_step sp t s \<noteq> None"
    "lim \<in> {None, Some MAX_BATCH, Some (MAX_BATCH + 1)} \<Longrightarrow> steal_step sp lim t s \<noteq> None"
    "\<lbrakk>steal_step sp lim t s = Some s'; stealing s' t = S_Empty\<rbrakk> \<Longrightarrow> stolen s = pushed s"
proof -
  obtain H T where inv: "threads_inv s H T" and bound: "T < 2 ^ 62" by (rule threads_reachable_inv [OF assms])
  note i = threads_invD [OF inv] and sh = shared_invD [OF threads_invD(1) [OF inv]]
  show "prefix (stolen s) (pushed s)" using i(8,9) positions_prefix [OF sh(4)] by simp
  show "distinct (pushed s)" using i(8) slots_distinct [OF sh(8)] by simp
  have "blocks (shared s) (chain s (p div 64)) \<noteq> None" if "p < T" for p
    using sh(9) [OF laps_ge(2), of p] that by (auto simp: linked_def)
  moreover have "p mod 64 < 63" if "p mod 64 \<noteq> 63" for p :: nat using that mod_less_divisor [of 64 p] by linarith
  ultimately show "\<forall>(p, c) \<in> set (pushed s). blocks (shared s) p \<noteq> None \<and> c < 63" using i(8) by (auto simp: positions_def slot_at_def)
  show "push_step sp t s \<noteq> None" using push_preserves [OF inv bound, of sp t] by auto
  show "steal_step sp lim t s \<noteq> None" if "lim \<in> {None, Some MAX_BATCH, Some (MAX_BATCH + 1)}"
    using steal_preserves [OF inv bound limits_ok [OF that], of sp t] by auto
  show "stolen s = pushed s" if "steal_step sp lim t s = Some s'" "stealing s' t = S_Empty"
    using empty_seen [OF inv that] i(8,9) by simp
qed

text \<open>
  C2: under every interleaving of pushers and thieves that share an injector, with fewer than \<open>2 ^ 61\<close> tasks pushed, no step
  touches a block that is not there or unwraps a missing block; every slot is won by one pusher only, lies in its block, and the
  slots that thieves won, taken in that order, are exactly the first slots that were pushed: no task is lost, taken twice or
  overtaken. A thief that reports an empty injector looked at the tail at a moment when every pushed slot had been won.
\<close>

theorem injector_threads_fifo:
  assumes "threads_step\<^sup>*\<^sup>* threads_init s" "length (pushed s) < 2 ^ 61"
  shows "prefix (stolen s) (pushed s) \<and> distinct (pushed s) \<and> (\<forall>(p, c) \<in> set (pushed s). blocks (shared s) p \<noteq> None \<and> c < 63)
    \<and> (\<forall>sp t. push_step sp t s \<noteq> None)
    \<and> (\<forall>lim sp t. lim \<in> {None, Some MAX_BATCH, Some (MAX_BATCH + 1)} \<longrightarrow> steal_step sp lim t s \<noteq> None)
    \<and> (\<forall>lim sp t s'. steal_step sp lim t s = Some s' \<and> stealing s' t = S_Empty \<longrightarrow> stolen s = pushed s)"
  using threads_fifo [OF assms] by blast

text \<open>Two pushers and two thieves: both pushers try for the first slot, and a thief takes it while the other one still looks.\<close>

definition two_and_two :: "choice list" where
  "two_and_two = replicate 3 (Pusher False 0) @ replicate 3 (Pusher False 1) @ [Thief False None 7, Thief False None 7, Pusher False 0, Pusher False 1]
     @ replicate 2 (Pusher False 1) @ replicate 5 (Thief False (Some MAX_BATCH) 8) @ [Thief False None 7, Thief False None 7]"

lemma two_and_two_run: "map_option (\<lambda>s. (pushed s, stolen s)) (run_threads two_and_two (threads_init :: nat threads)) = Some ([(0, 0), (0, 1)], [(0, 0)])"
  by code_simp

theorem injector_threads_fifo_witness:
  "\<exists>s :: nat threads. pushed s = [(0, 0), (0, 1)] \<and> stolen s = [(0, 0)] \<and> prefix (stolen s) (pushed s) \<and> distinct (pushed s)
     \<and> push_step False 0 s \<noteq> None \<and> steal_step False None 7 s \<noteq> None"
proof -
  obtain s :: "nat threads" where s: "run_threads two_and_two threads_init = Some s" "pushed s = [(0, 0), (0, 1)]" "stolen s = [(0, 0)]"
    using two_and_two_run by auto
  have "length (pushed s) < 2 ^ 61" using s(2) by simp
  note run = run_threads_reach [OF s(1)] this
  have "prefix (stolen s) (pushed s)" "distinct (pushed s)" "\<forall>sp t. push_step sp t s \<noteq> None"
    "\<forall>lim sp t. lim \<in> {None, Some MAX_BATCH, Some (MAX_BATCH + 1)} \<longrightarrow> steal_step sp lim t s \<noteq> None"
    using injector_threads_fifo [OF run] by - (elim conjE, assumption)+
  then show ?thesis using s(2,3) by (intro exI [of _ s]) simp
qed

end
