(* ===== verification/Injector_Progress.thy ===== *)
theory Injector_Progress
  imports Injector_Threads Block_Protocol
begin

text \<open>
  No thread of the injector waits in vain: \<^verbatim>\<open>push\<close> and \<^verbatim>\<open>steal\<close> spin at the end of a block,
  \<^verbatim>\<open>Block::wait_next\<close> spins for the link to the next block and \<^verbatim>\<open>Slot::wait_write\<close> for the task of a slot. In every reachable state the
  thread that will end the wait is there and needs only a few steps of its own.
\<close>

section \<open>Who ends a wait\<close>

definition link_set :: "'a threads \<Rightarrow> nat \<Rightarrow> bool" where
  "link_set s p \<longleftrightarrow> (\<exists>b x. blocks (shared s) p = Some b \<and> bnext b = Some x)"

definition tail_served :: "'a threads \<Rightarrow> bool" where
  "tail_served s \<longleftrightarrow> (pos (tail_index (shared s)) mod 64 = 63 \<longrightarrow> (\<exists>u. installing (pushing s u)))"

definition head_served :: "'a threads \<Rightarrow> bool" where
  "head_served s \<longleftrightarrow> (pos (head_index (shared s)) mod 64 = 63 \<longrightarrow> (\<exists>u. moving (stealing s u)))"

definition links_served :: "'a threads \<Rightarrow> bool" where
  "links_served s \<longleftrightarrow> (\<forall>L < pos (tail_index (shared s)) div 64.
     link_set s (chain s L) \<or> (\<exists>u. pushing s u = P_Link (chain s L) (chain s (Suc L))))"

section \<open>Steps of thieves\<close>

lemma steal_keeps:
  assumes "steal_step sp lim t s = Some s'"
  shows "pushing s' = pushing s" "chain s' = chain s" "tail_index (shared s') = tail_index (shared s)" "blocks (shared s') = blocks (shared s)"
    "u \<noteq> t \<Longrightarrow> stealing s' u = stealing s u"
  using assms by (auto simp: steal_step_def Let_def split: steal_pc.splits if_splits prod.splits option.splits bind_splits)

lemma steal_served:
  assumes "steal_step sp lim t s = Some s'" "tail_served s" "links_served s"
  shows "tail_served s'" "links_served s'"
  using assms(2,3) steal_keeps [OF assms(1)] by (simp_all add: tail_served_def links_served_def link_set_def)

lemma steal_moving:
  assumes "moving (stealing s t)" "steal_step sp lim t s = Some s'"
  shows "moving (stealing s' t) \<or> (\<exists>i b c a. stealing s t = S_Set_Index i b c a)"
  using assms by (cases "stealing s t") (auto simp: steal_step_def Let_def split: option.splits bind_splits)

lemma steal_head_served:
  assumes inv: "threads_inv s H T" and st: "steal_step sp lim t s = Some s'" and hs: "head_served s"
  shows "head_served s'"
  unfolding head_served_def
proof
  note i = threads_invD [OF inv] and sh = shared_invD [OF threads_invD(1) [OF inv]]
  assume e: "pos (head_index (shared s')) mod 64 = 63"
  show "\<exists>u. moving (stealing s' u)"
  proof (cases "head_index (shared s') = head_index (shared s)")
    case True
    then obtain u where u: "moving (stealing s u)" using hs e by (auto simp: head_served_def)
    show ?thesis
    proof (cases "u = t")
      case False
      then show ?thesis using u steal_keeps(5) [OF st] by metis
    next
      case self: True
      have "stealing s t \<noteq> S_Set_Index ni b c a" for ni b c a
      proof
        assume pc: "stealing s t = S_Set_Index ni b c a"
        then have "pos ni = Suc H" "head_index (shared s') = ni" using i(6) [of t] st by (auto simp: steal_step_def)
        then show False using True sh(1) by simp
      qed
      then show ?thesis using steal_moving [of s t sp lim s'] u st self by blast
    qed
  next
    case False
    then consider (won) head block nh adv where "stealing s t = S_Try head block nh adv" | (index) ni b c a where "stealing s t = S_Set_Index ni b c a"
      using st by (auto simp: steal_step_def Let_def split: steal_pc.splits if_splits prod.splits option.splits bind_splits)
    then show ?thesis
    proof cases
      case won
      then have w: "head_index (shared s) = head" "\<not> sp" "s' = s\<lparr>stolen := stolen s @ map (Pair block) [unat (offset_of head)..<unat (offset_of head + adv)],
          shared := (shared s)\<lparr>head_index := nh\<rparr>,
          stealing := (stealing s)(t := if offset_of head + adv = BLOCK_CAP then S_Wait nh block (offset_of head) adv else S_Won block (offset_of head) adv)\<rparr>"
        using st False by (auto simp: steal_step_def Let_def split: if_splits)
      have th: "H mod 64 + unat adv \<le> 63" "pos nh = H + unat adv" using i(6) [of t] w(1) unfolding won by simp_all
      have "pos nh mod 64 = 63" using e w(3) by simp
      then have "unat (offset_of head + adv) = 63" using th same_lap [of H "unat adv"] sh(1) w(1) by (simp add: unat_word_ariths offset_pos)
      then have "offset_of head + adv = BLOCK_CAP" by (simp add: word_unat_eq_iff BLOCK_CAP_def LAP_def)
      then have "moving (stealing s' t)" using w(3) by simp
      then show ?thesis by blast
    next
      case index
      then have "pos ni = Suc H" "H mod 64 = 63" "head_index (shared s') = ni" using i(6) [of t] st by (auto simp: steal_step_def)
      then show ?thesis using e laps_end [of H] by simp
    qed
  qed
qed

section \<open>Steps of pushers\<close>

lemma push_keeps:
  assumes "push_step sp t s = Some s'"
  shows "stealing s' = stealing s" "head_index (shared s') = head_index (shared s)" "u \<noteq> t \<Longrightarrow> pushing s' u = pushing s u"
  using assms by (auto simp: push_step_def block_alloc_def Let_def split: push_pc.splits if_splits prod.splits option.splits bind_splits)

lemma push_head_served: "\<lbrakk>push_step sp t s = Some s'; head_served s\<rbrakk> \<Longrightarrow> head_served s'"
  using push_keeps(1,2) [of sp t s s'] by (simp add: head_served_def)

lemma push_tail_served:
  assumes inv: "threads_inv s H T" and bound: "T < 2 ^ 62" and st: "push_step sp t s = Some s'" and ts: "tail_served s"
  shows "tail_served s'"
  unfolding tail_served_def
proof
  note i = threads_invD [OF inv] and sh = shared_invD [OF threads_invD(1) [OF inv]]
  assume e: "pos (tail_index (shared s')) mod 64 = 63"
  have old: "\<exists>u. installing (pushing s' u)" if e0: "pos (tail_index (shared s)) mod 64 = 63" and ni: "\<And>a b c. pushing s t \<noteq> P_Index a b c"
  proof -
    obtain u where u: "installing (pushing s u)" using ts e0 by (auto simp: tail_served_def)
    show ?thesis
    proof (cases "u = t")
      case True
      then show ?thesis using u ni st by (intro exI [of _ t]) (cases "pushing s t"; auto simp: push_step_def)
    next
      case False
      then show ?thesis using u push_keeps(3) [OF st False] by metis
    qed
  qed
  show "\<exists>u. installing (pushing s' u)"
  proof (cases "pushing s t")
    case (P_Index nt block nxt)
    then have "pos (tail_index (shared s')) = Suc T" "T mod 64 = 63" using i(3) [of t] sh(2) st pos_step [of nt] bound by (auto simp: push_step_def)
    then show ?thesis using e laps_end [of T] by simp
  next
    case (P_Try tail block box)
    show ?thesis
    proof (cases "tail_index (shared s) = tail \<and> \<not> sp")
      case True
      then have T: "pos tail = T" using sh(2) by simp
      have ti: "tail_index (shared s') = tail + push_bit SHIFT 1"
        using st True P_Try by (auto simp: push_step_def Let_def split: if_splits bind_splits)
      then have "Suc T mod 64 = 63" using e pos_step [of tail] T bound by simp
      then have "T mod 64 = 62" by (simp add: mod_Suc split: if_splits)
      then have "installing (pushing s' t)" using st True P_Try T by (auto simp: push_step_def offset_last Let_def split: bind_splits)
      then show ?thesis by blast
    next
      case False
      then show ?thesis using old e st P_Try by (auto simp: push_step_def split: if_splits)
    qed
  qed (use old e st in \<open>auto simp: push_step_def block_alloc_def Let_def split: if_splits bind_splits\<close>)
qed

lemma push_blocks:
  assumes inv: "threads_inv s H T" and st: "push_step sp t s = Some s'" and L: "L \<le> laps T" "link_set s (chain s L)"
  shows "link_set s' (chain s L)"
proof -
  have lt: "chain s L < next_block (shared s)" using shared_invD(9) [OF threads_invD(1) [OF inv] L(1)] by (simp add: linked_def)
  show ?thesis
    using st L(2) lt by (auto simp: push_step_def link_set_def block_alloc_def Let_def split: push_pc.splits if_splits bind_splits)
qed

lemma push_chain:
  assumes inv: "threads_inv s H T" and st: "push_step sp t s = Some s'" and L: "L \<le> laps T"
  shows "chain s' L = chain s L"
proof -
  note i = threads_invD [OF inv] and sh = shared_invD [OF threads_invD(1) [OF inv]]
  have "chain s' = chain s \<or> T mod 64 = 62 \<and> (\<exists>nxt. chain s' = (chain s)(Suc (T div 64) := nxt))"
    using st sh(2) by (auto simp: push_step_def block_alloc_def offset_last lap_pos Let_def split: push_pc.splits if_splits bind_splits)
  then show ?thesis using laps_last [of T] L by auto
qed

lemma push_links_served:
  assumes inv: "threads_inv s H T" and bound: "T < 2 ^ 62" and st: "push_step sp t s = Some s'" and ls: "links_served s"
  shows "links_served s'"
  unfolding links_served_def
proof (intro allI impI)
  note i = threads_invD [OF inv] and sh = shared_invD [OF threads_invD(1) [OF inv]]
  fix L assume "L < pos (tail_index (shared s')) div 64"
  moreover have "pos (tail_index (shared s')) div 64 = T div 64 \<or> T mod 64 = 63 \<and> pos (tail_index (shared s')) div 64 = Suc (T div 64)
      \<and> (\<exists>nt block nxt. pushing s t = P_Index nt block nxt)"
  proof (cases "pushing s t")
    case (P_Try tail block box)
    have "T mod 64 \<noteq> 63" if "tail_index (shared s) = tail" using i(3) [of t] P_Try that sh(2) by auto
    then have "Suc T div 64 = T div 64" if "tail_index (shared s) = tail" using that by (simp add: div_Suc mod_Suc)
    then show ?thesis using P_Try st sh(2) pos_step [of tail] bound by (auto simp: push_step_def Let_def split: if_splits bind_splits)
  next
    case (P_Index nt block nxt)
    then show ?thesis using i(3) [of t] st sh(2) pos_step [of nt] bound laps_end [of T] by (auto simp: push_step_def)
  qed (use st sh(2) in \<open>auto simp: push_step_def block_alloc_def Let_def split: if_splits bind_splits\<close>)
  ultimately consider (old) "L < T div 64" | (new) nt block nxt where "L = T div 64" "T mod 64 = 63" "pushing s t = P_Index nt block nxt" by fastforce
  then show "link_set s' (chain s' L) \<or> (\<exists>u. pushing s' u = P_Link (chain s' L) (chain s' (Suc L)))"
  proof cases
    case old
    then have L: "L \<le> laps T" "Suc L \<le> laps T" using laps_ge(1) [of T] by simp_all
    note ch = push_chain [OF inv st L(1)] push_chain [OF inv st L(2)]
    from ls old sh(2) consider "link_set s (chain s L)" | (u) u where "pushing s u = P_Link (chain s L) (chain s (Suc L))"
      by (auto simp: links_served_def)
    then show ?thesis
    proof cases
      case 1
      then show ?thesis using push_blocks [OF inv st L(1)] ch by simp
    next
      case u
      show ?thesis
      proof (cases "u = t")
        case True
        then have "link_set s' (chain s L)" using u st by (auto simp: push_step_def link_set_def Let_def split: bind_splits)
        then show ?thesis using ch by simp
      next
        case False
        then show ?thesis using u push_keeps(3) [OF st False] ch by metis
      qed
    qed
  next
    case new
    have "block = chain s L" "nxt = chain s (Suc L)" using i(3) [of t] new by simp_all
    moreover have "pushing s' t = P_Link block nxt" "chain s' = chain s" using st new(3) by (auto simp: push_step_def)
    ultimately show ?thesis by metis
  qed
qed

section \<open>Reachable states\<close>

definition served :: "'a threads \<Rightarrow> bool" where
  "served s \<longleftrightarrow> tail_served s \<and> head_served s \<and> links_served s"

lemma served_init: "served threads_init"
  by (simp add: served_def tail_served_def head_served_def links_served_def threads_init_def injector_new_def pos_def)

lemma served_step:
  assumes "threads_step s s'" "threads_inv s H T" "T < 2 ^ 62" "served s"
  shows "served s'"
  using assms(1)
proof cases
  case (push sp t)
  then show ?thesis using assms(4) push_head_served push_tail_served [OF assms(2,3)] push_links_served [OF assms(2,3)] unfolding served_def by blast
next
  case (steal lim sp t)
  then show ?thesis using assms(4) steal_served steal_head_served [OF assms(2)] unfolding served_def by blast
qed

lemma reachable_served:
  assumes "threads_step\<^sup>*\<^sup>* threads_init s" "length (pushed s) < 2 ^ 61"
  shows "served s"
  using assms
proof (induction rule: rtranclp_induct)
  case base
  show ?case by (rule served_init)
next
  case (step y z)
  have y: "length (pushed y) < 2 ^ 61" using pushed_grows [OF step(2)] step(4) by simp
  obtain H T where "threads_inv y H T" "T < 2 ^ 62" by (rule threads_reachable_inv [OF step(1) y])
  then show ?case using served_step [OF step(2)] step(3) y by blast
qed

section \<open>The steps that end a wait\<close>

lemma installs_tail:
  assumes inv: "threads_inv s H T" and bound: "T < 2 ^ 62" and u: "installing (pushing s u)"
  shows "\<exists>n s'. n \<le> 2 \<and> run_threads (replicate n (Pusher False u)) s = Some s' \<and> pos (tail_index (shared s')) = Suc T"
proof (cases "pushing s u")
  case (P_Block nt block nxt)
  then have "pos (nt + push_bit SHIFT 1) = Suc T" using threads_invD(3) [OF inv, of u] shared_invD(2) [OF threads_invD(1) [OF inv]] pos_step [of nt] bound by simp
  then show ?thesis using P_Block by (intro exI [of _ 2]) (auto simp: push_step_def numeral_2_eq_2)
next
  case (P_Index nt block nxt)
  then have "pos (nt + push_bit SHIFT 1) = Suc T" using threads_invD(3) [OF inv, of u] shared_invD(2) [OF threads_invD(1) [OF inv]] pos_step [of nt] bound by simp
  then show ?thesis using P_Index by (intro exI [of _ 1]) (auto simp: push_step_def)
qed (use u in simp_all)

text \<open>The pushers that will set the link of a block.\<close>

fun linking :: "nat \<Rightarrow> push_pc \<Rightarrow> bool" where
  "linking p (P_Block _ block _) \<longleftrightarrow> block = p"
| "linking p (P_Index _ block _) \<longleftrightarrow> block = p"
| "linking p (P_Link block _) \<longleftrightarrow> block = p"
| "linking p _ \<longleftrightarrow> False"

lemma installs_link:
  assumes u: "linking p (pushing s u)" and b: "blocks (shared s) p \<noteq> None"
  shows "\<exists>n s'. n \<le> 3 \<and> run_threads (replicate n (Pusher False u)) s = Some s' \<and> link_set s' p
    \<and> stealing s' = stealing s \<and> head_index (shared s') = head_index (shared s) \<and> pushed s' = pushed s"
proof (cases "pushing s u")
  case (P_Block nt block nxt)
  then show ?thesis using u b by (intro exI [of _ 3]) (auto simp: push_step_def numeral_3_eq_3 link_set_def Let_def)
next
  case (P_Index nt block nxt)
  then show ?thesis using u b by (intro exI [of _ 2]) (auto simp: push_step_def numeral_2_eq_2 link_set_def Let_def)
next
  case (P_Link block nxt)
  then show ?thesis using u b by (intro exI [of _ 1]) (auto simp: push_step_def link_set_def Let_def)
qed (use u in simp_all)

lemma link_pending:
  assumes inv: "threads_inv s H T" and sv: "served s" and t: "stealing s t = S_Wait nh block c a" and no: "\<not> link_set s block"
  shows "\<exists>u. linking block (pushing s u)"
proof -
  note i = threads_invD [OF inv] and sh = shared_invD [OF threads_invD(1) [OF inv]]
  have p: "H mod 64 = 63" "block = chain s (H div 64)" using i(6) [of t] t by simp_all
  show ?thesis
  proof (cases "H div 64 < T div 64")
    case True
    then obtain u where "pushing s u = P_Link (chain s (H div 64)) (chain s (Suc (H div 64)))"
      using sv no sh(2) p(2) unfolding served_def links_served_def by blast
    then show ?thesis using p(2) by (intro exI [of _ u]) simp
  next
    case False
    then have "H div 64 = T div 64" using div_le_mono [OF sh(4), of 64] by simp
    moreover from this have "T mod 64 = 63"
      using p(1) sh(4) div_mult_mod_eq [of T 64] div_mult_mod_eq [of H 64] mod_less_divisor [of 64 T] by linarith
    moreover from this obtain u where "installing (pushing s u)" using sv sh(2) unfolding served_def tail_served_def by blast
    ultimately have "linking block (pushing s u)" using i(3) [of u] p(2) by (cases "pushing s u") auto
    then show ?thesis by blast
  qed
qed

text \<open>A thief that moves the head needs at most four steps once the link is set.\<close>

definition head_moves :: "nat \<Rightarrow> nat \<Rightarrow> nat \<Rightarrow> 'a threads \<Rightarrow> bool" where
  "head_moves H m v s \<longleftrightarrow> (\<exists>n s'. n \<le> m \<and> run_threads (replicate n (Thief False None v)) s = Some s' \<and> pos (head_index (shared s')) = Suc H)"

lemma head_moves_step: "\<lbrakk>steal_step False None v s = Some s'; head_moves H m v s'\<rbrakk> \<Longrightarrow> head_moves H (Suc m) v s"
  unfolding head_moves_def by (metis Suc_le_mono bind.bind_lunit insertI1 replicate_Suc run_threads.simps(3))

lemma mover_index:
  assumes "threads_inv s H T" "stealing s v = S_Set_Index ni b c a"
  shows "head_moves H 1 v s"
  using threads_invD(6) [OF assms(1), of v] assms(2) unfolding head_moves_def by (intro exI [of _ 1]) (auto simp: steal_step_def)

lemma mover_block:
  assumes "threads_inv s H T" "stealing s v = S_Set_Block ni b n c a"
  shows "head_moves H 2 v s"
proof -
  have "head_moves H (Suc 1) v s"
    by (rule head_moves_step [OF _ mover_index [OF steal_set_block [OF assms]]]) (use assms(2) in \<open>auto simp: steal_step_def\<close>)
  then show ?thesis by (simp add: numeral_2_eq_2)
qed

lemma mover_peek:
  assumes "threads_inv s H T" "T < 2 ^ 62" "stealing s v = S_Peek nh b n c a"
  shows "head_moves H 3 v s"
proof -
  obtain s' where s': "steal_step False None v s = Some s'" "threads_inv s' H T" using steal_peek_next [OF assms] by blast
  then obtain ni where "stealing s' v = S_Set_Block ni b n c a" using assms(3) by (auto simp: steal_step_def Let_def split: bind_splits)
  then have "head_moves H (Suc 2) v s" by (rule head_moves_step [OF s'(1) mover_block [OF s'(2)]])
  then show ?thesis by (simp add: numeral_3_eq_3)
qed

lemma mover_wait:
  assumes "threads_inv s H T" "T < 2 ^ 62" "stealing s v = S_Wait nh b c a" "link_set s b"
  shows "head_moves H 4 v s"
proof -
  obtain s' where s': "steal_step False None v s = Some s'" "threads_inv s' H T" using steal_wait_next [OF assms(1,3)] by blast
  then obtain n where "stealing s' v = S_Peek nh b n c a" using assms(3,4) by (auto simp: steal_step_def link_set_def)
  then have "head_moves H (Suc 3) v s" by (rule head_moves_step [OF s'(1) mover_peek [OF s'(2) assms(2)]])
  then show ?thesis by (simp add: numeral_eq_Suc)
qed

lemma run_threads_append: "run_threads (as @ bs) s = do { s \<leftarrow> run_threads as s; run_threads bs s }"
proof (induction as s rule: run_threads.induct)
  case (2 sp t cs s)
  then show ?case by (cases "push_step sp t s") auto
next
  case (3 sp lim t cs s)
  then show ?case by (cases "steal_step sp lim t s") auto
qed simp

lemma mover_ends:
  assumes reach: "threads_step\<^sup>*\<^sup>* threads_init s" "length (pushed s) < 2 ^ 61" and inv: "threads_inv s H T" "T < 2 ^ 62" and v: "moving (stealing s v)"
  shows "\<exists>u n m s'. n \<le> 3 \<and> m \<le> 4 \<and> run_threads (replicate n (Pusher False u) @ replicate m (Thief False None v)) s = Some s'
    \<and> pos (head_index (shared s')) = Suc H"
proof -
  have now: ?thesis if hm: "head_moves H m v s" "m \<le> 4" for m
  proof -
    obtain k s' where "k \<le> 4" "run_threads (replicate k (Thief False None v)) s = Some s'" "pos (head_index (shared s')) = Suc H"
      using hm unfolding head_moves_def by (meson le_trans)
    then show ?thesis by (intro exI [of _ 0] exI [of _ k]) simp
  qed
  show ?thesis
  proof (cases "stealing s v")
    case (S_Wait nh b c a)
    show ?thesis
    proof (cases "link_set s b")
      case True
      then show ?thesis using now [of 4] mover_wait [OF inv S_Wait] by simp
    next
      case False
      then obtain u where u: "linking b (pushing s u)" using link_pending [OF inv(1) reachable_served [OF reach] S_Wait] by blast
      have "blocks (shared s) b \<noteq> None" using shared_invD(9) [OF threads_invD(1) [OF inv(1)] laps_ge(2), of H]
        shared_invD(4) [OF threads_invD(1) [OF inv(1)]] threads_invD(6) [OF inv(1), of v] S_Wait by (auto simp: linked_def)
      from installs_link [OF u this] obtain n s1 where s1: "n \<le> 3" "run_threads (replicate n (Pusher False u)) s = Some s1" "link_set s1 b"
        "stealing s1 = stealing s" "head_index (shared s1) = head_index (shared s)" "pushed s1 = pushed s" by blast
      have r: "threads_step\<^sup>*\<^sup>* threads_init s1" "length (pushed s1) < 2 ^ 61" using reach run_threads_reach [OF s1(2)] s1(6) by simp_all
      obtain H1 T1 where i1: "threads_inv s1 H1 T1" "T1 < 2 ^ 62" by (rule threads_reachable_inv [OF r])
      have "H1 = H" using shared_invD(1) [OF threads_invD(1) [OF i1(1)]] shared_invD(1) [OF threads_invD(1) [OF inv(1)]] s1(5) by simp
      moreover have "head_moves H1 4 v s1" using mover_wait [OF i1, of v] s1(3,4) S_Wait by simp
      ultimately obtain m s2 where "m \<le> 4" "run_threads (replicate m (Thief False None v)) s1 = Some s2" "pos (head_index (shared s2)) = Suc H"
        unfolding head_moves_def by blast
      then have "run_threads (replicate n (Pusher False u) @ replicate m (Thief False None v)) s = Some s2" using s1(2) by (simp add: run_threads_append)
      then show ?thesis using s1(1) \<open>m \<le> 4\<close> \<open>pos (head_index (shared s2)) = Suc H\<close> by blast
    qed
  next
    case (S_Peek nh b n c a)
    then show ?thesis using now [of 3] mover_peek [OF inv S_Peek] by simp
  next
    case (S_Set_Block ni b n c a)
    then show ?thesis using now [of 2] mover_block [OF inv(1) S_Set_Block] by simp
  next
    case (S_Set_Index ni b c a)
    then show ?thesis using now [of 1] mover_index [OF inv(1) S_Set_Index] by simp
  qed (use v in simp_all)
qed

lemma waits_end:
  assumes "threads_step\<^sup>*\<^sup>* threads_init s" "length (pushed s) < 2 ^ 61"
  shows "offset_of (tail_index (shared s)) = BLOCK_CAP \<Longrightarrow>
      \<exists>u n s'. n \<le> 2 \<and> run_threads (replicate n (Pusher False u)) s = Some s' \<and> offset_of (tail_index (shared s')) \<noteq> BLOCK_CAP"
    "stealing s t = S_Wait new_head block c adv \<Longrightarrow>
      \<exists>u n s'. n \<le> 3 \<and> run_threads (replicate n (Pusher False u)) s = Some s' \<and> link_set s' block"
    "offset_of (head_index (shared s)) = BLOCK_CAP \<Longrightarrow>
      \<exists>u v n m s'. n \<le> 3 \<and> m \<le> 4 \<and> run_threads (replicate n (Pusher False u) @ replicate m (Thief False None v)) s = Some s'
        \<and> offset_of (head_index (shared s')) \<noteq> BLOCK_CAP"
proof -
  obtain H T where inv: "threads_inv s H T" and bound: "T < 2 ^ 62" by (rule threads_reachable_inv [OF assms])
  note i = threads_invD [OF inv] and sh = shared_invD [OF threads_invD(1) [OF inv]] and sv = reachable_served [OF assms]
  show "\<exists>u n s'. n \<le> 2 \<and> run_threads (replicate n (Pusher False u)) s = Some s' \<and> offset_of (tail_index (shared s')) \<noteq> BLOCK_CAP"
    if e: "offset_of (tail_index (shared s)) = BLOCK_CAP"
  proof -
    have T: "T mod 64 = 63" using e sh(2) by (simp add: offset_end)
    then obtain u where "installing (pushing s u)" using sv sh(2) unfolding served_def tail_served_def by blast
    then show ?thesis using installs_tail [OF inv bound] laps_end [OF T] unfolding offset_end by fastforce
  qed
  show "\<exists>u n s'. n \<le> 3 \<and> run_threads (replicate n (Pusher False u)) s = Some s' \<and> link_set s' block"
    if w: "stealing s t = S_Wait new_head block c adv"
  proof (cases "link_set s block")
    case True
    then show ?thesis by (intro exI [of _ 0]) auto
  next
    case False
    have "blocks (shared s) block \<noteq> None" using sh(9) [OF laps_ge(2) [OF sh(4)]] i(6) [of t] w by (auto simp: linked_def)
    then show ?thesis using link_pending [OF inv sv w False] installs_link by blast
  qed
  show "\<exists>u v n m s'. n \<le> 3 \<and> m \<le> 4 \<and> run_threads (replicate n (Pusher False u) @ replicate m (Thief False None v)) s = Some s'
        \<and> offset_of (head_index (shared s')) \<noteq> BLOCK_CAP" if e: "offset_of (head_index (shared s)) = BLOCK_CAP"
  proof -
    have H: "H mod 64 = 63" using e sh(1) by (simp add: offset_end)
    then obtain v where "moving (stealing s v)" using sv sh(1) unfolding served_def head_served_def by blast
    then obtain u n m s' where r: "n \<le> 3" "m \<le> 4" "run_threads (replicate n (Pusher False u) @ replicate m (Thief False None v)) s = Some s'"
      "pos (head_index (shared s')) = Suc H" using mover_ends [OF assms inv bound] by blast
    have "offset_of (head_index (shared s')) \<noteq> BLOCK_CAP" using laps_end [OF H] r(4) by (simp add: offset_end)
    then show ?thesis using r(1-3) by blast
  qed
qed

text \<open>
  C17: the four waits of the injector end. In every reachable state \<open>s\<close> of the threads with fewer than \<open>2 ^ 61\<close> tasks pushed: while the tail stands at
  the end of a block, where every \<^verbatim>\<open>push\<close> spins, some pusher needs at most two steps to move it on;
  while a thief spins in \<^verbatim>\<open>Block::wait_next\<close>, the link is set or some pusher sets it within three steps; and while the head stands at the
  end of a block, where every \<^verbatim>\<open>steal\<close> spins, at most three steps of a pusher and four of a thief move it on. In every reachable state \<open>u\<close> of the users of a
  block: while a thief spins in \<^verbatim>\<open>Slot::wait_write\<close> for slot \<open>i\<close> of its range, at most two steps of the pusher of that slot set
  \<^verbatim>\<open>WRITE\<close>, and the next step of the thief takes exactly the task that was pushed there.
\<close>

theorem injector_waits_end:
  assumes "threads_step\<^sup>*\<^sup>* threads_init s" "length (pushed s) < 2 ^ 61"
    and "block_ranges bs" "users_init p bs u0" "(users_step p task bs)\<^sup>*\<^sup>* u0 u"
  shows "(offset_of (tail_index (shared s)) = BLOCK_CAP \<longrightarrow>
      (\<exists>t n s'. n \<le> 2 \<and> run_threads (replicate n (Pusher False t)) s = Some s' \<and> offset_of (tail_index (shared s')) \<noteq> BLOCK_CAP))
    \<and> (\<forall>t new_head block c adv. stealing s t = S_Wait new_head block c adv \<longrightarrow>
      (\<exists>t n s'. n \<le> 3 \<and> run_threads (replicate n (Pusher False t)) s = Some s' \<and> link_set s' block))
    \<and> (offset_of (head_index (shared s)) = BLOCK_CAP \<longrightarrow>
      (\<exists>t v n m s'. n \<le> 3 \<and> m \<le> 4 \<and> run_threads (replicate n (Pusher False t) @ replicate m (Thief False None v)) s = Some s'
        \<and> offset_of (head_index (shared s')) \<noteq> BLOCK_CAP))
    \<and> (\<forall>j i. j < ranges bs \<longrightarrow> thieves u j = Taking i \<longrightarrow> i < bs ! Suc j \<longrightarrow>
      (\<exists>n u1 u2. n \<le> 2 \<and> for_in (replicate n i) (pusher_step p task) u = Some u1 \<and> thief_step p bs j u1 = Some u2
        \<and> thieves u2 j = Taking (Suc i) \<and> got u2 j = got u j @ [task i]))"
proof (intro conjI)
  show "\<forall>j i. j < ranges bs \<longrightarrow> thieves u j = Taking i \<longrightarrow> i < bs ! Suc j \<longrightarrow>
      (\<exists>n u1 u2. n \<le> 2 \<and> for_in (replicate n i) (pusher_step p task) u = Some u1 \<and> thief_step p bs j u1 = Some u2
        \<and> thieves u2 j = Taking (Suc i) \<and> got u2 j = got u j @ [task i])"
    using write_wait_ends [OF assms(3) reachable_inv [OF assms(3-5)]] by blast
qed (intro impI allI; rule waits_end [OF assms(1,2)]; assumption)+

text \<open>One pusher that fills a block and has won its last slot, but has not installed the next block yet.\<close>

definition fill_block :: "choice list" where
  "fill_block = replicate (62 * 5 + 4) (Pusher False 0)"

lemma fill_block_run: "map_option (\<lambda>s. (offset_of (tail_index (shared s)), length (pushed s))) (run_threads fill_block (threads_init :: nat threads)) = Some (BLOCK_CAP, 63)"
  by code_simp

lemma new_block_users: "\<exists>u :: nat users. users_init 0 [0, 5, 63] u \<and> thieves u 0 = Taking 0 \<and> got u 0 = []"
  by (rule exI [of _ "\<lparr>injector_of = injector_new, pushers = \<lambda>_. Store_Task, thieves = \<lambda>j. Taking ([0, 5, 63] ! j), got = \<lambda>_. []\<rparr>"])
    (simp add: users_init_def injector_new_def)

theorem injector_waits_end_witness:
  "\<exists>(s :: nat threads) (u :: nat users). offset_of (tail_index (shared s)) = BLOCK_CAP \<and> length (pushed s) = 63
     \<and> (\<exists>t n s'. n \<le> 2 \<and> run_threads (replicate n (Pusher False t)) s = Some s' \<and> offset_of (tail_index (shared s')) \<noteq> BLOCK_CAP)
     \<and> users_init 0 [0, 5, 63] u \<and> thieves u 0 = Taking 0
     \<and> (\<exists>n u1 u2. n \<le> 2 \<and> for_in (replicate n 0) (pusher_step 0 (\<lambda>i. i + 100)) u = Some u1 \<and> thief_step 0 [0, 5, 63] 0 u1 = Some u2
        \<and> thieves u2 0 = Taking 1 \<and> got u2 0 = [100])"
proof -
  obtain s :: "nat threads" where s: "run_threads fill_block threads_init = Some s" "offset_of (tail_index (shared s)) = BLOCK_CAP" "length (pushed s) = 63"
    using fill_block_run by auto
  obtain u :: "nat users" where u: "users_init 0 [0, 5, 63] u" "thieves u 0 = Taking 0" "got u 0 = []" using new_block_users by blast
  have l: "length (pushed s) < 2 ^ 61" using s(3) by simp
  have b: "block_ranges [0, 5, 63]" by (simp add: block_ranges_def ranges_def)
  note w = injector_waits_end [OF run_threads_reach [OF s(1)] l b u(1) rtranclp.rtrancl_refl, where task = "\<lambda>i. i + 100"]
  have "0 < ranges [0, 5, 63 :: nat]" "0 < [0, 5, 63 :: nat] ! Suc 0" by (simp_all add: ranges_def)
  then show ?thesis using s(2,3) u w [THEN conjunct1] w [THEN conjunct2, THEN conjunct2, THEN conjunct2] by fastforce
qed

end
