(* ===== verification/Memory.thy ===== *)
theory Memory
  imports Prelude
begin

text \<open>
  Physical memory (\<^verbatim>\<open>arch/x86_64/memory\<close>): the allocator of physical frames over the boot loader's
  memory map, the mapping of the kernel heap, and the translation of physical to virtual addresses.
  The paging structures of the \<^verbatim>\<open>x86_64\<close> crate (frames, pages, page tables) and the memory types of the
  \<^verbatim>\<open>limine\<close> crate are parameters.
\<close>

section \<open>The frame allocator\<close>

record 'k entry =
  base :: u64
  entry_length :: u64
  entry_type :: 'k

text \<open>
  The standard library's \<^verbatim>\<open>StepBy\<close> over a \<^verbatim>\<open>Range<u64>\<close>: the next value and how many values are left.
  The end \<open>base + length\<close> of the range wraps around in a release build.
\<close>

record step_by =
  sb_start :: u64
  sb_remaining :: nat

definition step_range :: "u64 \<Rightarrow> u64 \<Rightarrow> step_by" where
  "step_range a b = \<lparr>sb_start = a, sb_remaining = (unat b - unat a + 4095) div 4096\<rparr>"

definition region_frames :: "'k entry \<Rightarrow> step_by" where
  "region_frames x = step_range (base x) (base x + entry_length x)"

fun step_next :: "step_by \<Rightarrow> u64 option \<times> step_by" where
  "step_next sb =
     (if 0 < sb_remaining sb
      then (Some (sb_start sb), \<lparr>sb_start = sb_start sb + 4096, sb_remaining = sb_remaining sb - 1\<rparr>)
      else (None, sb))"

text \<open>
  \<^verbatim>\<open>BootInfoFrameAllocator\<close>: the \<^verbatim>\<open>FlatMap\<close> iterator over the usable regions, with the regions not yet
  looked at and the iterator of the current region.
\<close>

record 'k frame_allocator =
  regions :: "'k entry list"
  front :: "step_by option"

definition frame_allocator_init :: "'k entry list \<Rightarrow> 'k frame_allocator" where
  "frame_allocator_init rs = \<lparr>regions = rs, front = None\<rparr>"

fun next_region :: "'k \<Rightarrow> 'k entry list \<Rightarrow> u64 option \<times> 'k frame_allocator" where
  "next_region usable [] = (None, \<lparr>regions = [], front = None\<rparr>)"
| "next_region usable (x # rs) =
     (if entry_type x = usable
      then case step_next (region_frames x) of
             (Some a, sb) \<Rightarrow> (Some a, \<lparr>regions = rs, front = Some sb\<rparr>)
           | (None, _) \<Rightarrow> next_region usable rs
      else next_region usable rs)"

definition next_addr :: "'k \<Rightarrow> 'k frame_allocator \<Rightarrow> u64 option \<times> 'k frame_allocator" where
  "next_addr usable al =
     (case front al of
        None \<Rightarrow> next_region usable (regions al)
      | Some sb \<Rightarrow>
          (case step_next sb of
             (Some a, sb) \<Rightarrow> (Some a, al\<lparr>front := Some sb\<rparr>)
           | (None, _) \<Rightarrow> next_region usable (regions al)))"

text \<open>
  What the code uses of the \<^verbatim>\<open>x86_64\<close> crate: \<open>containing_frame\<close> is \<^verbatim>\<open>PhysFrame::containing_address\<close> of
  \<^verbatim>\<open>PhysAddr::new\<close>, which panics (\<open>None\<close>) on an address of more than 52 bits; \<open>virt_add\<close> panics when the
  sum is not canonical.
\<close>

record ('f, 'p, 'e) paging =
  containing_frame :: "u64 \<Rightarrow> 'f option"
  containing_page :: "u64 \<Rightarrow> 'p"
  range_inclusive :: "'p \<Rightarrow> 'p \<Rightarrow> 'p list"
  virt_add :: "u64 \<Rightarrow> u64 \<Rightarrow> u64 option"
  FrameAllocationFailed :: 'e

definition allocate_frame :: "('f, 'p, 'e) paging \<Rightarrow> 'k \<Rightarrow> 'k frame_allocator \<Rightarrow> ('f option \<times> 'k frame_allocator) option" where
  "allocate_frame X usable al =
     (case next_addr usable al of
        (None, al) \<Rightarrow> Some (None, al)
      | (Some a, al) \<Rightarrow> do { f \<leftarrow> containing_frame X a; Some (Some f, al) })"

section \<open>The kernel heap\<close>

definition HEAP_START :: usize where "HEAP_START = 0x444444440000"
definition HEAP_SIZE :: usize where "HEAP_SIZE = 100 * 1024"

datatype flag = PRESENT | WRITABLE

text \<open>
  \<^verbatim>\<open>Mapper::map_to\<close> is a parameter: it may take frames for page tables from the allocator it is given,
  and reports an error or the new mapping. \<open>None\<close> is a panic. The state is the mapper, the allocator and
  the area given to the global allocator.
\<close>

type_synonym ('f, 'a) frame_source = "'a \<Rightarrow> ('f option \<times> 'a) option"
type_synonym ('f, 'p, 'e, 'm, 'a) map_to = "('f, 'a) frame_source \<Rightarrow> 'p \<Rightarrow> 'f \<Rightarrow> flag set \<Rightarrow> 'm \<Rightarrow> 'a \<Rightarrow> (('e + unit) \<times> 'm \<times> 'a) option"

definition heap_pages :: "('f, 'p, 'e) paging \<Rightarrow> 'p list option" where
  "heap_pages X = do {
     e \<leftarrow> virt_add X HEAP_START HEAP_SIZE;
     Some (range_inclusive X (containing_page X HEAP_START) (containing_page X (e - 1))) }"

fun map_pages :: "('f, 'p, 'e) paging \<Rightarrow> ('f, 'a) frame_source \<Rightarrow> ('f, 'p, 'e, 'm, 'a) map_to \<Rightarrow> 'p list \<Rightarrow> 'm \<Rightarrow> 'a
    \<Rightarrow> (('e + unit) \<times> 'm \<times> 'a) option" where
  "map_pages X alloc map_to [] m al = Some (Inr (), m, al)"
| "map_pages X alloc map_to (page # pages) m al = do {
     (fr, al) \<leftarrow> alloc al;
     (case fr of
        None \<Rightarrow> Some (Inl (FrameAllocationFailed X), m, al)
      | Some frame \<Rightarrow> do {
          (r, m, al) \<leftarrow> map_to alloc page frame {PRESENT, WRITABLE} m al;
          (case r of Inl e \<Rightarrow> Some (Inl e, m, al) | Inr _ \<Rightarrow> map_pages X alloc map_to pages m al) }) }"

definition init_heap :: "('f, 'p, 'e) paging \<Rightarrow> ('f, 'a) frame_source \<Rightarrow> ('f, 'p, 'e, 'm, 'a) map_to \<Rightarrow> 'm \<Rightarrow> 'a
    \<Rightarrow> (usize \<times> usize) option \<Rightarrow> (('e + unit) \<times> 'm \<times> 'a \<times> (usize \<times> usize) option) option" where
  "init_heap X alloc map_to m al heap = do {
     pages \<leftarrow> heap_pages X;
     (r, m, al) \<leftarrow> map_pages X alloc map_to pages m al;
     (case r of
        Inl e \<Rightarrow> Some (Inl e, m, al, heap)
      | Inr _ \<Rightarrow> Some (Inr (), m, al, Some (HEAP_START, HEAP_SIZE))) }"

text \<open>
  \<^verbatim>\<open>memory::init\<close>: \<open>cr3\<close> is the address of the active page table and \<open>offset_page_table\<close> the mapper that the
  \<^verbatim>\<open>x86_64\<close> crate makes of a table and the offset of physical memory.
\<close>

definition active_level_4_table :: "('f, 'p, 'e) paging \<Rightarrow> u64 \<Rightarrow> u64 \<Rightarrow> u64 option" where
  "active_level_4_table X cr3 physical_memory_offset = virt_add X physical_memory_offset cr3"

definition memory_init :: "('f, 'p, 'e) paging \<Rightarrow> 'k \<Rightarrow> ('f, 'p, 'e, 'm, 'k frame_allocator) map_to \<Rightarrow> (u64 \<Rightarrow> u64 \<Rightarrow> 'm)
    \<Rightarrow> u64 \<Rightarrow> u64 \<Rightarrow> 'k entry list \<Rightarrow> ('m \<times> (usize \<times> usize) option) option" where
  "memory_init X usable map_to offset_page_table cr3 physical_memory_offset memory_regions = do {
     table \<leftarrow> active_level_4_table X cr3 physical_memory_offset;
     (r, m, _, heap) \<leftarrow> init_heap X (allocate_frame X usable) map_to
        (offset_page_table table physical_memory_offset) (frame_allocator_init memory_regions) None;
     (case r of Inl _ \<Rightarrow> None | Inr _ \<Rightarrow> Some (m, heap)) }"

section \<open>Physical to virtual addresses\<close>

record phys_mapper =
  physical_memory_offset :: usize

definition phys_mapper_new :: "usize \<Rightarrow> phys_mapper" where
  "phys_mapper_new off = \<lparr>physical_memory_offset = off\<rparr>"

definition phys_to_virt :: "phys_mapper \<Rightarrow> usize \<Rightarrow> usize" where
  "phys_to_virt mp phys = physical_memory_offset mp + phys"

text \<open>\<^verbatim>\<open>NonNull::new(..).unwrap()\<close> panics on the address 0.\<close>

definition phys_to_virt_ptr :: "phys_mapper \<Rightarrow> usize \<Rightarrow> usize option" where
  "phys_to_virt_ptr mp phys = (let v = phys_to_virt mp phys in if v = 0 then None else Some v)"

declare step_next.simps [simp del]

section \<open>The addresses that the allocator hands out\<close>

definition step_addrs :: "step_by \<Rightarrow> u64 list" where
  "step_addrs sb = map (\<lambda>i. sb_start sb + of_nat i * 4096) [0..<sb_remaining sb]"

definition front_addrs :: "step_by option \<Rightarrow> u64 list" where
  "front_addrs s = (case s of None \<Rightarrow> [] | Some sb \<Rightarrow> step_addrs sb)"

definition region_addrs :: "'k \<Rightarrow> 'k entry list \<Rightarrow> u64 list" where
  "region_addrs usable rs = concat (map (step_addrs \<circ> region_frames) (filter (\<lambda>x. entry_type x = usable) rs))"

definition addrs :: "'k \<Rightarrow> 'k frame_allocator \<Rightarrow> u64 list" where
  "addrs usable al = front_addrs (front al) @ region_addrs usable (regions al)"

lemma step_addrs_Suc:
  "sb_remaining sb = Suc n \<Longrightarrow> step_addrs sb = sb_start sb # step_addrs \<lparr>sb_start = sb_start sb + 4096, sb_remaining = n\<rparr>"
  unfolding step_addrs_def by (simp only: upt_conv_Cons map_map zero_less_Suc) (auto simp: map_Suc_upt [symmetric] algebra_simps simp del: upt_Suc)

lemma step_next_Nil: "step_addrs sb = [] \<Longrightarrow> step_next sb = (None, sb)"
  by (simp add: step_addrs_def step_next.simps)

lemma step_next_Cons: "step_addrs sb = a # as \<Longrightarrow> \<exists>sb'. step_next sb = (Some a, sb') \<and> step_addrs sb' = as"
proof (cases "sb_remaining sb")
  case (Suc n)
  then show "step_addrs sb = a # as \<Longrightarrow> ?thesis" using step_addrs_Suc [OF Suc] by (auto simp: step_next.simps)
qed (simp add: step_addrs_def)

lemma next_region_addrs:
  "\<exists>al'. next_region usable rs = (case region_addrs usable rs of [] \<Rightarrow> None | a # _ \<Rightarrow> Some a, al') \<and> addrs usable al' = tl (region_addrs usable rs)"
proof (induction rs)
  case (Cons x rs)
  then show ?case
  proof (cases "entry_type x = usable \<and> step_addrs (region_frames x) \<noteq> []")
    case True
    then obtain a as where a: "step_addrs (region_frames x) = a # as" "entry_type x = usable" by (cases "step_addrs (region_frames x)") auto
    from step_next_Cons [OF a(1)] show ?thesis using a by (auto simp: addrs_def front_addrs_def region_addrs_def)
  next
    case False
    then have "next_region usable (x # rs) = next_region usable rs" "region_addrs usable (x # rs) = region_addrs usable rs"
      using step_next_Nil [of "region_frames x"] by (auto simp: region_addrs_def)
    then show ?thesis using Cons.IH by simp
  qed
qed (simp add: addrs_def region_addrs_def front_addrs_def)

lemma next_addr_addrs:
  "\<exists>al'. next_addr usable al = (case addrs usable al of [] \<Rightarrow> None | a # _ \<Rightarrow> Some a, al') \<and> addrs usable al' = tl (addrs usable al)"
proof (cases "front_addrs (front al)")
  case Nil
  then have "next_addr usable al = next_region usable (regions al)" "addrs usable al = region_addrs usable (regions al)"
    using step_next_Nil by (auto simp: next_addr_def addrs_def front_addrs_def split: option.splits)
  then show ?thesis using next_region_addrs [of usable "regions al"] by simp
next
  case (Cons a as)
  then obtain sb where sb: "front al = Some sb" "step_addrs sb = a # as" by (auto simp: front_addrs_def split: option.splits)
  from step_next_Cons [OF sb(2)] show ?thesis using sb by (auto simp: next_addr_def addrs_def front_addrs_def)
qed

section \<open>The interface of a frame allocator\<close>

text \<open>
  What \<open>init_heap\<close> relies on: an allocator hands out the frames of a list one by one, then reports that
  there is none, and does not panic.
\<close>

fun alloc_n :: "('f, 'a) frame_source \<Rightarrow> nat \<Rightarrow> 'a \<Rightarrow> ('f option list \<times> 'a) option" where
  "alloc_n alloc 0 al = Some ([], al)"
| "alloc_n alloc (Suc n) al = do { (f, al) \<leftarrow> alloc al; (fs, al) \<leftarrow> alloc_n alloc n al; Some (f # fs, al) }"

text \<open>
  The documented behaviour of \<^verbatim>\<open>map_to\<close> on a four-level page table: it takes at most three frames for page
  tables; on success the page is mapped to the frame with the flags and no other mapping changes, on an
  error no mapping changes; it succeeds if the page is free (neither mapped nor below a huge page) and
  the frames suffice.
\<close>

definition mapper_laws :: "('f, 'a) frame_source \<Rightarrow> ('a \<Rightarrow> 'f list) \<Rightarrow> ('a \<Rightarrow> bool) \<Rightarrow> ('m \<Rightarrow> 'p \<rightharpoonup> 'f \<times> flag set)
    \<Rightarrow> ('m \<Rightarrow> 'p \<Rightarrow> bool) \<Rightarrow> ('f, 'p, 'e, 'm, 'a) map_to \<Rightarrow> bool" where
  "mapper_laws alloc avail valid mapped free map_to \<longleftrightarrow>
     (\<forall>p f fl m al. valid al \<longrightarrow> (\<exists>r m' al' k. map_to alloc p f fl m al = Some (r, m', al') \<and> valid al'
        \<and> k \<le> 3 \<and> avail al' = drop k (avail al)
        \<and> mapped m' = (if isl r then mapped m else (mapped m)(p \<mapsto> (f, fl)))
        \<and> (\<forall>p'. p' \<noteq> p \<longrightarrow> free m p' \<longrightarrow> free m' p')
        \<and> (free m p \<and> 3 \<le> length (avail al) \<longrightarrow> r = Inr ())))"

text \<open>Pages mapped to distinct frames of a list, the other pages untouched.\<close>

definition maps_pages :: "'p list \<Rightarrow> 'f list \<Rightarrow> ('p \<rightharpoonup> 'f \<times> flag set) \<Rightarrow> ('p \<rightharpoonup> 'f \<times> flag set) \<Rightarrow> bool" where
  "maps_pages ps fs m m' \<longleftrightarrow> length fs = length ps \<and> distinct fs
     \<and> (\<forall>i < length ps. m' (ps ! i) = Some (fs ! i, {PRESENT, WRITABLE})) \<and> (\<forall>p. p \<notin> set ps \<longrightarrow> m' p = m p)"

locale frame_alloc =
  fixes alloc :: "'a \<Rightarrow> ('f option \<times> 'a) option"
    and avail :: "'a \<Rightarrow> 'f list"
    and valid :: "'a \<Rightarrow> bool"
  assumes alloc_None: "\<lbrakk>valid al; avail al = []\<rbrakk> \<Longrightarrow> \<exists>al'. alloc al = Some (None, al') \<and> avail al' = [] \<and> valid al'"
    and alloc_Some: "\<lbrakk>valid al; avail al = f # fs\<rbrakk> \<Longrightarrow> \<exists>al'. alloc al = Some (Some f, al') \<and> avail al' = fs \<and> valid al'"
begin

lemma alloc_n_avail:
  "valid al \<Longrightarrow> \<exists>al'. alloc_n alloc n al = Some (map Some (take n (avail al)) @ replicate (n - length (avail al)) None, al') \<and> valid al'"
proof (induction n arbitrary: al)
  case (Suc n)
  show ?case
  proof (cases "avail al")
    case Nil
    from alloc_None [OF Suc.prems Nil] obtain al1 where a: "alloc al = Some (None, al1)" "avail al1 = []" "valid al1" by blast
    from Suc.IH [OF a(3)] a(1,2) Nil show ?thesis by auto
  next
    case (Cons f fs)
    from alloc_Some [OF Suc.prems Cons] obtain al1 where a: "alloc al = Some (Some f, al1)" "avail al1 = fs" "valid al1" by blast
    from Suc.IH [OF a(3)] a(1,2) Cons show ?thesis by auto
  qed
qed simp

lemma map_pages_total:
  assumes "mapper_laws alloc avail valid mapped free map_to" "valid al" "distinct (avail al)" "distinct ps" "\<forall>p \<in> set ps. free m p"
  shows "\<exists>r m' al'. map_pages X alloc map_to ps m al = Some (r, m', al')
    \<and> (\<not> isl r \<longrightarrow> (\<exists>fs. set fs \<subseteq> set (avail al) \<and> maps_pages ps fs (mapped m) (mapped m')))
    \<and> (4 * length ps \<le> length (avail al) \<longrightarrow> r = Inr ()) \<and> (avail al = [] \<and> ps \<noteq> [] \<longrightarrow> r = Inl (FrameAllocationFailed X))"
  using assms(2-5)
proof (induction ps arbitrary: m al)
  case Nil
  then show ?case by (auto simp: maps_pages_def intro: exI [of _ "[]"])
next
  case (Cons p ps)
  show ?case
  proof (cases "avail al")
    case Nil
    from alloc_None [OF Cons.prems(1) Nil] Nil show ?thesis by auto
  next
    case (Cons f fs)
    from alloc_Some [OF Cons.prems(1) Cons] obtain al1 where a: "alloc al = Some (Some f, al1)" "avail al1 = fs" "valid al1" by blast
    obtain r m2 al2 k where t: "map_to alloc p f {PRESENT, WRITABLE} m al1 = Some (r, m2, al2)" "valid al2"
      "k \<le> 3" "avail al2 = drop k fs" "mapped m2 = (if isl r then mapped m else (mapped m)(p \<mapsto> (f, {PRESENT, WRITABLE})))"
      "\<forall>p'. p' \<noteq> p \<longrightarrow> free m p' \<longrightarrow> free m2 p'" "free m p \<and> 3 \<le> length fs \<longrightarrow> r = Inr ()"
      using assms(1) [unfolded mapper_laws_def, THEN spec, THEN spec, THEN spec, THEN spec, THEN spec, THEN mp, OF a(3)]
      unfolding a(2) by blast
    show ?thesis
    proof (cases r)
      case (Inl e)
      then show ?thesis using a(1) t(1,7) Cons Cons.prems(4) by auto
    next
      case (Inr u)
      have "\<forall>q \<in> set ps. free m2 q" "distinct ps" "p \<notin> set ps" using t(6) Cons.prems(3,4) by auto
      moreover have "distinct (avail al2)" "f \<notin> set (avail al2)" "set (avail al2) \<subseteq> set fs"
        using Cons Cons.prems(2) t(4) by (auto dest: in_set_dropD)
      ultimately obtain r' m' al' where s: "map_pages X alloc map_to ps m2 al2 = Some (r', m', al')"
        "\<not> isl r' \<longrightarrow> (\<exists>gs. set gs \<subseteq> set (avail al2) \<and> maps_pages ps gs (mapped m2) (mapped m'))"
        "4 * length ps \<le> length (avail al2) \<longrightarrow> r' = Inr ()"
        using Cons.IH [of al2 m2] t(2) by blast
      have "maps_pages (p # ps) (f # gs) (mapped m) (mapped m')"
        if "set gs \<subseteq> set (avail al2)" "maps_pages ps gs (mapped m2) (mapped m')" for gs
        using that \<open>f \<notin> set (avail al2)\<close> \<open>p \<notin> set ps\<close> t(5) Inr by (auto simp: maps_pages_def less_Suc_eq_0_disj)
      moreover have "set (f # gs) \<subseteq> set (avail al)" if "set gs \<subseteq> set (avail al2)" for gs
        using that Cons \<open>set (avail al2) \<subseteq> set fs\<close> by auto
      ultimately have "\<not> isl r' \<longrightarrow> (\<exists>gs. set gs \<subseteq> set (avail al) \<and> maps_pages (p # ps) gs (mapped m) (mapped m'))"
        using s(2) by blast
      moreover have "map_pages X alloc map_to (p # ps) m al = Some (r', m', al')" using a(1) t(1) s(1) Inr by simp
      moreover have "4 * length (p # ps) \<le> length (avail al) \<longrightarrow> r' = Inr ()" using s(3) t(3,4) Cons by auto
      ultimately show ?thesis using list.distinct(2) [of f fs] unfolding Cons [symmetric] by blast
    qed
  qed
qed

end

text \<open>The allocator over the boot loader's memory map is such an allocator.\<close>

definition avail_frames :: "('f, 'p, 'e) paging \<Rightarrow> 'k \<Rightarrow> 'k frame_allocator \<Rightarrow> 'f list" where
  "avail_frames X usable al = map (the \<circ> containing_frame X) (addrs usable al)"

definition addrs_valid :: "('f, 'p, 'e) paging \<Rightarrow> 'k \<Rightarrow> 'k frame_allocator \<Rightarrow> bool" where
  "addrs_valid X usable al \<longleftrightarrow> (\<forall>a \<in> set (addrs usable al). containing_frame X a \<noteq> None)"

interpretation boot: frame_alloc "allocate_frame X usable" "avail_frames X usable" "addrs_valid X usable" for X usable
proof unfold_locales
  fix al
  show "\<exists>al'. allocate_frame X usable al = Some (None, al') \<and> avail_frames X usable al' = [] \<and> addrs_valid X usable al'"
    if "addrs_valid X usable al" "avail_frames X usable al = []"
    using that next_addr_addrs [of usable al] by (auto simp: allocate_frame_def avail_frames_def addrs_valid_def)
next
  fix al f fs
  assume a: "addrs_valid X usable al" "avail_frames X usable al = f # fs"
  then obtain a as where as: "addrs usable al = a # as" "containing_frame X a = Some f" "map (the \<circ> containing_frame X) as = fs"
    by (auto simp: avail_frames_def addrs_valid_def map_eq_Cons_conv)
  show "\<exists>al'. allocate_frame X usable al = Some (Some f, al') \<and> avail_frames X usable al' = fs \<and> addrs_valid X usable al'"
    using next_addr_addrs [of usable al] as a(1) by (auto simp: allocate_frame_def avail_frames_def addrs_valid_def)
qed

section \<open>Memory maps\<close>

text \<open>
  A memory map as the \<^verbatim>\<open>limine\<close> protocol promises it: usable regions consist of whole pages below the
  limit of physical addresses and do not overlap.
\<close>

definition memory_map :: "'k \<Rightarrow> 'k entry list \<Rightarrow> bool" where
  "memory_map usable rs \<longleftrightarrow>
     (\<forall>x \<in> set (filter (\<lambda>x. entry_type x = usable) rs).
        4096 dvd unat (base x) \<and> 4096 dvd unat (entry_length x) \<and> unat (base x) + unat (entry_length x) \<le> 2 ^ 52)
     \<and> sorted_wrt (\<lambda>x y. unat (base x) + unat (entry_length x) \<le> unat (base y) \<or> unat (base y) + unat (entry_length y) \<le> unat (base x))
         (filter (\<lambda>x. entry_type x = usable) rs)"

text \<open>The start addresses of the frames of the usable regions, in the order of the map.\<close>

definition entry_frames :: "'k entry \<Rightarrow> nat list" where
  "entry_frames x = map (\<lambda>i. unat (base x) + i * 4096) [0..<unat (entry_length x) div 4096]"

definition usable_frames :: "'k \<Rightarrow> 'k entry list \<Rightarrow> nat list" where
  "usable_frames usable rs = concat (map entry_frames (filter (\<lambda>x. entry_type x = usable) rs))"

lemma entry_frames_bounds:
  "\<lbrakk>a \<in> set (entry_frames x); 4096 dvd unat (entry_length x)\<rbrakk> \<Longrightarrow> unat (base x) \<le> a \<and> a + 4096 \<le> unat (base x) + unat (entry_length x)"
  by (auto simp: entry_frames_def elim!: dvdE)

lemma entry_frames_step:
  assumes "4096 dvd unat (entry_length x)" "unat (base x) + unat (entry_length x) \<le> 2 ^ 52"
  shows "map unat (step_addrs (region_frames x)) = entry_frames x"
proof -
  obtain n where n: "unat (entry_length x) = 4096 * n" using assms(1) by (auto elim: dvdE)
  have e: "unat (base x + entry_length x) = unat (base x) + unat (entry_length x)" using assms(2) by (simp add: unat_word_ariths)
  have "unat (base x + of_nat i * 4096) = unat (base x) + i * 4096" if "i < n" for i
    using that assms(2) n by (simp add: unat_word_ariths unat_of_nat)
  then show ?thesis unfolding step_addrs_def region_frames_def step_range_def entry_frames_def e n
    by (auto simp: comp_def)
qed

lemma usable_addrs:
  assumes "memory_map usable rs"
  shows "map unat (addrs usable (frame_allocator_init rs)) = usable_frames usable rs"
proof -
  have "map unat (concat (map (step_addrs \<circ> region_frames) xs)) = concat (map entry_frames xs)"
    if "set xs \<subseteq> set (filter (\<lambda>x. entry_type x = usable) rs)" for xs
    using that by (induction xs) (use assms in \<open>auto simp: memory_map_def entry_frames_step\<close>)
  then show ?thesis by (simp add: addrs_def front_addrs_def frame_allocator_init_def region_addrs_def usable_frames_def)
qed

lemma usable_frames_bounds:
  assumes "memory_map usable rs" "a \<in> set (usable_frames usable rs)"
  shows "4096 dvd a" "a < 2 ^ 52"
    "\<exists>x \<in> set rs. entry_type x = usable \<and> unat (base x) \<le> a \<and> a + 4096 \<le> unat (base x) + unat (entry_length x)"
proof -
  obtain x where x: "x \<in> set rs" "entry_type x = usable" "a \<in> set (entry_frames x)"
    using assms(2) by (auto simp: usable_frames_def)
  then have w: "4096 dvd unat (base x)" "4096 dvd unat (entry_length x)" "unat (base x) + unat (entry_length x) \<le> 2 ^ 52"
    using assms(1) by (auto simp: memory_map_def)
  have b: "unat (base x) \<le> a \<and> a + 4096 \<le> unat (base x) + unat (entry_length x)" using entry_frames_bounds [OF x(3) w(2)] .
  show "4096 dvd a" using x(3) w(1) by (auto simp: entry_frames_def)
  show "a < 2 ^ 52" using b w(3) by linarith
  show "\<exists>x \<in> set rs. entry_type x = usable \<and> unat (base x) \<le> a \<and> a + 4096 \<le> unat (base x) + unat (entry_length x)"
    using x(1,2) b by blast
qed

lemma distinct_frames:
  assumes "\<forall>x \<in> set xs. 4096 dvd unat (entry_length x)"
    "sorted_wrt (\<lambda>x y. unat (base x) + unat (entry_length x) \<le> unat (base y) \<or> unat (base y) + unat (entry_length y) \<le> unat (base x)) xs"
  shows "distinct (concat (map entry_frames xs))"
  using assms
proof (induction xs)
  case (Cons x xs)
  have "distinct (entry_frames x)" by (auto simp: entry_frames_def distinct_map inj_on_def)
  moreover have False if a: "a \<in> set (entry_frames x)" "y \<in> set xs" "a \<in> set (entry_frames y)" for a y
    using entry_frames_bounds [OF a(1)] entry_frames_bounds [OF a(3)] Cons.prems a(2) by fastforce
  ultimately show ?case using Cons by auto
qed simp

lemma distinct_usable_frames: "memory_map usable rs \<Longrightarrow> distinct (usable_frames usable rs)"
  unfolding usable_frames_def by (rule distinct_frames) (simp_all add: memory_map_def)

section \<open>Documented behaviour of the paging types\<close>

text \<open>
  A frame or page is known by its start address. The page or frame that contains an address starts at
  the address rounded down to a multiple of 4096; an inclusive range of pages has every page from its
  first to its last; the heap's end is a canonical address.
\<close>

definition paging_laws :: "('f, 'p, 'e) paging \<Rightarrow> ('f \<Rightarrow> u64) \<Rightarrow> ('p \<Rightarrow> u64) \<Rightarrow> bool" where
  "paging_laws X frame_start page_start \<longleftrightarrow>
     (\<forall>a. unat a < 2 ^ 52 \<longrightarrow> (\<exists>f. containing_frame X a = Some f \<and> unat (frame_start f) = unat a div 4096 * 4096))
     \<and> (\<forall>a. unat (page_start (containing_page X a)) = unat a div 4096 * 4096)
     \<and> (\<forall>p q. unat (page_start p) \<le> unat (page_start q) \<longrightarrow>
          map (unat \<circ> page_start) (range_inclusive X p q) =
          map (\<lambda>i. unat (page_start p) + i * 4096) [0..<Suc ((unat (page_start q) - unat (page_start p)) div 4096)])
     \<and> virt_add X HEAP_START HEAP_SIZE = Some (HEAP_START + HEAP_SIZE)"

lemma avail_frames_init:
  assumes "paging_laws X frame_start page_start" "memory_map usable rs"
  shows "map (unat \<circ> frame_start) (avail_frames X usable (frame_allocator_init rs)) = usable_frames usable rs"
    "addrs_valid X usable (frame_allocator_init rs)" "distinct (avail_frames X usable (frame_allocator_init rs))"
proof -
  let ?as = "addrs usable (frame_allocator_init rs)"
  have u: "map unat ?as = usable_frames usable rs" by (rule usable_addrs [OF assms(2)])
  have f: "\<exists>f. containing_frame X a = Some f \<and> unat (frame_start f) = unat a" if "a \<in> set ?as" for a
  proof -
    have "unat a \<in> set (usable_frames usable rs)" using that u [symmetric] by simp
    note b = usable_frames_bounds(1,2) [OF assms(2) this]
    from b(1) have "unat a div 4096 * 4096 = unat a" by simp
    then show ?thesis using assms(1) b(2) unfolding paging_laws_def by metis
  qed
  then have "unat (frame_start (the (containing_frame X a))) = unat a" if "a \<in> set ?as" for a using that by (metis option.sel)
  then have "map (unat \<circ> frame_start \<circ> the \<circ> containing_frame X) ?as = map unat ?as" by (intro map_cong) auto
  with u show m: "map (unat \<circ> frame_start) (avail_frames X usable (frame_allocator_init rs)) = usable_frames usable rs"
    by (simp add: avail_frames_def comp_assoc)
  from f show "addrs_valid X usable (frame_allocator_init rs)" by (auto simp: addrs_valid_def)
  show "distinct (avail_frames X usable (frame_allocator_init rs))"
    using distinct_usable_frames [OF assms(2)] unfolding m [symmetric] distinct_map by blast
qed

lemma heap_pages_laws:
  assumes "paging_laws X frame_start page_start"
  obtains ps where "heap_pages X = Some ps" "map (unat \<circ> page_start) ps = map (\<lambda>i. unat HEAP_START + i * 4096) [0..<25]"
proof -
  let ?p = "containing_page X HEAP_START" let ?q = "containing_page X (HEAP_START + HEAP_SIZE - 1)"
  have s: "unat (page_start ?p) = unat HEAP_START div 4096 * 4096" "unat (page_start ?q) = unat (HEAP_START + HEAP_SIZE - 1) div 4096 * 4096"
    using assms unfolding paging_laws_def by blast+
  then have n: "unat (page_start ?p) = unat HEAP_START" "unat (page_start ?q) = unat HEAP_START + 24 * 4096"
    by (simp_all add: HEAP_START_def HEAP_SIZE_def)
  have "heap_pages X = Some (range_inclusive X ?p ?q)" using assms by (simp add: heap_pages_def paging_laws_def)
  moreover have "map (unat \<circ> page_start) (range_inclusive X ?p ?q) =
      map (\<lambda>i. unat (page_start ?p) + i * 4096) [0..<Suc ((unat (page_start ?q) - unat (page_start ?p)) div 4096)]"
    using assms n unfolding paging_laws_def by (metis le_add1)
  moreover have "Suc ((unat (page_start ?q) - unat (page_start ?p)) div 4096) = 25" unfolding n by simp
  ultimately show ?thesis using that unfolding n(1) by metis
qed

lemma memory_init_heap:
  "\<lbrakk>virt_add X off cr3 = Some table;
    init_heap X (allocate_frame X usable) map_to (opt table off) (frame_allocator_init rs) None = Some (r, m, al, h)\<rbrakk>
   \<Longrightarrow> memory_init X usable map_to opt cr3 off rs = (if isl r then None else Some (m, h))"
  by (cases r) (simp_all add: memory_init_def active_level_4_table_def)

section \<open>Properties\<close>

text \<open>A concrete paging library: frames and pages are their start addresses, page tables need no frames.\<close>

definition demo_paging :: "(u64, u64, nat) paging" where
  "demo_paging = \<lparr>containing_frame = \<lambda>a. if a < 2 ^ 52 then Some (of_nat (unat a div 4096 * 4096)) else None,
     containing_page = \<lambda>a. of_nat (unat a div 4096 * 4096),
     range_inclusive = \<lambda>p q. map (\<lambda>i. p + of_nat i * 4096) [0..<Suc ((unat q - unat p) div 4096)],
     virt_add = \<lambda>a b. Some (a + b), FrameAllocationFailed = 0\<rparr>"

definition demo_map_to :: "(u64, u64, nat, u64 \<rightharpoonup> u64 \<times> flag set, 'a) map_to" where
  "demo_map_to alloc p f fl m al = Some (if m p = None then (Inr (), m(p \<mapsto> (f, fl)), al) else (Inl 1, m, al))"

definition demo_regions :: "bool entry list" where
  "demo_regions = [\<lparr>base = 0, entry_length = 4096, entry_type = False\<rparr>, \<lparr>base = 8192, entry_length = 409600, entry_type = True\<rparr>]"

lemma unat_page: "unat (of_nat (unat (a :: u64) div 4096) * 4096 :: u64) = unat a div 4096 * 4096"
proof -
  have "unat a div 4096 * 4096 \<le> unat a" by simp
  also have "\<dots> < 2 ^ 64" using unsigned_less [of a, where ?'a = nat] by simp
  finally have "unat (of_nat (unat a div 4096 * 4096) :: u64) = unat a div 4096 * 4096" by (rule unat_of_nat_small)
  then show ?thesis by simp
qed

lemma demo_range:
  fixes p q :: u64
  assumes "unat p \<le> unat q"
  shows "map unat (map (\<lambda>i. p + of_nat i * 4096) [0..<Suc ((unat q - unat p) div 4096)]) =
    map (\<lambda>i. unat p + i * 4096) [0..<Suc ((unat q - unat p) div 4096)]"
proof -
  have "unat (p + of_nat i * 4096) = unat p + i * 4096" if "i < Suc ((unat q - unat p) div 4096)" for i
  proof -
    have "i * 4096 \<le> unat q - unat p" using that by (simp add: less_Suc_eq_le less_eq_div_iff_mult_less_eq)
    then have b: "unat p + i * 4096 < 2 ^ 64" using assms unsigned_less [of q, where ?'a = nat] by simp
    then show ?thesis by (simp add: unat_word_ariths unat_of_nat)
  qed
  then show ?thesis by simp
qed

lemma demo_laws: "paging_laws demo_paging id id" "memory_map True demo_regions" "length (usable_frames True demo_regions) = 100"
proof -
  show "paging_laws demo_paging id id"
    unfolding paging_laws_def demo_paging_def using demo_range
    by (simp add: unat_page word_less_nat_alt del: upt_Suc map_map)
qed (auto simp: demo_regions_def memory_map_def usable_frames_def entry_frames_def)

lemma demo_mapper: "mapper_laws alloc avail valid id (\<lambda>m p. m p = None) demo_map_to"
  unfolding mapper_laws_def demo_map_to_def by (auto intro: exI [of _ 0])

text \<open>
  C33: on a well-formed memory map \<open>allocate_frame\<close> hands out each frame of the usable regions exactly once, in
  the order of the map, and then none; every frame lies in a usable region as a whole.
\<close>

theorem frames_usable_once:
  assumes "paging_laws X frame_start page_start" "memory_map usable rs"
  shows "\<exists>fs al. alloc_n (allocate_frame X usable) n (frame_allocator_init rs)
      = Some (map Some (take n fs) @ replicate (n - length fs) None, al)
    \<and> map (unat \<circ> frame_start) fs = usable_frames usable rs \<and> distinct fs
    \<and> (\<forall>f \<in> set fs. \<exists>x \<in> set rs. entry_type x = usable \<and> unat (base x) \<le> unat (frame_start f)
         \<and> unat (frame_start f) + 4096 \<le> unat (base x) + unat (entry_length x))"
proof -
  note i = avail_frames_init [OF assms]
  have "unat (frame_start f) \<in> set (usable_frames usable rs)" if "f \<in> set (avail_frames X usable (frame_allocator_init rs))" for f
    using that unfolding i(1) [symmetric] by auto
  then show ?thesis using boot.alloc_n_avail [OF i(2), of n] i(1,3) usable_frames_bounds(3) [OF assms(2)] by blast
qed

theorem frames_usable_once_witness:
  "\<exists>fs al. alloc_n (allocate_frame demo_paging True) 101 (frame_allocator_init demo_regions) = Some (map Some fs @ [None], al)
    \<and> distinct fs \<and> length fs = 100"
proof -
  obtain fs al where fs: "alloc_n (allocate_frame demo_paging True) 101 (frame_allocator_init demo_regions)
      = Some (map Some (take 101 fs) @ replicate (101 - length fs) None, al)"
    "map (unat \<circ> id) fs = usable_frames True demo_regions" "distinct fs"
    using frames_usable_once [OF demo_laws(1,2), of 101] by blast
  have "length fs = 100" using arg_cong [OF fs(2), of length] demo_laws(3) by simp
  then show ?thesis using fs(1,3) by auto
qed

lemma heap_mapped:
  assumes "paging_laws X frame_start page_start" "memory_map usable rs"
    "mapper_laws (allocate_frame X usable) (avail_frames X usable) (addrs_valid X usable) mapped free map_to"
    "virt_add X off cr3 = Some table" "\<forall>p. unat HEAP_START \<le> unat (page_start p) \<and> unat (page_start p) < unat HEAP_START + unat HEAP_SIZE \<longrightarrow> free (opt table off) p"
  shows "\<exists>r m al h. init_heap X (allocate_frame X usable) map_to (opt table off) (frame_allocator_init rs) None = Some (r, m, al, h)
    \<and> memory_init X usable map_to opt cr3 off rs = (if isl r then None else Some (m, h))
    \<and> (isl r \<longrightarrow> h = None)
    \<and> (\<not> isl r \<longrightarrow> h = Some (HEAP_START, HEAP_SIZE) \<and> (\<exists>ps fs. map (unat \<circ> page_start) ps = map (\<lambda>i. unat HEAP_START + i * 4096) [0..<25]
         \<and> maps_pages ps fs (mapped (opt table off)) (mapped m) \<and> unat ` frame_start ` set fs \<subseteq> set (usable_frames usable rs)))
    \<and> (100 \<le> length (usable_frames usable rs) \<longrightarrow> r = Inr ())
    \<and> (usable_frames usable rs = [] \<longrightarrow> r = Inl (FrameAllocationFailed X))"
proof -
  let ?al = "frame_allocator_init rs"
  note i = avail_frames_init [OF assms(1,2)]
  obtain ps where ps: "heap_pages X = Some ps" "map (unat \<circ> page_start) ps = map (\<lambda>i. unat HEAP_START + i * 4096) [0..<25]"
    by (rule heap_pages_laws [OF assms(1)])
  have len: "length ps = 25" using arg_cong [OF ps(2), of length] by simp
  have "distinct (map (unat \<circ> page_start) ps)" unfolding ps(2) by (simp add: distinct_map inj_on_def)
  then have d: "distinct ps" by (simp only: distinct_map)
  have "unat (page_start p) \<in> set (map (unat \<circ> page_start) ps)" if "p \<in> set ps" for p using that by simp
  then have "unat HEAP_START \<le> unat (page_start p) \<and> unat (page_start p) < unat HEAP_START + unat HEAP_SIZE" if "p \<in> set ps" for p
    using that unfolding ps(2) by (force simp: HEAP_SIZE_def)
  then have fr: "\<forall>p \<in> set ps. free (opt table off) p" using assms(5) by blast
  have l: "4 * length ps = 100" "(ps \<noteq> []) = True" using len by auto
  obtain r m al where m: "map_pages X (allocate_frame X usable) map_to ps (opt table off) ?al = Some (r, m, al)"
    "\<not> isl r \<longrightarrow> (\<exists>fs. set fs \<subseteq> set (avail_frames X usable ?al) \<and> maps_pages ps fs (mapped (opt table off)) (mapped m))"
    "100 \<le> length (avail_frames X usable ?al) \<longrightarrow> r = Inr ()" "avail_frames X usable ?al = [] \<longrightarrow> r = Inl (FrameAllocationFailed X)"
    using boot.map_pages_total [OF assms(3) i(2,3) d fr, of X] unfolding l by blast
  have h: "init_heap X (allocate_frame X usable) map_to (opt table off) ?al None = Some (r, m, al, if isl r then None else Some (HEAP_START, HEAP_SIZE))"
    by (cases r) (simp_all add: init_heap_def ps(1) m(1))
  have u: "unat ` frame_start ` set (avail_frames X usable ?al) = set (usable_frames usable rs)"
    "length (avail_frames X usable ?al) = length (usable_frames usable rs)"
    unfolding i(1) [symmetric] by (simp_all add: image_comp)
  then have n: "avail_frames X usable ?al = [] \<longleftrightarrow> usable_frames usable rs = []" by auto
  show ?thesis
  proof (intro exI [of _ r] exI [of _ m] exI [of _ al] exI [of _ "if isl r then None else Some (HEAP_START, HEAP_SIZE)"] conjI impI)
    show "memory_init X usable map_to opt cr3 off rs = (if isl r then None else Some (m, if isl r then None else Some (HEAP_START, HEAP_SIZE)))"
      by (rule memory_init_heap) (rule assms(4), rule h)
    show "\<exists>ps fs. map (unat \<circ> page_start) ps = map (\<lambda>i. unat HEAP_START + i * 4096) [0..<25]
        \<and> maps_pages ps fs (mapped (opt table off)) (mapped m) \<and> unat ` frame_start ` set fs \<subseteq> set (usable_frames usable rs)"
      if "\<not> isl r" using m(2) that ps(2) u(1) by blast
    show "r = Inr ()" if "100 \<le> length (usable_frames usable rs)" using m(3) that u(2) by simp
    show "r = Inl (FrameAllocationFailed X)" if "usable_frames usable rs = []" using m(4) that n by simp
  qed (simp_all add: h)
qed

text \<open>
  C30: \<open>init_heap\<close> returns. When the usable memory has 100 frames it succeeds: the 25 pages of the heap are mapped,
  present and writable, to distinct usable frames, no other mapping changes, and the global
  allocator gets exactly this area. On an error, as without usable memory, the allocator is not
  given anything, and \<open>memory::init\<close> panics.
\<close>

theorem heap_is_mapped:
  assumes "paging_laws X frame_start page_start" "memory_map usable rs"
    "mapper_laws (allocate_frame X usable) (avail_frames X usable) (addrs_valid X usable) mapped free map_to"
    "virt_add X off cr3 = Some table" "\<forall>p. unat HEAP_START \<le> unat (page_start p) \<and> unat (page_start p) < unat HEAP_START + unat HEAP_SIZE \<longrightarrow> free (opt table off) p"
  shows "\<exists>r m al h. init_heap X (allocate_frame X usable) map_to (opt table off) (frame_allocator_init rs) None = Some (r, m, al, h)
    \<and> memory_init X usable map_to opt cr3 off rs = (if isl r then None else Some (m, h))
    \<and> (isl r \<longrightarrow> h = None)
    \<and> (\<not> isl r \<longrightarrow> h = Some (HEAP_START, HEAP_SIZE) \<and> (\<exists>ps fs. map (unat \<circ> page_start) ps = map (\<lambda>i. unat HEAP_START + i * 4096) [0..<25]
         \<and> maps_pages ps fs (mapped (opt table off)) (mapped m) \<and> unat ` frame_start ` set fs \<subseteq> set (usable_frames usable rs)))
    \<and> (100 \<le> length (usable_frames usable rs) \<longrightarrow> r = Inr ())
    \<and> (usable_frames usable rs = [] \<longrightarrow> r = Inl (FrameAllocationFailed X))"
  by (rule heap_mapped [where opt = opt, OF assms])

theorem heap_is_mapped_witness:
  "\<exists>m. memory_init demo_paging True demo_map_to (\<lambda>_ _. Map.empty) 4096 0 demo_regions = Some (m, Some (HEAP_START, HEAP_SIZE))"
proof -
  obtain r m al h where m: "memory_init demo_paging True demo_map_to (\<lambda>_ _. Map.empty) 4096 0 demo_regions = (if isl r then None else Some (m, h))"
    "\<not> isl r \<longrightarrow> h = Some (HEAP_START, HEAP_SIZE)" "r = Inr ()"
    using heap_is_mapped [OF demo_laws(1,2) demo_mapper, of 0 4096 4096 "\<lambda>_ _. Map.empty"] demo_laws(3) by (auto simp: demo_paging_def)
  then show ?thesis by auto
qed

end
