(* ===== verification/Apic.thy ===== *)
theory Apic
  imports Memory
begin

text \<open>
  The interrupt controllers (\<^verbatim>\<open>arch/x86_64/apic.rs\<close>): the registers of a local APIC, the index and data
  registers of an I/O APIC, and their initialisation. The devices are a parameter: what a volatile read
  or write of a 32-bit register at an address does to them. What the \<^verbatim>\<open>acpi\<close> crate reports of the platform is
  an argument.
\<close>

section \<open>Devices and registers\<close>

record 'd mmio =
  read_volatile :: "usize \<Rightarrow> 'd \<Rightarrow> u32 \<times> 'd"
  write_volatile :: "usize \<Rightarrow> u32 \<Rightarrow> 'd \<Rightarrow> 'd"

definition APIC_TIMER_PERIODIC :: u32 where "APIC_TIMER_PERIODIC = 0x20000"
definition APIC_MASKED :: u32 where "APIC_MASKED = 0x10000"
definition LAPIC_ID_REG :: usize where "LAPIC_ID_REG = 0x020"
definition LAPIC_LVT_TIMER_REG :: usize where "LAPIC_LVT_TIMER_REG = 0x320"
definition LAPIC_LVT_LINT0_REG :: usize where "LAPIC_LVT_LINT0_REG = 0x350"
definition LAPIC_LVT_LINT1_REG :: usize where "LAPIC_LVT_LINT1_REG = 0x360"
definition LAPIC_TIMER_INITCNT_REG :: usize where "LAPIC_TIMER_INITCNT_REG = 0x380"
definition LAPIC_TIMER_CURRCNT_REG :: usize where "LAPIC_TIMER_CURRCNT_REG = 0x390"
definition LAPIC_TIMER_DIV_REG :: usize where "LAPIC_TIMER_DIV_REG = 0x3E0"
definition IOAPICVER :: u8 where "IOAPICVER = 1"

datatype interrupt_index = Timer | ScratchTimer

fun as_u8 :: "interrupt_index \<Rightarrow> u8" where
  "as_u8 Timer = 32"
| "as_u8 ScratchTimer = 33"

section \<open>The local APIC\<close>

record lapic =
  lapic_ptr :: usize

definition lapic_register_at :: "lapic \<Rightarrow> usize \<Rightarrow> usize" where
  "lapic_register_at l offset = lapic_ptr l + offset"

definition lapic_read :: "'d mmio \<Rightarrow> lapic \<Rightarrow> usize \<Rightarrow> 'd \<Rightarrow> u32 \<times> 'd" where
  "lapic_read D l offset d = read_volatile D (lapic_register_at l offset) d"

definition lapic_write :: "'d mmio \<Rightarrow> lapic \<Rightarrow> usize \<Rightarrow> u32 \<Rightarrow> 'd \<Rightarrow> 'd" where
  "lapic_write D l offset v d = write_volatile D (lapic_register_at l offset) v d"

definition lapic_update :: "'d mmio \<Rightarrow> lapic \<Rightarrow> usize \<Rightarrow> (u32 \<Rightarrow> u32) \<Rightarrow> 'd \<Rightarrow> 'd" where
  "lapic_update D l offset f d = (let (reg, d) = lapic_read D l offset d in lapic_write D l offset (f reg) d)"

definition end_of_interrupt :: "'d mmio \<Rightarrow> lapic \<Rightarrow> 'd \<Rightarrow> 'd" where
  "end_of_interrupt D l d = lapic_write D l 0xB0 0 d"

partial_function (option) icr_wait_for_delivery :: "'d mmio \<Rightarrow> lapic \<Rightarrow> 'd \<Rightarrow> 'd option" where
  "icr_wait_for_delivery D l d =
     (let (v, d) = lapic_read D l 0x300 d
      in if v AND push_bit 12 1 \<noteq> 0 then icr_wait_for_delivery D l d else Some d)"

definition lapic_id :: "'d mmio \<Rightarrow> lapic \<Rightarrow> 'd \<Rightarrow> u32 \<times> 'd" where
  "lapic_id D l d = lapic_read D l LAPIC_ID_REG d"

definition lapic_set_id :: "'d mmio \<Rightarrow> lapic \<Rightarrow> u32 \<Rightarrow> 'd \<Rightarrow> 'd" where
  "lapic_set_id D l i d = lapic_write D l LAPIC_ID_REG i d"

section \<open>I/O APICs\<close>

record ioapic =
  ioapic_ptr :: usize

text \<open>\<open>register_at\<close> selects a register through IOREGSEL and returns the address of IOWIN.\<close>

definition ioapic_register_at :: "'d mmio \<Rightarrow> ioapic \<Rightarrow> u8 \<Rightarrow> 'd \<Rightarrow> usize \<times> 'd" where
  "ioapic_register_at D io offset d = (ioapic_ptr io + 0x10, write_volatile D (ioapic_ptr io) (ucast offset) d)"

definition ioapic_read :: "'d mmio \<Rightarrow> ioapic \<Rightarrow> u8 \<Rightarrow> 'd \<Rightarrow> u32 \<times> 'd" where
  "ioapic_read D io offset d = (let (a, d) = ioapic_register_at D io offset d in read_volatile D a d)"

definition ioapic_write :: "'d mmio \<Rightarrow> ioapic \<Rightarrow> u8 \<Rightarrow> u32 \<Rightarrow> 'd \<Rightarrow> 'd" where
  "ioapic_write D io offset v d = (let (a, d) = ioapic_register_at D io offset d in write_volatile D a v d)"

definition ioapic_update :: "'d mmio \<Rightarrow> ioapic \<Rightarrow> u8 \<Rightarrow> (u32 \<Rightarrow> u32) \<Rightarrow> 'd \<Rightarrow> 'd" where
  "ioapic_update D io offset f d = (let (reg, d) = ioapic_read D io offset d in ioapic_write D io offset (f reg) d)"

section \<open>Initialisation\<close>

text \<open>What the \<^verbatim>\<open>acpi\<close> crate reports; \<open>boot_processor\<close> is the APIC identifier of the boot processor, if known.\<close>

record source_override =
  isa_source :: u8
  global_system_interrupt :: u32

record io_apic_info =
  io_address :: u32
  global_system_interrupt_base :: u32

record apic_info =
  local_apic_address :: u64
  interrupt_source_overrides :: "source_override list"
  io_apics :: "io_apic_info list"

datatype interrupt_model = Apic_Model apic_info | Unknown_Model

record platform_info =
  interrupt_model :: interrupt_model
  boot_processor :: "u32 option"

fun apic_of :: "platform_info \<Rightarrow> apic_info option" where
  "apic_of p = (case interrupt_model p of Apic_Model a \<Rightarrow> Some a | Unknown_Model \<Rightarrow> None)"

definition init_lapic :: "'d mmio \<Rightarrow> platform_info \<Rightarrow> phys_mapper \<Rightarrow> 'd \<Rightarrow> (lapic \<times> 'd) option" where
  "init_lapic D p mp d = do {
     apic \<leftarrow> apic_of p;
     start_ptr \<leftarrow> phys_to_virt_ptr mp (local_apic_address apic);
     let l = \<lparr>lapic_ptr = start_ptr\<rparr>;
     let d = lapic_update D l 0xF0 (\<lambda>reg. reg OR 0x100) d;
     let d = fold (\<lambda>reg. lapic_write D l reg APIC_MASKED) [LAPIC_LVT_TIMER_REG, LAPIC_LVT_LINT0_REG, LAPIC_LVT_LINT1_REG] d;
     Some (l, d) }"

text \<open>One redirection entry of an I/O APIC: the timer's entry is programmed, every other one is masked.\<close>

definition init_redirection :: "'d mmio \<Rightarrow> ioapic \<Rightarrow> u32 \<Rightarrow> u32 \<Rightarrow> u32 \<Rightarrow> u8 \<Rightarrow> (ioapic \<times> u8) option \<times> 'd \<Rightarrow> (ioapic \<times> u8) option \<times> 'd" where
  "init_redirection D io gsi_base overriden_index bsp_acpi_id idx = (\<lambda>(found_reg, d).
     let reg = 0x10 + idx * 2
     in if ucast idx + gsi_base = overriden_index then
          let d = ioapic_write D io reg (ucast (as_u8 Timer)) d;
              d = ioapic_write D io (reg + 1) bsp_acpi_id d
          in (Some (io, reg), d)
        else (found_reg, ioapic_update D io reg (\<lambda>v. v OR push_bit 16 1) d))"

definition init_one_ioapic :: "'d mmio \<Rightarrow> platform_info \<Rightarrow> phys_mapper \<Rightarrow> u32 \<Rightarrow> io_apic_info
    \<Rightarrow> (ioapic \<times> u8) option \<times> 'd \<Rightarrow> ((ioapic \<times> u8) option \<times> 'd) option" where
  "init_one_ioapic D p mp overriden_index info = (\<lambda>(found_reg, d). do {
     ptr \<leftarrow> phys_to_virt_ptr mp (ucast (io_address info));
     let io = \<lparr>ioapic_ptr = ptr\<rparr>;
     let (ioapicver, d) = ioapic_read D io IOAPICVER d;
     let max_redir_count = (ucast (drop_bit 16 ioapicver) + 1 :: u8);
     bsp \<leftarrow> boot_processor p;
     let bsp_acpi_id = push_bit (56 - 32) bsp;
     Some (fold (\<lambda>i. init_redirection D io (global_system_interrupt_base info) overriden_index bsp_acpi_id (of_nat i))
       [0..<unat max_redir_count] (found_reg, d)) })"

definition init_ioapic :: "'d mmio \<Rightarrow> platform_info \<Rightarrow> phys_mapper \<Rightarrow> 'd \<Rightarrow> ((ioapic \<times> u8) \<times> 'd) option" where
  "init_ioapic D p mp d = do {
     apic \<leftarrow> apic_of p;
     pit \<leftarrow> find (\<lambda>ov. isa_source ov = 0) (interrupt_source_overrides apic);
     (found_reg, d) \<leftarrow> for_in (io_apics apic) (init_one_ioapic D p mp (global_system_interrupt pit)) (None, d);
     r \<leftarrow> found_reg;
     Some (r, d) }"

section \<open>The documented behaviour of an I/O APIC\<close>

text \<open>
  \<open>sel d p\<close> is the register that the I/O APIC at \<open>p\<close> has selected, \<open>reg d p i\<close> the value of its register \<open>i\<close>. A
  write to a redirection entry changes its writable bits (vector, modes, polarity, trigger and mask
  in the low word, the destination in the high word).
\<close>

definition writable :: "u8 \<Rightarrow> u32" where
  "writable i = (if even (unat i) then 0x1AFFF else 0xFF000000)"

definition ioapic_laws :: "'d mmio \<Rightarrow> usize set \<Rightarrow> ('d \<Rightarrow> usize \<Rightarrow> u8) \<Rightarrow> ('d \<Rightarrow> usize \<Rightarrow> u8 \<Rightarrow> u32) \<Rightarrow> bool" where
  "ioapic_laws D P sel reg \<longleftrightarrow> (\<forall>p \<in> P. \<forall>d v.
     sel (write_volatile D p v d) p = ucast v \<and> reg (write_volatile D p v d) = reg d
     \<and> read_volatile D (p + 0x10) d = (reg d p (sel d p), d)
     \<and> (0x10 \<le> sel d p \<longrightarrow> (\<forall>q i. reg (write_volatile D (p + 0x10) v d) q i =
          (if q = p \<and> i = sel d p then (reg d p i AND NOT (writable i)) OR (v AND writable i) else reg d q i))))"

lemma ucast_u8_u32 [simp]: "ucast (ucast (x :: u8) :: u32) = x"
  by (rule bit_eqI) (auto simp: bit_simps dest: bit_imp_le_length)

lemma ioapic_write_reg:
  assumes "ioapic_laws D P sel reg" "ioapic_ptr io \<in> P" "0x10 \<le> off"
  shows "reg (ioapic_write D io off v d) q i = (if q = ioapic_ptr io \<and> i = off
    then (reg d q i AND NOT (writable i)) OR (v AND writable i) else reg d q i)"
  using assms unfolding ioapic_laws_def by (simp add: ioapic_write_def ioapic_register_at_def)

lemma ioapic_read_reg:
  assumes "ioapic_laws D P sel reg" "ioapic_ptr io \<in> P" "ioapic_read D io off d = (v, d')"
  shows "v = reg d (ioapic_ptr io) off" "reg d' = reg d"
  using assms unfolding ioapic_laws_def by (auto simp: ioapic_read_def ioapic_register_at_def)

lemma ioapic_update_reg:
  assumes "ioapic_laws D P sel reg" "ioapic_ptr io \<in> P" "0x10 \<le> off"
  shows "reg (ioapic_update D io off f d) q i = (if q = ioapic_ptr io \<and> i = off
    then (reg d q i AND NOT (writable i)) OR (f (reg d q i) AND writable i) else reg d q i)"
proof -
  obtain v d' where r: "ioapic_read D io off d = (v, d')" by fastforce
  show ?thesis using ioapic_read_reg [OF assms(1,2) r] ioapic_write_reg [OF assms] by (simp add: ioapic_update_def r)
qed

section \<open>Initialised redirection entries\<close>

text \<open>
  Entry \<open>k\<close> of the I/O APIC at \<open>p\<close> is initialised: the entry of the timer sends vector 32 to the boot
  processor and is not masked, every other entry is masked.
\<close>

definition entry_reg :: "nat \<Rightarrow> u8" where "entry_reg k = of_nat (16 + 2 * k)"

definition entry_done :: "('d \<Rightarrow> usize \<Rightarrow> u8 \<Rightarrow> u32) \<Rightarrow> u32 \<Rightarrow> u32 \<Rightarrow> u32 \<Rightarrow> 'd \<Rightarrow> usize \<Rightarrow> nat \<Rightarrow> bool" where
  "entry_done reg bsp gsi gsi_base d p k \<longleftrightarrow>
     (if of_nat k + gsi_base = gsi
      then reg d p (entry_reg k) AND writable (entry_reg k) = 32
           \<and> reg d p (entry_reg k + 1) AND writable (entry_reg k + 1) = push_bit 24 bsp
      else bit (reg d p (entry_reg k)) 16)"

lemma unat_entry_reg: "k < 120 \<Longrightarrow> unat (entry_reg k) = 16 + 2 * k" "k < 120 \<Longrightarrow> unat (entry_reg k + 1) = 17 + 2 * k"
  by (simp_all add: entry_reg_def unat_word_ariths unat_of_nat)

lemma entry_reg_code: "0x10 + of_nat k * 2 = entry_reg k"
  by (simp add: entry_reg_def)

lemma entry_reg_props:
  assumes "k < 120"
  shows "0x10 \<le> entry_reg k" "0x10 \<le> entry_reg k + 1" "entry_reg k + 1 \<noteq> entry_reg k" "entry_reg k \<noteq> entry_reg k + 1"
    "writable (entry_reg k) = 0x1AFFF" "writable (entry_reg k + 1) = push_bit 24 (mask 8)"
  using unat_entry_reg [OF assms] by (auto simp: word_le_nat_alt writable_def mask_eq_exp_minus_1 push_bit_eq_mult)

text \<open>The words that the code writes fit into the writable bits.\<close>

lemma masked_write: "v AND m = v \<Longrightarrow> ((x AND NOT m) OR v) AND m = (v :: u32)"
  by (simp add: and.commute [of _ m] bit.conj_disj_distrib and.left_commute [of m])

lemma entry_words:
  assumes "k < 120"
  shows "32 AND writable (entry_reg k) = 32" "push_bit 24 b AND writable (entry_reg k + 1) = push_bit 24 b"
    "bit (x AND NOT (writable (entry_reg k)) OR (x OR 65536) AND writable (entry_reg k)) 16"
proof -
  show "32 AND writable (entry_reg k) = 32" by (simp add: entry_reg_props [OF assms])
  show "push_bit 24 b AND writable (entry_reg k + 1) = push_bit 24 b"
    unfolding entry_reg_props(6) [OF assms] by (rule bit_eqI) (auto simp: bit_simps)
  have "bit (writable (entry_reg k)) 16" "bit (65536 :: u32) 16" by (simp_all add: entry_reg_props [OF assms])
  then show "bit (x AND NOT (writable (entry_reg k)) OR (x OR 65536) AND writable (entry_reg k)) 16"
    by (simp only: bit_or_iff bit_and_iff) simp
qed

lemma init_redirection_reg:
  assumes "ioapic_laws D P sel reg" "ioapic_ptr io \<in> P" "k < 120"
  defines "p \<equiv> ioapic_ptr io"
  shows "\<exists>d'. init_redirection D io gsi_base gsi (push_bit 24 bsp) (of_nat k) (found, d)
      = (if of_nat k + gsi_base = gsi then Some (io, entry_reg k) else found, d')
    \<and> entry_done reg bsp gsi gsi_base d' p k
    \<and> (\<forall>q i. q \<noteq> p \<or> i \<noteq> entry_reg k \<and> i \<noteq> entry_reg k + 1 \<longrightarrow> reg d' q i = reg d q i)"
proof -
  have u: "ucast (of_nat k :: u8) = (of_nat k :: u32)" using assms(3)
    by (intro word_unat_eq_iff [THEN iffD2]) (simp add: unat_of_nat unsigned_ucast_eq take_bit_nat_eq_self)
  note w = ioapic_write_reg [OF assms(1,2)] ioapic_update_reg [OF assms(1,2)]
  note r = entry_reg_props(1-4) [OF assms(3)] entry_words [OF assms(3)]
  show ?thesis
    by (cases "of_nat k + gsi_base = gsi")
      (simp_all add: init_redirection_def Let_def u entry_reg_code entry_done_def w r p_def masked_write)
qed

text \<open>The entries of one I/O APIC.\<close>

lemma entry_reg_neq:
  assumes "j < 120" "k < 120" "j \<noteq> k"
  shows "entry_reg j \<noteq> entry_reg k" "entry_reg j \<noteq> entry_reg k + 1" "entry_reg j + 1 \<noteq> entry_reg k" "entry_reg j + 1 \<noteq> entry_reg k + 1"
  using unat_entry_reg [OF assms(1)] unat_entry_reg [OF assms(2)] assms(3)
  by (auto dest!: arg_cong [where f = unat])

definition routes :: "u32 \<Rightarrow> u32 \<Rightarrow> nat \<Rightarrow> bool" where
  "routes gsi gsi_base k \<longleftrightarrow> of_nat k + gsi_base = gsi"

lemma routes_unique: "\<lbrakk>routes gsi b j; routes gsi b k; j < 120; k < 120\<rbrakk> \<Longrightarrow> j = k"
  by (auto simp: routes_def dest!: arg_cong [where f = "\<lambda>x. unat (x - b)"] simp: unat_of_nat)

lemma entry_done_cong:
  "\<lbrakk>reg d' p (entry_reg k) = reg d p (entry_reg k); reg d' p (entry_reg k + 1) = reg d p (entry_reg k + 1)\<rbrakk>
   \<Longrightarrow> entry_done reg bsp gsi b d' p k \<longleftrightarrow> entry_done reg bsp gsi b d p k"
  by (simp add: entry_done_def)

lemma init_entries:
  assumes "ioapic_laws D P sel reg" "ioapic_ptr io \<in> P" "n \<le> 120"
  defines "p \<equiv> ioapic_ptr io"
  shows "\<exists>found' d'. fold (\<lambda>i. init_redirection D io b gsi (push_bit 24 bsp) (of_nat i)) [0..<n] (found, d) = (found', d')
    \<and> (\<forall>k < n. entry_done reg bsp gsi b d' p k) \<and> (\<forall>q i. q \<noteq> p \<or> unat i < 16 \<longrightarrow> reg d' q i = reg d q i)
    \<and> (\<forall>k < n. routes gsi b k \<longrightarrow> found' = Some (io, entry_reg k)) \<and> ((\<forall>k < n. \<not> routes gsi b k) \<longrightarrow> found' = found)"
  using assms(3)
proof (induction n)
  case (Suc n)
  then have n: "n < 120" by simp
  let ?step = "\<lambda>i. init_redirection D io b gsi (push_bit 24 bsp) (of_nat i)"
  obtain f1 d1 where 1: "fold ?step [0..<n] (found, d) = (f1, d1)" "\<forall>k < n. entry_done reg bsp gsi b d1 p k"
    "\<forall>q i. q \<noteq> p \<or> unat i < 16 \<longrightarrow> reg d1 q i = reg d q i"
    "\<forall>k < n. routes gsi b k \<longrightarrow> f1 = Some (io, entry_reg k)" "(\<forall>k < n. \<not> routes gsi b k) \<longrightarrow> f1 = found"
    using Suc by auto
  obtain d2 where 2: "?step n (f1, d1) = (if routes gsi b n then Some (io, entry_reg n) else f1, d2)" "entry_done reg bsp gsi b d2 p n"
    "\<forall>q i. q \<noteq> p \<or> i \<noteq> entry_reg n \<and> i \<noteq> entry_reg n + 1 \<longrightarrow> reg d2 q i = reg d1 q i"
    using init_redirection_reg [OF assms(1,2) n, of b gsi bsp f1 d1] unfolding routes_def p_def by blast
  have "entry_done reg bsp gsi b d2 p k" if "k < n" for k
  proof -
    have "entry_done reg bsp gsi b d2 p k \<longleftrightarrow> entry_done reg bsp gsi b d1 p k"
      using entry_reg_neq [of k n] that n 2(3) by (intro entry_done_cong) auto
    then show ?thesis using 1(2) that by blast
  qed
  then have "\<forall>k < Suc n. entry_done reg bsp gsi b d2 p k" using 2(2) by (auto simp: less_Suc_eq)
  moreover have "reg d2 q i = reg d q i" if "q \<noteq> p \<or> unat i < 16" for q i
  proof -
    have "q \<noteq> p \<or> i \<noteq> entry_reg n \<and> i \<noteq> entry_reg n + 1" using that unat_entry_reg [OF n] by auto
    then show ?thesis using that 1(3) 2(3) by simp
  qed
  moreover have "\<forall>k < Suc n. routes gsi b k \<longrightarrow> (if routes gsi b n then Some (io, entry_reg n) else f1) = Some (io, entry_reg k)"
    using 1(4) routes_unique [of gsi b n] n by (auto simp: less_Suc_eq)
  moreover have "fold ?step [0..<Suc n] (found, d) = (if routes gsi b n then Some (io, entry_reg n) else f1, d2)" using 1(1) 2(1) by simp
  moreover have "(\<forall>k < Suc n. \<not> routes gsi b k) \<longrightarrow> (if routes gsi b n then Some (io, entry_reg n) else f1) = found" using 1(5) by auto
  ultimately show ?case by blast
qed simp

text \<open>The number of redirection entries that an I/O APIC reports, and the address of its registers.\<close>

definition redirections :: "('d \<Rightarrow> usize \<Rightarrow> u8 \<Rightarrow> u32) \<Rightarrow> 'd \<Rightarrow> usize \<Rightarrow> nat" where
  "redirections reg d p = Suc (unat (ucast (drop_bit 16 (reg d p IOAPICVER)) :: u8))"

definition io_ptr :: "phys_mapper \<Rightarrow> io_apic_info \<Rightarrow> usize" where
  "io_ptr mp info = phys_to_virt mp (ucast (io_address info))"

lemma init_one_ioapic_reg:
  assumes "ioapic_laws D P sel reg" "io_ptr mp info \<in> P" "0 \<notin> P" "boot_processor pf = Some bsp" "redirections reg d (io_ptr mp info) \<le> 120"
  defines "p \<equiv> io_ptr mp info"
  defines "b \<equiv> global_system_interrupt_base info"
  shows "\<exists>found' d'. init_one_ioapic D pf mp gsi info (found, d) = Some (found', d')
    \<and> (\<forall>k < redirections reg d p. entry_done reg bsp gsi b d' p k) \<and> (\<forall>q i. q \<noteq> p \<or> unat i < 16 \<longrightarrow> reg d' q i = reg d q i)
    \<and> (\<forall>k < redirections reg d p. routes gsi b k \<longrightarrow> found' = Some (\<lparr>ioapic_ptr = p\<rparr>, entry_reg k))
    \<and> ((\<forall>k < redirections reg d p. \<not> routes gsi b k) \<longrightarrow> found' = found)"
proof -
  let ?io = "\<lparr>ioapic_ptr = p\<rparr>"
  obtain v d1 where r: "ioapic_read D ?io IOAPICVER d = (v, d1)" by fastforce
  have io: "ioapic_ptr ?io \<in> P" "ioapic_ptr ?io = p" using assms(2) by (simp_all add: p_def)
  note v = ioapic_read_reg [OF assms(1) io(1) r, unfolded io(2)]
  have n: "unat (ucast (drop_bit 16 v) + 1 :: u8) = redirections reg d p"
    using assms(5) v(1) by (simp add: redirections_def p_def unat_word_ariths)
  have "p \<noteq> 0" using assms(2,3) by (auto simp: p_def)
  then have "init_one_ioapic D pf mp gsi info (found, d) =
      Some (fold (\<lambda>i. init_redirection D ?io b gsi (push_bit 24 bsp) (of_nat i)) [0..<redirections reg d p] (found, d1))"
    using r assms(4) by (simp add: init_one_ioapic_def phys_to_virt_ptr_def io_ptr_def [symmetric] p_def [symmetric] b_def [symmetric] n Let_def)
  then show ?thesis using init_entries [OF assms(1) io(1), of "redirections reg d p" b gsi bsp found d1] assms(5) unfolding io(2) v(2) p_def by auto
qed

lemma init_all_ioapics:
  assumes "ioapic_laws D P sel reg" "0 \<notin> P" "boot_processor pf = Some bsp"
    "\<forall>info \<in> set infos. io_ptr mp info \<in> P \<and> redirections reg d (io_ptr mp info) \<le> 120" "distinct (map (io_ptr mp) infos)"
  shows "\<exists>found' d'. for_in infos (init_one_ioapic D pf mp gsi) (found, d) = Some (found', d')
    \<and> (\<forall>info \<in> set infos. \<forall>k < redirections reg d (io_ptr mp info). entry_done reg bsp gsi (global_system_interrupt_base info) d' (io_ptr mp info) k)
    \<and> (\<forall>q i. q \<notin> io_ptr mp ` set infos \<or> unat i < 16 \<longrightarrow> reg d' q i = reg d q i)
    \<and> (found' = found \<and> (\<forall>info \<in> set infos. \<forall>k < redirections reg d (io_ptr mp info). \<not> routes gsi (global_system_interrupt_base info) k)
       \<or> (\<exists>info \<in> set infos. \<exists>k < redirections reg d (io_ptr mp info). routes gsi (global_system_interrupt_base info) k
            \<and> found' = Some (\<lparr>ioapic_ptr = io_ptr mp info\<rparr>, entry_reg k)))"
  using assms(4,5)
proof (induction infos arbitrary: found d)
  case (Cons info infos)
  let ?p = "io_ptr mp info" let ?b = "global_system_interrupt_base info"
  obtain f1 d1 where 1: "init_one_ioapic D pf mp gsi info (found, d) = Some (f1, d1)"
    "\<forall>k < redirections reg d ?p. entry_done reg bsp gsi ?b d1 ?p k" "\<forall>q i. q \<noteq> ?p \<or> unat i < 16 \<longrightarrow> reg d1 q i = reg d q i"
    "\<forall>k < redirections reg d ?p. routes gsi ?b k \<longrightarrow> f1 = Some (\<lparr>ioapic_ptr = ?p\<rparr>, entry_reg k)"
    "(\<forall>k < redirections reg d ?p. \<not> routes gsi ?b k) \<longrightarrow> f1 = found"
    using init_one_ioapic_reg [OF assms(1) _ assms(2,3), of mp info d gsi found] Cons.prems(1) by auto
  have v: "redirections reg d1 q = redirections reg d q" for q using 1(3) by (simp add: redirections_def IOAPICVER_def)
  obtain f2 d2 where 2: "for_in infos (init_one_ioapic D pf mp gsi) (f1, d1) = Some (f2, d2)"
    "\<forall>info \<in> set infos. \<forall>k < redirections reg d (io_ptr mp info). entry_done reg bsp gsi (global_system_interrupt_base info) d2 (io_ptr mp info) k"
    "\<forall>q i. q \<notin> io_ptr mp ` set infos \<or> unat i < 16 \<longrightarrow> reg d2 q i = reg d1 q i"
    "f2 = f1 \<and> (\<forall>info \<in> set infos. \<forall>k < redirections reg d (io_ptr mp info). \<not> routes gsi (global_system_interrupt_base info) k)
       \<or> (\<exists>info \<in> set infos. \<exists>k < redirections reg d (io_ptr mp info). routes gsi (global_system_interrupt_base info) k
            \<and> f2 = Some (\<lparr>ioapic_ptr = io_ptr mp info\<rparr>, entry_reg k))"
    using Cons.IH [of d1 f1] Cons.prems unfolding v by auto
  have "?p \<notin> io_ptr mp ` set infos" using Cons.prems(2) by simp
  then have "entry_done reg bsp gsi ?b d2 ?p k \<longleftrightarrow> entry_done reg bsp gsi ?b d1 ?p k" for k
    using 2(3) by (intro entry_done_cong) auto
  then have fin: "\<forall>i \<in> set (info # infos). \<forall>k < redirections reg d (io_ptr mp i). entry_done reg bsp gsi (global_system_interrupt_base i) d2 (io_ptr mp i) k"
    using 1(2) 2(2) by auto
  have same: "\<forall>q i. q \<notin> io_ptr mp ` set (info # infos) \<or> unat i < 16 \<longrightarrow> reg d2 q i = reg d q i" using 1(3) 2(3) by auto
  have "for_in (info # infos) (init_one_ioapic D pf mp gsi) (found, d) = Some (f2, d2)" using 1(1) 2(1) by simp
  moreover have "f2 = found \<and> (\<forall>i \<in> set (info # infos). \<forall>k < redirections reg d (io_ptr mp i). \<not> routes gsi (global_system_interrupt_base i) k)
       \<or> (\<exists>i \<in> set (info # infos). \<exists>k < redirections reg d (io_ptr mp i). routes gsi (global_system_interrupt_base i) k
            \<and> f2 = Some (\<lparr>ioapic_ptr = io_ptr mp i\<rparr>, entry_reg k))"
    using 1(4,5) 2(4) by (metis list.set_intros set_ConsD)
  ultimately show ?case using fin same by blast
qed simp


section \<open>Properties\<close>

text \<open>One I/O APIC with 24 entries at address \<open>0x1000\<close>, and a platform that has the timer at interrupt 2.\<close>

definition demo_io :: "(u8 \<times> (u8 \<Rightarrow> u32)) mmio" where
  "demo_io = \<lparr>read_volatile = \<lambda>a (s, f). (f s, (s, f)),
     write_volatile = \<lambda>a v (s, f). if a = 0x1000 then (ucast v, f)
       else if 0x10 \<le> s then (s, f(s := (f s AND NOT (writable s)) OR (v AND writable s))) else (s, f)\<rparr>"

definition demo_reg :: "u8 \<times> (u8 \<Rightarrow> u32) \<Rightarrow> usize \<Rightarrow> u8 \<Rightarrow> u32" where
  "demo_reg d q i = (if q = 0x1000 then snd d i else 0)"

definition demo_platform :: platform_info where
  "demo_platform = \<lparr>interrupt_model = Apic_Model \<lparr>local_apic_address = 0x2000,
     interrupt_source_overrides = [\<lparr>isa_source = 0, global_system_interrupt = 2\<rparr>],
     io_apics = [\<lparr>io_address = 0x1000, global_system_interrupt_base = 0\<rparr>]\<rparr>, boot_processor = Some 1\<rparr>"

lemma demo_io_laws: "ioapic_laws demo_io {0x1000} (\<lambda>d _. fst d) demo_reg"
  unfolding ioapic_laws_def by (auto simp: demo_io_def demo_reg_def fun_eq_iff)

text \<open>
  C34: \<open>init_ioapic\<close> on I/O APICs with at most 120 redirection entries each: if an entry of one of them is that of
  the timer's interrupt, it returns the I/O APIC and the register of the entry; the entry is
  programmed with the timer's vector, unmasked, for the boot processor, and all other entries of
  all I/O APICs are masked. If there is no such entry, it panics.
\<close>

theorem init_ioapic_routes_timer:
  assumes "ioapic_laws D P sel reg" "0 \<notin> P" "apic_of pf = Some apic" "boot_processor pf = Some bsp"
    "find (\<lambda>ov. isa_source ov = 0) (interrupt_source_overrides apic) = Some pit"
    "\<forall>info \<in> set (io_apics apic). io_ptr mp info \<in> P \<and> redirections reg d (io_ptr mp info) \<le> 120" "distinct (map (io_ptr mp) (io_apics apic))"
  shows "case init_ioapic D pf mp d of
      None \<Rightarrow> \<forall>info \<in> set (io_apics apic). \<forall>k < redirections reg d (io_ptr mp info).
        \<not> routes (global_system_interrupt pit) (global_system_interrupt_base info) k
    | Some ((io, r), d') \<Rightarrow>
        (\<exists>info \<in> set (io_apics apic). \<exists>k < redirections reg d (io_ptr mp info).
          routes (global_system_interrupt pit) (global_system_interrupt_base info) k \<and> ioapic_ptr io = io_ptr mp info \<and> r = entry_reg k)
        \<and> (\<forall>info \<in> set (io_apics apic). \<forall>k < redirections reg d (io_ptr mp info).
          entry_done reg bsp (global_system_interrupt pit) (global_system_interrupt_base info) d' (io_ptr mp info) k)"
proof -
  let ?gsi = "global_system_interrupt pit"
  obtain found d' where f: "for_in (io_apics apic) (init_one_ioapic D pf mp ?gsi) (None, d) = Some (found, d')"
    "\<forall>info \<in> set (io_apics apic). \<forall>k < redirections reg d (io_ptr mp info). entry_done reg bsp ?gsi (global_system_interrupt_base info) d' (io_ptr mp info) k"
    "found = None \<and> (\<forall>info \<in> set (io_apics apic). \<forall>k < redirections reg d (io_ptr mp info). \<not> routes ?gsi (global_system_interrupt_base info) k)
       \<or> (\<exists>info \<in> set (io_apics apic). \<exists>k < redirections reg d (io_ptr mp info). routes ?gsi (global_system_interrupt_base info) k
            \<and> found = Some (\<lparr>ioapic_ptr = io_ptr mp info\<rparr>, entry_reg k))"
    using init_all_ioapics [OF assms(1,2,4,6,7), of ?gsi None] by blast
  have "init_ioapic D pf mp d = (case found of None \<Rightarrow> None | Some r \<Rightarrow> Some (r, d'))"
    by (simp add: init_ioapic_def assms(3,5) f(1) del: apic_of.simps split: option.split)
  then show ?thesis using f(2,3) by fastforce
qed

theorem init_ioapic_routes_timer_witness:
  "\<exists>d'. init_ioapic demo_io demo_platform \<lparr>physical_memory_offset = 0\<rparr> (0, (\<lambda>_. 0)(1 := 0x170000)) = Some ((\<lparr>ioapic_ptr = 0x1000\<rparr>, 0x14), d')
    \<and> snd d' 0x14 AND 0x1AFFF = 32"
proof -
  let ?mp = "\<lparr>physical_memory_offset = 0\<rparr>" let ?d = "(0, (\<lambda>_. 0)(1 := 0x170000)) :: u8 \<times> (u8 \<Rightarrow> u32)"
  let ?info = "\<lparr>io_address = 0x1000, global_system_interrupt_base = 0\<rparr>"
  have p: "io_ptr ?mp ?info = 0x1000" by (simp add: io_ptr_def phys_to_virt_def)
  have n: "redirections demo_reg ?d 0x1000 = 24" by (simp add: redirections_def demo_reg_def IOAPICVER_def drop_bit_eq_div)
  have e: "entry_reg 2 = 0x14" "writable 0x14 = 0x1AFFF" by (simp_all add: entry_reg_def writable_def)
  have k: "routes 2 0 k \<longleftrightarrow> k = 2" if "k < 24" for k
    using that routes_unique [of 2 0 k 2] by (auto simp: routes_def)
  have two: "routes 2 0 2" by (simp add: routes_def)
  have 32: "snd d' 0x14 AND 0x1AFFF = 32" if "entry_done demo_reg 1 2 0 d' 0x1000 2" for d'
    using that by (simp add: entry_done_def e demo_reg_def)
  have "case init_ioapic demo_io demo_platform ?mp ?d of None \<Rightarrow> \<forall>k < 24. \<not> routes 2 0 k
    | Some ((io, r), d') \<Rightarrow> (\<exists>k < 24. routes 2 0 k \<and> ioapic_ptr io = 0x1000 \<and> r = entry_reg k) \<and> (\<forall>k < 24. entry_done demo_reg 1 2 0 d' 0x1000 k)"
    using init_ioapic_routes_timer [OF demo_io_laws, of demo_platform _ 1 "\<lparr>isa_source = 0, global_system_interrupt = 2\<rparr>" ?mp ?d]
    by (auto simp: demo_platform_def p n split: option.splits)
  then obtain io d' where "init_ioapic demo_io demo_platform ?mp ?d = Some ((io, entry_reg 2), d')" "ioapic_ptr io = 0x1000" "entry_done demo_reg 1 2 0 d' 0x1000 2"
    using two k by (cases "init_ioapic demo_io demo_platform ?mp ?d") fastforce+
  then show ?thesis using 32 e(1) by (cases io) auto
qed

end
