(* ===== verification/Time.thy ===== *)
theory Time
  imports Apic Cores
begin

text \<open>
  The timer (\<^verbatim>\<open>arch/x86_64/time.rs\<close> and the timer handlers of \<^verbatim>\<open>interrupts.rs\<close>): counting timer
  interrupts, the calibration of the local APIC's timer, and delays. The timer interrupts are given
  from outside: \<open>ints t\<close> of them are handled before the \<open>t\<close>-th look at the counter, if interrupts are
  enabled. A loop that waits for an interrupt that never comes is \<open>None\<close>, as is a panic. \<^verbatim>\<open>hlt\<close> only
  passes time.
\<close>

section \<open>State\<close>

record ('f, 'd) machine =
  kern :: "'f kernel"
  dev :: 'd
  if_flag :: bool
  APIC_TICKS_IN_10MS :: u32
  SCRATCH_TIMER :: usize
  looks :: nat

text \<open>\<open>cpu()\<close> on the running core, whose number \<open>id()\<close> reads from the local APIC.\<close>

definition cpu_here :: "'d mmio \<Rightarrow> lapic \<Rightarrow> ('f, 'd) machine \<Rightarrow> (u32 \<times> 'f core \<times> ('f, 'd) machine) option" where
  "cpu_here D l m = do {
     let (num, d) = lapic_id D l (dev m);
     (c, k) \<leftarrow> cpu num (kern m);
     Some (num, c, m\<lparr>kern := k, dev := d\<rparr>) }"

section \<open>Interrupt handlers\<close>

definition timer_interrupt_handler :: "'d mmio \<Rightarrow> lapic \<Rightarrow> ('f, 'd) machine \<Rightarrow> ('f, 'd) machine option" where
  "timer_interrupt_handler D l m = do {
     (num, c, m) \<leftarrow> cpu_here D l m;
     let m = m\<lparr>kern := (kern m)\<lparr>cpus := (cpus (kern m))[unat num := Some (c\<lparr>timer := timer c + 1\<rparr>)]\<rparr>\<rparr>;
     Some (m\<lparr>dev := end_of_interrupt D l (dev m)\<rparr>) }"

definition scratch_timer_interrupt_handler :: "'d mmio \<Rightarrow> lapic \<Rightarrow> ('f, 'd) machine \<Rightarrow> ('f, 'd) machine" where
  "scratch_timer_interrupt_handler D l m =
     m\<lparr>SCRATCH_TIMER := SCRATCH_TIMER m + 1, dev := end_of_interrupt D l (dev m)\<rparr>"

section \<open>Waiting for timer interrupts\<close>

definition deliver :: "'d mmio \<Rightarrow> lapic \<Rightarrow> (nat \<Rightarrow> nat) \<Rightarrow> ('f, 'd) machine \<Rightarrow> ('f, 'd) machine option" where
  "deliver D l ints m =
     for_in [0..<if if_flag m then ints (looks m) else 0] (\<lambda>_. timer_interrupt_handler D l) (m\<lparr>looks := Suc (looks m)\<rparr>)"

definition get_irq_cnt :: "'d mmio \<Rightarrow> lapic \<Rightarrow> (nat \<Rightarrow> nat) \<Rightarrow> ('f, 'd) machine \<Rightarrow> (usize \<times> ('f, 'd) machine) option" where
  "get_irq_cnt D l ints m = do {
     m \<leftarrow> deliver D l ints m;
     (_, c, m) \<leftarrow> cpu_here D l m;
     Some (timer c, m) }"

text \<open>The loops that spin or halt until the counter has moved on from \<open>cnt\<close>.\<close>

partial_function (option) wait_irq :: "'d mmio \<Rightarrow> lapic \<Rightarrow> (nat \<Rightarrow> nat) \<Rightarrow> usize \<Rightarrow> ('f, 'd) machine \<Rightarrow> (usize \<times> ('f, 'd) machine) option" where
  "wait_irq D l ints cnt m = do {
     (c, m) \<leftarrow> get_irq_cnt D l ints m;
     if c - cnt < 1 then wait_irq D l ints cnt m else Some (c, m) }"

section \<open>Calibration\<close>

text \<open>\<open>outb\<close> is a write to an I/O port of the programmable interval timer.\<close>

definition calibrate_apic_timer :: "'d mmio \<Rightarrow> (u16 \<Rightarrow> u8 \<Rightarrow> 'd \<Rightarrow> 'd) \<Rightarrow> lapic \<Rightarrow> (nat \<Rightarrow> nat) \<Rightarrow> ioapic \<Rightarrow> u8 \<Rightarrow> ('f, 'd) machine \<Rightarrow> ('f, 'd) machine option" where
  "calibrate_apic_timer D outb l ints io pitreg m = do {
     let divider = (11932 :: u16);
     let m = m\<lparr>dev := outb 0x40 (ucast (drop_bit 8 divider)) (outb 0x40 (ucast divider) (outb 0x43 0x34 (dev m)))\<rparr>;
     let m = m\<lparr>dev := lapic_write D l LAPIC_TIMER_DIV_REG 3
                         (lapic_write D l LAPIC_LVT_TIMER_REG (ucast (as_u8 ScratchTimer)) (dev m))\<rparr>;
     let m = m\<lparr>if_flag := True\<rparr>;
     (saved_pit_cnt, m) \<leftarrow> get_irq_cnt D l ints m;
     (curr_pit_cnt, m) \<leftarrow> wait_irq D l ints saved_pit_cnt m;
     let m = m\<lparr>dev := lapic_write D l LAPIC_TIMER_INITCNT_REG (-1) (dev m)\<rparr>;
     (_, m) \<leftarrow> wait_irq D l ints curr_pit_cnt m;
     let m = m\<lparr>dev := lapic_write D l LAPIC_LVT_TIMER_REG APIC_MASKED (dev m)\<rparr>;
     let (currcnt, d) = lapic_read D l LAPIC_TIMER_CURRCNT_REG (dev m);
     let apic_ticks_in_10ms = -1 - currcnt;
     let m = m\<lparr>dev := d, if_flag := False, APIC_TICKS_IN_10MS := apic_ticks_in_10ms\<rparr>;
     let m = m\<lparr>dev := ioapic_write D io pitreg APIC_MASKED (dev m)\<rparr>;
     Some (m\<lparr>dev := lapic_write D l LAPIC_TIMER_DIV_REG 3
                      (lapic_write D l LAPIC_TIMER_INITCNT_REG apic_ticks_in_10ms
                        (lapic_write D l LAPIC_LVT_TIMER_REG (ucast (as_u8 Timer) OR APIC_TIMER_PERIODIC) (dev m)))\<rparr>) }"

definition time_init :: "'d mmio \<Rightarrow> (u16 \<Rightarrow> u8 \<Rightarrow> 'd \<Rightarrow> 'd) \<Rightarrow> lapic \<Rightarrow> (nat \<Rightarrow> nat) \<Rightarrow> ioapic \<Rightarrow> u8 \<Rightarrow> ('f, 'd) machine \<Rightarrow> ('f, 'd) machine option" where
  "time_init D outb l ints io pitreg m = calibrate_apic_timer D outb l ints io pitreg m"

section \<open>Delays\<close>

definition get_tick :: "'d mmio \<Rightarrow> lapic \<Rightarrow> 'd \<Rightarrow> usize \<times> 'd" where
  "get_tick D l d = (let (t, d) = lapic_read D l LAPIC_TIMER_CURRCNT_REG d in (ucast t, d))"

partial_function (option) udelay_loop :: "'d mmio \<Rightarrow> lapic \<Rightarrow> usize \<Rightarrow> usize \<Rightarrow> 'd \<Rightarrow> 'd option" where
  "udelay_loop D l current_tick delay_ticks d =
     (let (t, d) = get_tick D l d
      in if current_tick - t < delay_ticks then udelay_loop D l current_tick delay_ticks d else Some d)"

definition udelay :: "'d mmio \<Rightarrow> lapic \<Rightarrow> usize \<Rightarrow> ('f, 'd) machine \<Rightarrow> ('f, 'd) machine option" where
  "udelay D l micros m = do {
     let ticks_per_10ms = ucast (APIC_TICKS_IN_10MS m);
     let delay_ticks = ticks_per_10ms * micros div 10000;
     let (current_tick, d) = get_tick D l (dev m);
     d \<leftarrow> udelay_loop D l current_tick delay_ticks d;
     Some (m\<lparr>dev := d\<rparr>) }"

function mdelay :: "'d mmio \<Rightarrow> lapic \<Rightarrow> (nat \<Rightarrow> nat) \<Rightarrow> nat \<Rightarrow> ('f, 'd) machine \<Rightarrow> ('f, 'd) machine option" where
  "mdelay D l ints millis m =
     (if 10 \<le> millis then do {
        (curr_irq_cnt, m) \<leftarrow> get_irq_cnt D l ints m;
        (_, m) \<leftarrow> wait_irq D l ints curr_irq_cnt m;
        mdelay D l ints (millis - 10) m }
      else Some m)"
  by auto
termination by (relation "measure (\<lambda>(_, _, _, millis, _). millis)") auto

text \<open>\<open>delay\<close> of a duration in nanoseconds; a number of milliseconds that does not fit 64 bits is a panic.\<close>

definition delay :: "'d mmio \<Rightarrow> lapic \<Rightarrow> (nat \<Rightarrow> nat) \<Rightarrow> nat \<Rightarrow> ('f, 'd) machine \<Rightarrow> ('f, 'd) machine option" where
  "delay D l ints dur m =
     (if dur div 1000 < 1000 then udelay D l (of_nat (dur div 1000)) m
      else if dur div 1000000 < 2 ^ 64 then mdelay D l ints (dur div 1000000) m
      else None)"

section \<open>The counter of timer interrupts\<close>

text \<open>
  The local APIC reports the number \<open>num\<close> whenever it is asked, and its core has counted \<open>n\<close> interrupts (none
  as long as the core has no state).
\<close>

definition lapic_number :: "'d mmio \<Rightarrow> lapic \<Rightarrow> u32 \<Rightarrow> bool" where
  "lapic_number D l num \<longleftrightarrow> (\<forall>d. lapic_id D l d = (num, d))"

definition counted :: "u32 \<Rightarrow> ('f, 'd) machine \<Rightarrow> usize \<Rightarrow> bool" where
  "counted num m n \<longleftrightarrow> unat num < length (cpus (kern m)) \<and> (case cpus (kern m) ! unat num of None \<Rightarrow> n = 0 | Some c \<Rightarrow> timer c = n)"

text \<open>Interrupts during the looks from \<open>a\<close> to \<open>b\<close>.\<close>

definition total :: "(nat \<Rightarrow> nat) \<Rightarrow> nat \<Rightarrow> nat \<Rightarrow> nat" where
  "total ints a b = sum ints {a..<b}"

lemma cpu_here_counted:
  assumes "lapic_number D l num" "counted num m n"
  obtains c m' where "cpu_here D l m = Some (num, c, m')" "timer c = n" "counted num m' n" "if_flag m' = if_flag m" "looks m' = looks m"
  using assms by (cases "cpus (kern m) ! unat num")
    (auto simp: lapic_number_def counted_def cpu_here_def cpu_def Let_def cpu_new_def)

lemma handler_counts:
  assumes "lapic_number D l num" "counted num m n"
  shows "\<exists>m'. timer_interrupt_handler D l m = Some m' \<and> counted num m' (n + 1) \<and> if_flag m' = if_flag m \<and> looks m' = looks m"
proof -
  obtain c m' where "cpu_here D l m = Some (num, c, m')" "timer c = n" "counted num m' n" "if_flag m' = if_flag m" "looks m' = looks m"
    by (rule cpu_here_counted [OF assms])
  then show ?thesis by (simp add: timer_interrupt_handler_def counted_def Let_def)
qed

lemma handlers_count:
  assumes "lapic_number D l num" "counted num m n"
  shows "\<exists>m'. for_in [0..<k] (\<lambda>_. timer_interrupt_handler D l) m = Some m' \<and> counted num m' (n + of_nat k) \<and> if_flag m' = if_flag m \<and> looks m' = looks m"
proof (induction k)
  case (Suc k)
  then obtain m1 where m1: "for_in [0..<k] (\<lambda>_. timer_interrupt_handler D l) m = Some m1" "counted num m1 (n + of_nat k)"
    "if_flag m1 = if_flag m" "looks m1 = looks m" by blast
  from handler_counts [OF assms(1) m1(2)] show ?case using m1 by (auto simp: for_in_append algebra_simps)
qed (use assms(2) in simp)

lemma get_irq_cnt_counts:
  assumes "lapic_number D l num" "counted num m n" "if_flag m"
  shows "\<exists>m'. get_irq_cnt D l ints m = Some (n + of_nat (ints (looks m)), m') \<and> counted num m' (n + of_nat (ints (looks m)))
    \<and> if_flag m' \<and> looks m' = Suc (looks m)"
proof -
  let ?m = "m\<lparr>looks := Suc (looks m)\<rparr>"
  have "counted num ?m n" using assms(2) by (simp add: counted_def)
  from handlers_count [OF assms(1) this, of "ints (looks m)"] obtain m1 where
    m1: "deliver D l ints m = Some m1" "counted num m1 (n + of_nat (ints (looks m)))" "if_flag m1" "looks m1 = Suc (looks m)"
    using assms(3) by (auto simp: deliver_def)
  obtain c m2 where "cpu_here D l m1 = Some (num, c, m2)" "timer c = n + of_nat (ints (looks m))"
    "counted num m2 (n + of_nat (ints (looks m)))" "if_flag m2 = if_flag m1" "looks m2 = looks m1"
    by (rule cpu_here_counted [OF assms(1) m1(2)])
  then show ?thesis using m1 by (simp add: get_irq_cnt_def)
qed

text \<open>Timer interrupts keep coming, and no burst of them makes the counter wrap around.\<close>

definition timer_runs :: "(nat \<Rightarrow> nat) \<Rightarrow> bool" where
  "timer_runs ints \<longleftrightarrow> (\<forall>t. \<exists>u \<ge> t. 0 < ints u) \<and> (\<forall>t. ints t < 2 ^ 64)"

lemma wait_irq_after:
  assumes "lapic_number D l num" "counted num m cnt" "if_flag m" "0 < ints (looks m + k)" "\<forall>t. ints t < 2 ^ 64" "\<forall>j < k. ints (looks m + j) = 0"
  shows "\<exists>m'. wait_irq D l ints cnt m = Some (cnt + of_nat (ints (looks m + k)), m')
    \<and> counted num m' (cnt + of_nat (ints (looks m + k))) \<and> if_flag m' \<and> looks m' = Suc (looks m + k)"
  using assms(2-4,6)
proof (induction k arbitrary: m)
  case 0
  obtain m' where m': "get_irq_cnt D l ints m = Some (cnt + of_nat (ints (looks m)), m')" "counted num m' (cnt + of_nat (ints (looks m)))"
    "if_flag m'" "looks m' = Suc (looks m)"
    using get_irq_cnt_counts [OF assms(1) 0(1,2)] by blast
  have "unat (of_nat (ints (looks m)) :: usize) = ints (looks m)" using assms(5) by (intro unat_of_nat_small) simp
  then have "\<not> (of_nat (ints (looks m)) :: usize) < 1" using 0(3) by (simp add: word_less_nat_alt)
  then show ?case using m' by (subst wait_irq.simps) simp
next
  case (Suc k)
  have z: "ints (looks m) = 0" using Suc.prems(4) by (metis add_0_right zero_less_Suc)
  obtain m1 where m1: "get_irq_cnt D l ints m = Some (cnt, m1)" "counted num m1 cnt" "if_flag m1" "looks m1 = Suc (looks m)"
    using get_irq_cnt_counts [OF assms(1) Suc.prems(1,2), of ints] z by auto
  have "wait_irq D l ints cnt m = wait_irq D l ints cnt m1" using m1(1) by (subst wait_irq.simps) simp
  moreover have "\<forall>j < k. ints (looks m1 + j) = 0" using Suc.prems(4) m1(4) by (metis add_Suc_right add_Suc Suc_less_eq)
  ultimately show ?case using Suc.IH [OF m1(2,3)] Suc.prems(3) m1(4) by simp
qed

lemma wait_irq_returns:
  assumes "lapic_number D l num" "counted num m cnt" "if_flag m" "timer_runs ints"
  shows "\<exists>c m'. wait_irq D l ints cnt m = Some (c, m') \<and> counted num m' c \<and> if_flag m' \<and> looks m < looks m'
    \<and> 1 \<le> total ints (looks m) (looks m') \<and> ((\<forall>t. ints t \<le> 1) \<longrightarrow> total ints (looks m) (looks m') = 1)"
proof -
  define k where "k = (LEAST k. 0 < ints (looks m + k))"
  obtain u where "looks m \<le> u" "0 < ints u" using assms(4) unfolding timer_runs_def by blast
  then have "0 < ints (looks m + (u - looks m))" by simp
  then have k: "0 < ints (looks m + k)" unfolding k_def by (rule LeastI)
  have z: "\<forall>j < k. ints (looks m + j) = 0" using not_less_Least [of _ "\<lambda>k. 0 < ints (looks m + k)"] unfolding k_def by blast
  obtain m' where m': "wait_irq D l ints cnt m = Some (cnt + of_nat (ints (looks m + k)), m')"
    "counted num m' (cnt + of_nat (ints (looks m + k)))" "if_flag m'" "looks m' = Suc (looks m + k)"
    using wait_irq_after [OF assms(1-3) k _ z] assms(4) unfolding timer_runs_def by blast
  have "sum ints {looks m..<looks m + k} = 0" using z by (auto simp: le_iff_add)
  then have t: "total ints (looks m) (Suc (looks m + k)) = ints (looks m + k)" by (simp add: total_def)
  have "ints (looks m + k) = 1" if "\<forall>t. ints t \<le> 1" using that k by (metis One_nat_def Suc_leI le_antisym)
  then show ?thesis using m' k by (auto simp: t Suc_le_eq)
qed

lemma total_trans: "\<lbrakk>a \<le> b; b \<le> c\<rbrakk> \<Longrightarrow> total ints a c = total ints a b + total ints b c"
  unfolding total_def by (metis sum.atLeastLessThan_concat)

declare mdelay.simps [simp del]

lemma mdelay_returns:
  assumes "lapic_number D l num" "timer_runs ints" "counted num m n" "if_flag m"
  shows "\<exists>m'. mdelay D l ints millis m = Some m' \<and> looks m \<le> looks m' \<and> millis div 10 \<le> total ints (looks m) (looks m')
    \<and> ((\<forall>t. ints t \<le> 1) \<longrightarrow> total ints (looks m) (looks m') \<le> 2 * (millis div 10))"
  using assms(3,4)
proof (induction millis arbitrary: m n rule: less_induct)
  case (less millis)
  show ?case
  proof (cases "10 \<le> millis")
    case True
    obtain c m1 where m1: "get_irq_cnt D l ints m = Some (c, m1)" "counted num m1 c" "if_flag m1" "looks m1 = Suc (looks m)"
      using get_irq_cnt_counts [OF assms(1) less.prems] by blast
    obtain c2 m2 where m2: "wait_irq D l ints c m1 = Some (c2, m2)" "counted num m2 c2" "if_flag m2" "looks m1 < looks m2"
      "1 \<le> total ints (looks m1) (looks m2)" "(\<forall>t. ints t \<le> 1) \<longrightarrow> total ints (looks m1) (looks m2) = 1"
      using wait_irq_returns [OF assms(1) m1(2,3) assms(2)] by blast
    obtain m3 where m3: "mdelay D l ints (millis - 10) m2 = Some m3" "looks m2 \<le> looks m3"
      "(millis - 10) div 10 \<le> total ints (looks m2) (looks m3)"
      "(\<forall>t. ints t \<le> 1) \<longrightarrow> total ints (looks m2) (looks m3) \<le> 2 * ((millis - 10) div 10)"
      using less.IH [OF _ m2(2,3), of "millis - 10"] True by auto
    have d: "millis div 10 = Suc ((millis - 10) div 10)" using True by (simp add: div_if)
    have t: "total ints (looks m) (looks m3) = ints (looks m) + (total ints (looks m1) (looks m2) + total ints (looks m2) (looks m3))"
      using total_trans [of "looks m" "looks m1" "looks m3" ints] total_trans [of "looks m1" "looks m2" "looks m3" ints] m1(4) m2(4) m3(2)
      by (simp add: total_def)
    have "total ints (looks m) (looks m3) \<le> 2 * (millis div 10)" if a: "\<forall>t. ints t \<le> 1"
      using a [THEN spec, of "looks m"] m2(6) [rule_format, OF a [rule_format]] m3(4) [rule_format, OF a [rule_format]] d t by linarith
    moreover have "mdelay D l ints millis m = Some m3" using True m1(1) m2(1) m3(1) by (subst mdelay.simps) simp
    moreover have "millis div 10 \<le> total ints (looks m) (looks m3)" "looks m \<le> looks m3" using d t m1(4) m2(4,5) m3(2,3) by linarith+
    ultimately show ?thesis by blast
  next
    case False
    then show ?thesis by (simp add: mdelay.simps total_def)
  qed
qed

section \<open>Reading the current count\<close>

text \<open>The device after \<open>n\<close> reads of the count, and the value of read \<open>n\<close>.\<close>

primrec after_reads :: "'d mmio \<Rightarrow> lapic \<Rightarrow> nat \<Rightarrow> 'd \<Rightarrow> 'd" where
  "after_reads D l 0 d = d"
| "after_reads D l (Suc n) d = after_reads D l n (snd (get_tick D l d))"

definition tick :: "'d mmio \<Rightarrow> lapic \<Rightarrow> nat \<Rightarrow> 'd \<Rightarrow> nat" where
  "tick D l n d = unat (fst (get_tick D l (after_reads D l n d)))"

lemma tick_Suc: "tick D l (Suc n) d = tick D l n (snd (get_tick D l d))"
  by (simp add: tick_def)

lemma tick_less: "tick D l n d < 2 ^ 32"
proof -
  obtain t d' where "lapic_read D l LAPIC_TIMER_CURRCNT_REG (after_reads D l n d) = (t, d')" by fastforce
  then have "tick D l n d = unat t" by (simp add: tick_def get_tick_def unsigned_ucast_eq take_bit_nat_eq_self unsigned_less [THEN less_trans])
  then show ?thesis using unsigned_less [of t, where ?'a = nat] by simp
qed

text \<open>What ends the loop: the count fell by the delay, or it rose above its first value.\<close>

definition delay_over :: "nat \<Rightarrow> nat \<Rightarrow> nat \<Rightarrow> bool" where
  "delay_over start ticks t \<longleftrightarrow> start < t \<or> ticks \<le> start - t"

lemma delay_over_code:
  assumes "start < 2 ^ 32" "unat t < 2 ^ 32" "ticks < 2 ^ 63"
  shows "of_nat start - t < (of_nat ticks :: usize) \<longleftrightarrow> \<not> delay_over start ticks (unat t)"
proof -
  have s: "unat (of_nat start :: usize) = start" "unat (of_nat ticks :: usize) = ticks" using assms by (auto intro!: unat_of_nat_small)
  show ?thesis
  proof (cases "unat t \<le> start")
    case True
    then have "unat (of_nat start - t :: usize) = start - unat t" using s(1) by (simp add: unat_sub word_le_nat_alt)
    then show ?thesis using True s(2) by (auto simp: word_less_nat_alt delay_over_def)
  next
    case False
    then have "unat (of_nat start - t :: usize) = 2 ^ 64 + start - unat t" using s(1) assms
      by (simp add: unat_sub_if' word_le_nat_alt)
    then show ?thesis using False s(2) assms by (simp add: word_less_nat_alt delay_over_def)
  qed
qed

lemma udelay_loop_reads:
  assumes "start < 2 ^ 32" "ticks < 2 ^ 63" "delay_over start ticks (tick D l n d)" "\<forall>k < n. \<not> delay_over start ticks (tick D l k d)"
  shows "udelay_loop D l (of_nat start) (of_nat ticks) d = Some (after_reads D l (Suc n) d)"
  using assms(3,4)
proof (induction n arbitrary: d)
  case 0
  then show ?case using delay_over_code [OF assms(1) _ assms(2)] tick_less [of D l 0 d]
    by (subst udelay_loop.simps) (simp add: tick_def case_prod_beta)
next
  case (Suc n)
  have "\<not> delay_over start ticks (tick D l 0 d)" using Suc.prems(2) by blast
  then have "udelay_loop D l (of_nat start) (of_nat ticks) d = udelay_loop D l (of_nat start) (of_nat ticks) (snd (get_tick D l d))"
    using delay_over_code [OF assms(1) _ assms(2)] tick_less [of D l 0 d]
    by (subst udelay_loop.simps) (simp add: tick_def case_prod_beta)
  also have "\<dots> = Some (after_reads D l (Suc n) (snd (get_tick D l d)))"
    using Suc.prems by (intro Suc.IH) (auto simp: tick_Suc [symmetric])
  finally show ?case by simp
qed

lemma udelay_ticks:
  assumes "micros \<le> 1000"
  shows "ucast (t :: u32) * of_nat micros div 10000 = (of_nat (unat t * micros div 10000) :: usize)" "unat t * micros div 10000 < 2 ^ 63"
proof -
  have "unat t < 2 ^ 32" using unsigned_less [of t, where ?'a = nat] by simp
  then have "unat t * micros \<le> 2 ^ 32 * 1000" using assms by (intro mult_le_mono) auto
  then have l: "unat t * micros < 2 ^ 63" by simp
  then show "unat t * micros div 10000 < 2 ^ 63" by (rule le_less_trans [OF div_le_dividend])
  have "(ucast t :: usize) = of_nat (unat t)" by (simp add: unsigned_ucast_eq word_eq_iff_unsigned [where ?'a = nat] take_bit_nat_eq_self unat_of_nat)
  then have "ucast t * of_nat micros = (of_nat (unat t * micros) :: usize)" by simp
  moreover have "unat (of_nat (unat t * micros) :: usize) = unat t * micros" using l by (intro unat_of_nat_small) simp
  ultimately show "ucast t * of_nat micros div 10000 = (of_nat (unat t * micros div 10000) :: usize)"
    by (simp add: word_arith_nat_div [of _ "10000 :: usize"])
qed

section \<open>Properties\<close>

text \<open>
  A local APIC as the witnesses need it: register 0x20 reads 0, any other register reads a periodic
  counter that is reloaded with 100 after it reached 0.
\<close>

definition demo_lapic :: "nat mmio" where
  "demo_lapic = \<lparr>read_volatile = \<lambda>a c. if a = 0x20 then (0, c) else (of_nat c, if c = 0 then 100 else c - 1),
     write_volatile = \<lambda>a v c. c\<rparr>"

definition demo_machine :: "nat \<Rightarrow> (nat, nat) machine" where
  "demo_machine c = \<lparr>kern = kernel_init (\<lambda>_. worker_new Fifo 8), dev = c, if_flag = True, APIC_TICKS_IN_10MS = 100, SCRATCH_TIMER = 0, looks = 0\<rparr>"

lemma demo_number: "lapic_number demo_lapic \<lparr>lapic_ptr = 0\<rparr> 0"
  by (simp add: lapic_number_def lapic_id_def lapic_read_def lapic_register_at_def LAPIC_ID_REG_def demo_lapic_def)

lemma demo_counted: "counted 0 (demo_machine c) 0"
  by (simp add: counted_def demo_machine_def kernel_init_def MAX_NUM_CPUS_def)

lemma demo_runs: "timer_runs (\<lambda>_. 1)"
  by (auto simp: timer_runs_def)

text \<open>
  C35: \<open>delay\<close> of at least a millisecond returns if timer interrupts keep coming, after at least as many of them as the
  duration has units of 10 milliseconds, and after at most twice as many when they come one by one. The
  remainder is dropped: a delay of less than 10 milliseconds returns at once without having looked at the
  counter. A duration whose milliseconds do not fit 64 bits panics.
\<close>

theorem delay_waits:
  assumes "lapic_number D l num" "timer_runs ints" "counted num m n" "if_flag m" "1000000 \<le> dur"
  shows "(dur div 1000000 < 2 ^ 64 \<longrightarrow> (\<exists>m'. delay D l ints dur m = Some m' \<and> looks m \<le> looks m'
      \<and> dur div 10000000 \<le> total ints (looks m) (looks m')
      \<and> ((\<forall>t. ints t \<le> 1) \<longrightarrow> total ints (looks m) (looks m') \<le> 2 * (dur div 10000000))
      \<and> (dur < 10000000 \<longrightarrow> m' = m)))
    \<and> (2 ^ 64 \<le> dur div 1000000 \<longrightarrow> delay D l ints dur m = None)"
proof -
  have d: "\<not> dur div 1000 < 1000" "dur div 10000000 = dur div 1000000 div 10" using assms(5) by (simp_all add: div_mult2_eq [symmetric])
  have s: "delay D l ints dur m = Some m" if "dur < 10000000"
  proof -
    have "dur div 1000000 < 10" using that by (simp add: div_less_iff_less_mult)
    then show ?thesis using d(1) by (simp add: delay_def mdelay.simps)
  qed
  show ?thesis using mdelay_returns [OF assms(1-4), of "dur div 1000000"] d(1) s unfolding d(2) by (auto simp: delay_def)
qed

theorem delay_waits_witness:
  "delay demo_lapic \<lparr>lapic_ptr = 0\<rparr> (\<lambda>_. 1) 9000000 (demo_machine 50) = Some (demo_machine 50)
    \<and> (\<exists>m'. delay demo_lapic \<lparr>lapic_ptr = 0\<rparr> (\<lambda>_. 1) 30000000 (demo_machine 50) = Some m' \<and> 3 \<le> looks m')"
proof -
  have i: "if_flag (demo_machine 50)" "looks (demo_machine 50) = 0" by (simp_all add: demo_machine_def)
  have t: "total (\<lambda>_. 1) 0 b = b" for b by (simp add: total_def)
  show ?thesis
    using delay_waits [OF demo_number demo_runs demo_counted i(1), of 9000000] delay_waits [OF demo_number demo_runs demo_counted i(1), of 30000000] i(2)
    by (auto simp: t [simplified])
qed

text \<open>
  C36: \<open>udelay\<close> returns at the first read of the timer's count that is the delay below the count it started with, or that is
  above it, since the difference then wraps around. The count is reloaded every 10 milliseconds, so a delay during
  which it is reloaded ends at the reload, however little time has passed.
\<close>

theorem udelay_ends_at_reload:
  assumes "micros \<le> 1000" "0 < n"
    "delay_over (tick D l 0 (dev m)) (unat (APIC_TICKS_IN_10MS m) * micros div 10000) (tick D l n (dev m))"
    "\<forall>k. 0 < k \<and> k < n \<longrightarrow> \<not> delay_over (tick D l 0 (dev m)) (unat (APIC_TICKS_IN_10MS m) * micros div 10000) (tick D l k (dev m))"
  shows "udelay D l (of_nat micros) m = Some (m\<lparr>dev := after_reads D l (Suc n) (dev m)\<rparr>)"
proof -
  obtain k where k: "n = Suc k" using assms(2) by (cases n) auto
  let ?d = "snd (get_tick D l (dev m))"
  have "fst (get_tick D l (dev m)) = of_nat (tick D l 0 (dev m))" by (simp add: tick_def)
  moreover have "udelay_loop D l (of_nat (tick D l 0 (dev m))) (of_nat (unat (APIC_TICKS_IN_10MS m) * micros div 10000)) ?d
      = Some (after_reads D l (Suc k) ?d)"
    by (rule udelay_loop_reads [OF tick_less udelay_ticks(2) [OF assms(1)]])
      (use assms(3,4) in \<open>simp_all add: k tick_Suc [symmetric]\<close>)
  ultimately show ?thesis using udelay_ticks(1) [OF assms(1)] by (simp add: udelay_def k case_prod_beta Let_def)
qed

theorem udelay_ends_at_reload_witness:
  "udelay demo_lapic \<lparr>lapic_ptr = 0\<rparr> (of_nat 1000) (demo_machine 1) = Some ((demo_machine 1)\<lparr>dev := 99\<rparr>)"
proof -
  let ?l = "\<lparr>lapic_ptr = 0\<rparr>"
  have g: "get_tick demo_lapic ?l 1 = (1, 0)" "get_tick demo_lapic ?l 0 = (0, 100)" "get_tick demo_lapic ?l 100 = (100, 99)"
    by (simp_all add: get_tick_def lapic_read_def lapic_register_at_def demo_lapic_def LAPIC_TIMER_CURRCNT_REG_def)
  have t: "tick demo_lapic ?l 0 1 = 1" "tick demo_lapic ?l (Suc 0) 1 = 0" "tick demo_lapic ?l (Suc (Suc 0)) 1 = 100"
    by (simp_all only: tick_def after_reads.simps g fst_conv snd_conv) simp_all
  have r: "after_reads demo_lapic ?l (Suc (Suc (Suc 0))) 1 = 99"
    by (simp only: after_reads.simps g fst_conv snd_conv)
  have m: "dev (demo_machine 1) = 1" "APIC_TICKS_IN_10MS (demo_machine 1) = 100" by (simp_all only: demo_machine_def machine.simps)
  have o: "delay_over 1 (unat (100 :: u32) * 1000 div 10000) 100" "\<not> delay_over 1 (unat (100 :: u32) * 1000 div 10000) 0"
    by (simp_all add: delay_over_def)
  have k: "k = Suc 0" if "0 < k" "k < Suc (Suc 0)" for k using that by simp
  have "udelay demo_lapic ?l (of_nat 1000) (demo_machine 1) = Some ((demo_machine 1)\<lparr>dev := after_reads demo_lapic ?l (Suc (Suc (Suc 0))) (dev (demo_machine 1))\<rparr>)"
  proof (rule udelay_ends_at_reload)
    show "delay_over (tick demo_lapic ?l 0 (dev (demo_machine 1))) (unat (APIC_TICKS_IN_10MS (demo_machine 1)) * 1000 div 10000)
        (tick demo_lapic ?l (Suc (Suc 0)) (dev (demo_machine 1)))" unfolding m t by (rule o(1))
    show "\<forall>k. 0 < k \<and> k < Suc (Suc 0) \<longrightarrow> \<not> delay_over (tick demo_lapic ?l 0 (dev (demo_machine 1)))
        (unat (APIC_TICKS_IN_10MS (demo_machine 1)) * 1000 div 10000) (tick demo_lapic ?l k (dev (demo_machine 1)))"
      unfolding m t(1) using k o(2) t(2) by metis
  qed simp_all
  then show ?thesis by (simp only: m r)
qed

text \<open>
  The documented behaviour of the timer registers of a local APIC: they keep what is written to them. The
  registers of I/O APICs are elsewhere.
\<close>

definition lapic_timer_laws :: "'d mmio \<Rightarrow> lapic \<Rightarrow> ('d \<Rightarrow> usize \<Rightarrow> u32) \<Rightarrow> ('d \<Rightarrow> usize \<Rightarrow> u8 \<Rightarrow> u32) \<Rightarrow> bool" where
  "lapic_timer_laws D l lreg reg \<longleftrightarrow> (\<forall>off \<in> {LAPIC_LVT_TIMER_REG, LAPIC_TIMER_INITCNT_REG, LAPIC_TIMER_DIV_REG}. \<forall>v d.
     lreg (lapic_write D l off v d) = (lreg d)(off := v) \<and> reg (lapic_write D l off v d) = reg d)"

lemma counted_update [simp]:
  "counted num (m\<lparr>dev := d\<rparr>) n = counted num m n" "counted num (m\<lparr>if_flag := b\<rparr>) n = counted num m n"
  by (simp_all add: counted_def)

lemma calibration_waits:
  assumes "lapic_number D l num" "timer_runs ints" "counted num m n"
  obtains d t where "calibrate_apic_timer D outb l ints io pitreg m = Some t" "\<not> if_flag t"
    "dev t = lapic_write D l LAPIC_TIMER_DIV_REG 3 (lapic_write D l LAPIC_TIMER_INITCNT_REG (APIC_TICKS_IN_10MS t)
        (lapic_write D l LAPIC_LVT_TIMER_REG (ucast (as_u8 Timer) OR APIC_TIMER_PERIODIC) (ioapic_write D io pitreg APIC_MASKED d)))"
proof -
  define m0 where "m0 = m\<lparr>dev := lapic_write D l LAPIC_TIMER_DIV_REG 3 (lapic_write D l LAPIC_LVT_TIMER_REG (ucast (as_u8 ScratchTimer))
      (outb 0x40 (ucast (drop_bit 8 (11932 :: u16))) (outb 0x40 (ucast (11932 :: u16)) (outb 0x43 0x34 (dev m))))), if_flag := True\<rparr>"
  have m0: "counted num m0 n" "if_flag m0" using assms(3) by (simp_all add: m0_def)
  obtain c1 m1 where m1: "get_irq_cnt D l ints m0 = Some (c1, m1)" "counted num m1 c1" "if_flag m1"
    using get_irq_cnt_counts [OF assms(1) m0] by blast
  obtain c2 m2 where m2: "wait_irq D l ints c1 m1 = Some (c2, m2)" "counted num m2 c2" "if_flag m2"
    using wait_irq_returns [OF assms(1) m1(2,3) assms(2)] by blast
  define m2' where "m2' = m2\<lparr>dev := lapic_write D l LAPIC_TIMER_INITCNT_REG (-1) (dev m2)\<rparr>"
  have "counted num m2' c2" "if_flag m2'" using m2(2,3) by (simp_all add: m2'_def)
  then obtain c3 m3 where m3: "wait_irq D l ints c2 m2' = Some (c3, m3)" using wait_irq_returns [OF assms(1) _ _ assms(2)] by blast
  obtain v d where r: "lapic_read D l LAPIC_TIMER_CURRCNT_REG (lapic_write D l LAPIC_LVT_TIMER_REG APIC_MASKED (dev m3)) = (v, d)" by fastforce
  show thesis
    by (rule that [of "m3\<lparr>if_flag := False, APIC_TICKS_IN_10MS := - 1 - v, dev := lapic_write D l LAPIC_TIMER_DIV_REG 3 (lapic_write D l LAPIC_TIMER_INITCNT_REG (- 1 - v)
        (lapic_write D l LAPIC_LVT_TIMER_REG (ucast (as_u8 Timer) OR APIC_TIMER_PERIODIC) (ioapic_write D io pitreg APIC_MASKED d)))\<rparr>" d])
      (simp_all add: calibrate_apic_timer_def Let_def m1(1) [unfolded m0_def, simplified] m2(1) m3 [unfolded m2'_def, simplified] r)
qed

lemma calibration_done:
  assumes "lapic_number D l num" "timer_runs ints" "counted num m n" "ioapic_laws D {ioapic_ptr io} sel reg"
    "lapic_timer_laws D l lreg reg" "k < 120"
  shows "\<exists>t. calibrate_apic_timer D outb l ints io (entry_reg k) m = Some t \<and> \<not> if_flag t
    \<and> lreg (dev t) LAPIC_LVT_TIMER_REG = 0x20020 \<and> lreg (dev t) LAPIC_TIMER_DIV_REG = 3
    \<and> lreg (dev t) LAPIC_TIMER_INITCNT_REG = APIC_TICKS_IN_10MS t \<and> bit (reg (dev t) (ioapic_ptr io) (entry_reg k)) 16"
proof -
  obtain d t where t: "calibrate_apic_timer D outb l ints io (entry_reg k) m = Some t" "\<not> if_flag t"
    "dev t = lapic_write D l LAPIC_TIMER_DIV_REG 3 (lapic_write D l LAPIC_TIMER_INITCNT_REG (APIC_TICKS_IN_10MS t)
        (lapic_write D l LAPIC_LVT_TIMER_REG (ucast (as_u8 Timer) OR APIC_TIMER_PERIODIC) (ioapic_write D io (entry_reg k) APIC_MASKED d)))"
    by (rule calibration_waits [OF assms(1-3)])
  have l: "lreg (lapic_write D l off v d) = (lreg d)(off := v)" "reg (lapic_write D l off v d) = reg d"
    if "off \<in> {LAPIC_LVT_TIMER_REG, LAPIC_TIMER_INITCNT_REG, LAPIC_TIMER_DIV_REG}" for off v d
    using assms(5) that unfolding lapic_timer_laws_def by blast+
  have "bit (writable (entry_reg k)) 16" "bit (0x10000 :: u32) 16" by (simp_all add: entry_reg_props [OF assms(6)])
  then have "bit (reg (ioapic_write D io (entry_reg k) APIC_MASKED d) (ioapic_ptr io) (entry_reg k)) 16"
    unfolding APIC_MASKED_def by (simp only: ioapic_write_reg [OF assms(4) _ entry_reg_props(1) [OF assms(6)]] singletonI) (simp add: bit_or_iff bit_and_iff)
  moreover have "LAPIC_LVT_TIMER_REG \<noteq> LAPIC_TIMER_INITCNT_REG" "LAPIC_LVT_TIMER_REG \<noteq> LAPIC_TIMER_DIV_REG" "LAPIC_TIMER_INITCNT_REG \<noteq> LAPIC_TIMER_DIV_REG"
    by (simp_all add: LAPIC_LVT_TIMER_REG_def LAPIC_TIMER_INITCNT_REG_def LAPIC_TIMER_DIV_REG_def)
  moreover have "ucast (as_u8 Timer) OR APIC_TIMER_PERIODIC = 0x20020" by (simp add: APIC_TIMER_PERIODIC_def)
  ultimately show ?thesis using t(1,2) by (intro exI [of _ t]) (simp add: t(3) l)
qed

definition demo_system :: "((u8 \<times> (u8 \<Rightarrow> u32)) \<times> (usize \<Rightarrow> u32)) mmio" where
  "demo_system = \<lparr>read_volatile = \<lambda>a ((s, f), st). (if a = 0x1010 then f s else if a = 0x2020 then 0 else st a, ((s, f), st)),
     write_volatile = \<lambda>a v (io, st). if a = 0x1000 \<or> a = 0x1010 then (write_volatile demo_io a v io, st) else (io, st(a := v))\<rparr>"

lemma demo_system_laws:
  "lapic_number demo_system \<lparr>lapic_ptr = 0x2000\<rparr> 0" "ioapic_laws demo_system {0x1000} (\<lambda>d _. fst (fst d)) (\<lambda>d. demo_reg (fst d))"
  "lapic_timer_laws demo_system \<lparr>lapic_ptr = 0x2000\<rparr> (\<lambda>d off. snd d (0x2000 + off)) (\<lambda>d. demo_reg (fst d))"
proof -
  show "lapic_number demo_system \<lparr>lapic_ptr = 0x2000\<rparr> 0"
    by (auto simp: lapic_number_def lapic_id_def lapic_read_def lapic_register_at_def LAPIC_ID_REG_def demo_system_def)
  show "ioapic_laws demo_system {0x1000} (\<lambda>d _. fst (fst d)) (\<lambda>d. demo_reg (fst d))"
    unfolding ioapic_laws_def by (auto simp: demo_system_def demo_io_def demo_reg_def fun_eq_iff)
  show "lapic_timer_laws demo_system \<lparr>lapic_ptr = 0x2000\<rparr> (\<lambda>d off. snd d (0x2000 + off)) (\<lambda>d. demo_reg (fst d))"
    by (auto simp: lapic_timer_laws_def lapic_write_def lapic_register_at_def demo_system_def fun_eq_iff
        LAPIC_LVT_TIMER_REG_def LAPIC_TIMER_INITCNT_REG_def LAPIC_TIMER_DIV_REG_def)
qed

section \<open>Cores other than the first\<close>

text \<open>The identification register of the local APIC: the identifier of the core is in its bits 24 to 31.\<close>

definition id_register_reads :: "'d mmio \<Rightarrow> lapic \<Rightarrow> 'd \<Rightarrow> u8 \<Rightarrow> bool" where
  "id_register_reads D l d apic_id \<longleftrightarrow> fst (read_volatile D (lapic_ptr l + 0x20) d) = push_bit 24 (ucast apic_id)"

lemma unat_id_register: "unat (push_bit 24 (ucast (apic_id :: u8)) :: u32) = unat apic_id * 2 ^ 24"
proof -
  have "unat apic_id < 2 ^ 8" using unsigned_less [of apic_id] by simp
  then have "unat apic_id * 2 ^ 24 < 2 ^ 32" by simp
  then show ?thesis by (simp add: push_bit_eq_mult unat_word_ariths unsigned_ucast_eq take_bit_nat_eq_self)
qed

lemma cpu_here_panics:
  assumes "length (cpus (kern m)) = MAX_NUM_CPUS" "id_register_reads D l (dev m) apic_id" "apic_id \<noteq> 0"
  shows "cpu_here D l m = None"
proof -
  obtain num d where n: "lapic_id D l (dev m) = (num, d)" by fastforce
  then have "num = push_bit 24 (ucast apic_id)"
    using assms(2) by (simp add: id_register_reads_def lapic_id_def lapic_read_def lapic_register_at_def LAPIC_ID_REG_def)
  moreover have "0 < unat apic_id" using assms(3) by (simp add: unat_gt_0)
  ultimately have "MAX_NUM_CPUS \<le> unat num" unfolding MAX_NUM_CPUS_def using unat_id_register [of apic_id] by simp
  then show ?thesis using cpu_outside [OF assms(1)] n by (simp add: cpu_here_def)
qed

text \<open>
  C25: \<open>id()\<close> returns the identification register of the local APIC as it is, but the register holds the
  identifier of the core in its bits 24 to 31. On every core with an identifier other than 0, \<open>cpu()\<close> thus indexes far outside the
  table of cores and panics: in the handler of the timer interrupt, and at every look at the interrupt counter.
\<close>

theorem cpu_panics_on_apic_id:
  assumes "length (cpus (kern m)) = MAX_NUM_CPUS" "id_register_reads D l (dev m) apic_id" "apic_id \<noteq> 0"
  shows "cpu_here D l m = None \<and> timer_interrupt_handler D l m = None \<and> get_irq_cnt D l ints m = None"
proof -
  have none: "cpu_here D l m' = None" if "kern m' = kern m" "dev m' = dev m" for m'
    by (rule cpu_here_panics [of m', unfolded that, OF assms])
  have "get_irq_cnt D l ints m = None"
  proof (cases "if if_flag m then ints (looks m) else 0")
    case 0
    then show ?thesis by (simp only: get_irq_cnt_def deliver_def) (simp add: none)
  next
    case (Suc n)
    then show ?thesis by (simp only: get_irq_cnt_def deliver_def Suc upt_conv_Cons zero_less_Suc for_in.simps) (simp add: timer_interrupt_handler_def none)
  qed
  then show ?thesis by (simp add: timer_interrupt_handler_def none)
qed

text \<open>A core whose identification register reads \<open>1 << 24\<close>.\<close>

theorem cpu_panics_on_apic_id_witness:
  "let D = \<lparr>read_volatile = \<lambda>a d. (if a = 0xFEE00020 then push_bit 24 1 else 0, d), write_volatile = \<lambda>a v d. d\<rparr>
   in cpu_here D \<lparr>lapic_ptr = 0xFEE00000\<rparr> (demo_machine 0) = None"
proof -
  let ?D = "\<lparr>read_volatile = \<lambda>a d. (if a = 0xFEE00020 then push_bit 24 1 else 0, d), write_volatile = \<lambda>a v d. d\<rparr> :: nat mmio"
  have "length (cpus (kern (demo_machine 0))) = MAX_NUM_CPUS" by (simp add: demo_machine_def kernel_init_def)
  moreover have "id_register_reads ?D \<lparr>lapic_ptr = 0xFEE00000\<rparr> (dev (demo_machine 0)) 1" by (simp add: id_register_reads_def)
  ultimately show ?thesis unfolding Let_def using cpu_panics_on_apic_id by (metis zero_neq_one)
qed

end
