(* ===== verification/Psf.thy ===== *)
theory Psf
  imports Prelude
begin

text \<open>
  The PSF2 font (\<^verbatim>\<open>PsfHeader\<close> of \<^verbatim>\<open>font/mod.rs\<close>): its header and the table that maps characters
  to glyphs. The font file is a parameter \<open>ft\<close>, a list of bytes. A character is its code
  point. \<open>None\<close> stands for a panic or for a read outside the file.
\<close>

section \<open>UTF-8\<close>

type_synonym codepoint = nat

text \<open>\<^verbatim>\<open>core::str::from_utf8\<close> followed by \<^verbatim>\<open>chars\<close>; \<open>None\<close> is the error of the former.\<close>

definition cont :: "nat \<Rightarrow> bool" where
  "cont b \<longleftrightarrow> 0x80 \<le> b \<and> b \<le> 0xBF"

fun utf8_decode :: "nat list \<Rightarrow> codepoint list option" where
  "utf8_decode [] = Some []"
| "utf8_decode (b # bs) =
     (if b < 0x80 then map_option ((#) b) (utf8_decode bs)
      else if 0xC2 \<le> b \<and> b \<le> 0xDF then
        (case bs of
           b1 # bs \<Rightarrow> if cont b1 then map_option ((#) ((b - 0xC0) * 64 + (b1 - 0x80))) (utf8_decode bs) else None
         | _ \<Rightarrow> None)
      else if 0xE0 \<le> b \<and> b \<le> 0xEF then
        (case bs of
           b1 # b2 # bs \<Rightarrow>
             if cont b1 \<and> cont b2 \<and> (b = 0xE0 \<longrightarrow> 0xA0 \<le> b1) \<and> (b = 0xED \<longrightarrow> b1 \<le> 0x9F)
             then map_option ((#) ((b - 0xE0) * 4096 + (b1 - 0x80) * 64 + (b2 - 0x80))) (utf8_decode bs) else None
         | _ \<Rightarrow> None)
      else if 0xF0 \<le> b \<and> b \<le> 0xF4 then
        (case bs of
           b1 # b2 # b3 # bs \<Rightarrow>
             if cont b1 \<and> cont b2 \<and> cont b3 \<and> (b = 0xF0 \<longrightarrow> 0x90 \<le> b1) \<and> (b = 0xF4 \<longrightarrow> b1 \<le> 0x8F)
             then map_option ((#) ((b - 0xF0) * 262144 + (b1 - 0x80) * 4096 + (b2 - 0x80) * 64 + (b3 - 0x80))) (utf8_decode bs) else None
         | _ \<Rightarrow> None)
      else None)"

definition scalar :: "codepoint \<Rightarrow> bool" where
  "scalar c \<longleftrightarrow> c < 0xD800 \<or> 0xE000 \<le> c \<and> c < 0x110000"

definition utf8_encode :: "codepoint \<Rightarrow> nat list" where
  "utf8_encode c =
     (if c < 0x80 then [c]
      else if c < 0x800 then [0xC0 + c div 64, 0x80 + c mod 64]
      else if c < 0x10000 then [0xE0 + c div 4096, 0x80 + c div 64 mod 64, 0x80 + c mod 64]
      else [0xF0 + c div 262144, 0x80 + c div 4096 mod 64, 0x80 + c div 64 mod 64, 0x80 + c mod 64])"

lemma div_64: "c div 4096 = c div 64 div (64 :: nat)" "c div 262144 = c div 4096 div (64 :: nat)"
  by (simp_all flip: div_mult2_eq)

lemma div_mod_64: "c div 4096 * 4096 + c div 64 mod 64 * 64 + c mod 64 = (c :: nat)"
  "c div 262144 * 262144 + c div 4096 mod 64 * 4096 + c div 64 mod 64 * 64 + c mod 64 = c"
  using div_mult_mod_eq [of c 64] div_mult_mod_eq [of "c div 64" 64] div_mult_mod_eq [of "c div 4096" 64] div_64 [of c]
  by linarith+

lemma cont_plus: "x < 64 \<Longrightarrow> cont (0x80 + x)"
  by (simp add: cont_def)

lemma utf8_decode_encode:
  assumes "scalar c"
  shows "utf8_decode (utf8_encode c @ bs) = map_option ((#) c) (utf8_decode bs)"
proof -
  consider "c < 0x80" | "0x80 \<le> c" "c < 0x800" | "0x800 \<le> c" "c < 0x10000" | "0x10000 \<le> c" "c < 0x110000"
    using assms by (fastforce simp: scalar_def)
  then show ?thesis
  proof cases
    case 2
    then have "2 \<le> c div 64" "c div 64 \<le> 31" by auto
    then show ?thesis using 2 cont_plus [of "c mod 64"] by (simp add: utf8_encode_def)
  next
    case 3
    then have "c div 4096 \<le> 15" "c div 4096 = 0 \<Longrightarrow> 0x20 \<le> c div 64 mod 64" by auto
    moreover have "c div 64 mod 64 \<le> 0x1F" if "c div 4096 = 13"
      using assms that div_mod_64(1) [of c] by (auto simp: scalar_def)
    ultimately show ?thesis using 3 cont_plus [of "c mod 64"] cont_plus [of "c div 64 mod 64"] div_mod_64(1) [of c]
      by (simp add: utf8_encode_def)
  next
    case 4
    then have "c div 262144 \<le> 4" by auto
    moreover have "0x10 \<le> c div 4096 mod 64" if "c div 262144 = 0" using that 4(1) div_mod_64(2) [of c] mod_less_divisor [of 64 c] mod_less_divisor [of 64 "c div 64"] by linarith
    moreover have "c div 4096 mod 64 \<le> 0x0F" if "c div 262144 = 4" using that 4(2) div_mod_64(2) [of c] by linarith
    ultimately show ?thesis
      using 4 cont_plus [of "c mod 64"] cont_plus [of "c div 64 mod 64"] cont_plus [of "c div 4096 mod 64"] div_mod_64(2) [of c]
      by (simp add: utf8_encode_def)
  qed (simp add: utf8_encode_def)
qed

definition utf8 :: "codepoint list \<Rightarrow> nat list" where
  "utf8 cs = concat (map utf8_encode cs)"

lemma utf8_decode_utf8: "\<forall>c \<in> set cs. scalar c \<Longrightarrow> utf8_decode (utf8 cs) = Some cs"
  by (induction cs) (simp_all add: utf8_def utf8_decode_encode del: utf8_decode.simps(2))

lemma utf8_bytes: "\<lbrakk>\<forall>c \<in> set cs. scalar c; b \<in> set (utf8 cs)\<rbrakk> \<Longrightarrow> b < 0xF8"
  by (fastforce simp: utf8_def utf8_encode_def scalar_def split: if_splits)

section \<open>The header\<close>

record psf_header =
  magic :: u32
  version :: u32
  headersize :: u32
  flags :: u32
  glyphs :: u32
  bytes_per_glyph :: u32
  height :: u32
  width :: u32

text \<open>Little-endian reads at a byte offset.\<close>

definition u16_at :: "u8 list \<Rightarrow> nat \<Rightarrow> u16 option" where
  "u16_at bs i = (if i + 2 \<le> length bs then Some (ucast (bs ! i) OR push_bit 8 (ucast (bs ! (i + 1)))) else None)"

definition u32_at :: "u8 list \<Rightarrow> nat \<Rightarrow> u32 option" where
  "u32_at bs i = (if i + 4 \<le> length bs
     then Some (ucast (bs ! i) OR push_bit 8 (ucast (bs ! (i + 1))) OR push_bit 16 (ucast (bs ! (i + 2))) OR push_bit 24 (ucast (bs ! (i + 3))))
     else None)"

text \<open>\<^verbatim>\<open>PsfHeader::ft\<close>: the file's first 32 bytes.\<close>

definition psf_ft :: "u8 list \<Rightarrow> psf_header option" where
  "psf_ft ft = do {
     m \<leftarrow> u32_at ft 0; v \<leftarrow> u32_at ft 4; h \<leftarrow> u32_at ft 8; fl \<leftarrow> u32_at ft 12;
     g \<leftarrow> u32_at ft 16; b \<leftarrow> u32_at ft 20; ht \<leftarrow> u32_at ft 24; w \<leftarrow> u32_at ft 28;
     Some \<lparr>magic = m, version = v, headersize = h, flags = fl, glyphs = g, bytes_per_glyph = b, height = ht, width = w\<rparr> }"

section \<open>The table of characters\<close>

type_synonym char_map = "codepoint \<Rightarrow> u32 option"

text \<open>\<^verbatim>\<open>for ch in string.chars() { map.insert(ch, glyph) }\<close>\<close>

definition insert_all :: "codepoint list \<Rightarrow> u32 \<Rightarrow> char_map \<Rightarrow> char_map" where
  "insert_all cs glyph m = fold (\<lambda>c m. m(c \<mapsto> glyph)) cs m"

function mapping_loop :: "u8 list \<Rightarrow> nat \<Rightarrow> nat \<Rightarrow> u32 \<Rightarrow> char_map \<Rightarrow> char_map option" where
  "mapping_loop ft s start glyph m =
     (if s < length ft then
        if ft ! s = 0xFF then do {
          cs \<leftarrow> utf8_decode (map unat (take (s - start) (drop start ft)));
          mapping_loop ft (s + 1) (s + 1) (glyph + 1) (insert_all cs glyph m) }
        else mapping_loop ft (s + 1) start glyph m
      else Some m)"
  by pat_completeness auto
termination
  by (relation "measure (\<lambda>(ft, s, start, glyph, m). length ft - s)") auto

declare mapping_loop.simps [simp del]

text \<open>\<open>unicode_mapping\<close>: the outer option is the panic on text that is not UTF-8.\<close>

definition unicode_mapping :: "u8 list \<Rightarrow> psf_header \<Rightarrow> char_map option option" where
  "unicode_mapping ft h =
     (if flags h = 0 then Some None
      else let s = unat (headersize h + glyphs h * bytes_per_glyph h)
           in do { m \<leftarrow> mapping_loop ft s s 0 Map.empty; Some (Some m) })"

lemma mapping_loop_scan:
  assumes "\<forall>i < n. s + i < length ft \<and> ft ! (s + i) \<noteq> 0xFF"
  shows "mapping_loop ft s start glyph m = mapping_loop ft (s + n) start glyph m"
  using assms
proof (induction n)
  case (Suc n)
  then have "mapping_loop ft (s + n) start glyph m = mapping_loop ft (s + n + 1) start glyph m"
    by (subst mapping_loop.simps) simp
  with Suc show ?case by simp
qed simp

text \<open>A table whose entries are the strings \<open>ss\<close>, each closed by the byte 255.\<close>

definition table :: "codepoint list list \<Rightarrow> nat list" where
  "table ss = concat (map (\<lambda>cs. utf8 cs @ [0xFF]) ss)"

lemma mapping_loop_table:
  assumes "map unat (drop start ft) = table ss" "start \<le> length ft" "\<forall>cs \<in> set ss. \<forall>c \<in> set cs. scalar c"
  shows "mapping_loop ft start start glyph m = Some (fst (fold (\<lambda>cs (m, g). (insert_all cs g m, g + 1)) ss (m, glyph)))"
  using assms
proof (induction ss arbitrary: start glyph m)
  case Nil
  then show ?case by (subst mapping_loop.simps) (simp add: table_def)
next
  case (Cons cs ss)
  let ?n = "length (utf8 cs)"
  have t: "map unat (drop start ft) = utf8 cs @ 0xFF # table ss" using Cons.prems(1) by (simp add: table_def)
  have len: "start + ?n < length ft" using arg_cong [OF t, of length] Cons.prems(2) by simp
  have nth: "unat (ft ! (start + i)) = (utf8 cs @ 0xFF # table ss) ! i" if "i \<le> ?n" for i
    using arg_cong [OF t, of "\<lambda>l. l ! i"] that len by simp
  have sc: "\<forall>c \<in> set cs. scalar c" using Cons.prems(3) by simp
  have "\<forall>i < ?n. start + i < length ft \<and> ft ! (start + i) \<noteq> 0xFF"
  proof (intro allI impI conjI)
    fix i assume i: "i < ?n"
    then have "unat (ft ! (start + i)) < 0xF8" using nth [of i] utf8_bytes [OF sc, of "utf8 cs ! i"] by (simp add: nth_append)
    then show "ft ! (start + i) \<noteq> 0xFF" by auto
  qed (use len in simp)
  moreover have "ft ! (start + ?n) = 0xFF" using nth [of ?n] by (simp add: nth_append word_unat_eq_iff)
  moreover have "map unat (take ?n (drop start ft)) = utf8 cs" using t by (simp flip: take_map)
  moreover have "map unat (drop (Suc (start + ?n)) ft) = table ss"
    using arg_cong [OF t, of "drop (Suc ?n)"] by (simp add: drop_map ac_simps)
  ultimately show ?case
    using mapping_loop_scan [of ?n start ft start glyph m] len utf8_decode_utf8 [OF sc] Cons.prems(3)
      Cons.IH [of "Suc (start + ?n)" "glyph + 1" "insert_all cs glyph m"]
    by (simp add: mapping_loop.simps [of ft "start + ?n"])
qed

lemma insert_all_apply: "insert_all cs g m c = (if c \<in> set cs then Some g else m c)"
  by (induction cs arbitrary: m) (auto simp: insert_all_def)

definition add_entry :: "codepoint list \<Rightarrow> char_map \<times> u32 \<Rightarrow> char_map \<times> u32" where
  "add_entry cs = (\<lambda>(m, g). (insert_all cs g m, g + 1))"

lemma snd_add_entries: "snd (fold add_entry ss (m, g)) = g + of_nat (length ss)"
  by (induction ss arbitrary: m g) (simp_all add: add_entry_def ac_simps)

lemma fst_add_entries:
  defines "m' \<equiv> \<lambda>ss. fst (fold add_entry ss (Map.empty, 0))"
  shows "(\<forall>i < length ss. c \<in> set (ss ! i) \<longrightarrow> (\<forall>j < length ss. i < j \<longrightarrow> c \<notin> set (ss ! j)) \<longrightarrow> m' ss c = Some (of_nat i))
    \<and> ((\<forall>cs \<in> set ss. c \<notin> set cs) \<longrightarrow> m' ss c = None)"
proof (induction ss rule: rev_induct)
  case Nil
  show ?case by (simp add: m'_def)
next
  case (snoc cs ss)
  have step: "m' (ss @ [cs]) c = (if c \<in> set cs then Some (of_nat (length ss)) else m' ss c)"
    using snd_add_entries [of ss Map.empty 0]
    by (cases "fold add_entry ss (Map.empty, 0)") (simp add: m'_def add_entry_def insert_all_apply)
  show ?case
  proof (intro conjI allI impI)
    fix i assume i: "i < length (ss @ [cs])" "c \<in> set ((ss @ [cs]) ! i)" "\<forall>j < length (ss @ [cs]). i < j \<longrightarrow> c \<notin> set ((ss @ [cs]) ! j)"
    show "m' (ss @ [cs]) c = Some (of_nat i)"
    proof (cases "i = length ss")
      case False
      then have "c \<notin> set cs" using i(1,3) by (auto simp: nth_append)
      moreover have "\<forall>j < length ss. i < j \<longrightarrow> c \<notin> set (ss ! j)"
        using i(3) by (metis length_append_singleton less_SucI nth_append)
      ultimately show ?thesis using snoc.IH i False step by (auto simp: nth_append)
    qed (use i step in simp)
  qed (use snoc.IH step in auto)
qed

section \<open>Properties\<close>

text \<open>
  C38: \<open>unicode_mapping\<close> reads back the table of a font: if the bytes behind the glyphs are one
  UTF-8 string per glyph, each closed by the byte 255, then it does not panic and maps a character
  to the number of the last glyph in whose string it occurs, and a character that occurs in none
  to nothing.
\<close>

theorem unicode_mapping_table:
  assumes "flags h \<noteq> 0" "s = unat (headersize h + glyphs h * bytes_per_glyph h)" "s \<le> length ft"
    "map unat (drop s ft) = table ss" "\<forall>cs \<in> set ss. \<forall>c \<in> set cs. scalar c"
  shows "\<exists>m. unicode_mapping ft h = Some (Some m) \<and>
    (\<forall>c. (\<forall>i < length ss. c \<in> set (ss ! i) \<longrightarrow> (\<forall>j < length ss. i < j \<longrightarrow> c \<notin> set (ss ! j)) \<longrightarrow> m c = Some (of_nat i))
      \<and> ((\<forall>cs \<in> set ss. c \<notin> set cs) \<longrightarrow> m c = None))"
proof -
  have "unicode_mapping ft h = Some (Some (fst (fold add_entry ss (Map.empty, 0))))"
    using mapping_loop_table [OF assms(4,3,5)] assms(1) unfolding add_entry_def
    by (simp add: unicode_mapping_def flip: assms(2))
  then show ?thesis using fst_add_entries [of ss] by blast
qed

text \<open>A file with two glyphs of one byte: glyph 0 for A and the euro sign, glyph 1 for A and B.\<close>

definition small_font :: "u8 list" where
  "small_font = replicate 32 0 @ [7, 7] @ [0x41, 0xE2, 0x82, 0xAC, 0xFF, 0x41, 0x42, 0xFF]"

definition small_header :: psf_header where
  "small_header = \<lparr>magic = 0, version = 0, headersize = 32, flags = 1, glyphs = 2, bytes_per_glyph = 1, height = 1, width = 8\<rparr>"

theorem unicode_mapping_table_witness:
  "\<exists>m. unicode_mapping small_font small_header = Some (Some m) \<and> m 0x20AC = Some 0 \<and> m 0x41 = Some 1 \<and> m 0x43 = None"
proof -
  let ?ss = "[[0x41, 0x20AC], [0x41, 0x42]]"
  have s: "34 = unat (headersize small_header + glyphs small_header * bytes_per_glyph small_header)" by (simp add: small_header_def)
  have t: "map unat (drop 34 small_font) = table ?ss"
    by (simp add: small_font_def table_def utf8_def utf8_encode_def)
  have "\<forall>cs \<in> set ?ss. \<forall>c \<in> set cs. scalar c" by (simp add: scalar_def)
  from unicode_mapping_table [OF _ s _ t this] obtain m where "unicode_mapping small_font small_header = Some (Some m)"
    "\<forall>c. (\<forall>i < length ?ss. c \<in> set (?ss ! i) \<longrightarrow> (\<forall>j < length ?ss. i < j \<longrightarrow> c \<notin> set (?ss ! j)) \<longrightarrow> m c = Some (of_nat i))
      \<and> ((\<forall>cs \<in> set ?ss. c \<notin> set cs) \<longrightarrow> m c = None)"
    by (auto simp: small_header_def small_font_def)
  moreover from this(2) [THEN spec, of "0x20AC"] this(2) [THEN spec, of "0x41"] this(2) [THEN spec, of "0x43"]
  have "m 0x20AC = Some 0" "m 0x41 = Some 1" "m 0x43 = None" by (auto simp: less_Suc_eq)
  ultimately show ?thesis by blast
qed

end
