(* ===== verification/Screen.thy ===== *)
theory Screen
  imports Psf
begin

text \<open>
  The text console on the frame buffer (\<^verbatim>\<open>FrameBufferManager\<close> of \<^verbatim>\<open>font/mod.rs\<close>). A \<^verbatim>\<open>usize\<close> is
  a natural number, with the wrap-around of its arithmetic written out (\<open>uadd\<close>, \<open>usub\<close>, \<open>umul\<close>).
  The frame buffer is a list of bytes; a write or a read of the font outside their memory, and a
  panic, are \<open>None\<close>. The font file \<open>ft\<close> and its header are parameters.
\<close>

section \<open>Machine arithmetic\<close>

definition uadd :: "nat \<Rightarrow> nat \<Rightarrow> nat" where "uadd a b = (a + b) mod 2 ^ 64"
definition usub :: "nat \<Rightarrow> nat \<Rightarrow> nat" where "usub a b = (a + (2 ^ 64 - b)) mod 2 ^ 64"
definition umul :: "nat \<Rightarrow> nat \<Rightarrow> nat" where "umul a b = a * b mod 2 ^ 64"

lemma uadd_exact: "a + b < 2 ^ 64 \<Longrightarrow> uadd a b = a + b"
  by (simp add: uadd_def)

lemma uadd_Suc: "a < 2 ^ 63 \<Longrightarrow> uadd a 1 = Suc a"
  by (simp add: uadd_exact)

lemma umul_exact: "a * b < 2 ^ 64 \<Longrightarrow> umul a b = a * b"
  by (simp add: umul_def)

lemma usub_exact: "\<lbrakk>b \<le> a; a < 2 ^ 64\<rbrakk> \<Longrightarrow> usub a b = a - b"
proof -
  assume a: "b \<le> a" "a < 2 ^ 64"
  then have "usub a b = ((a - b) + 2 ^ 64) mod 2 ^ 64" unfolding usub_def by (intro arg_cong [where f = "\<lambda>x. x mod 2 ^ 64"]) simp
  also have "\<dots> = a - b" using a(2) by simp
  finally show ?thesis .
qed

section \<open>State\<close>

record screen =
  fb :: "u8 list"
  mapping :: "char_map option"
  chars :: "codepoint list"
  horiz_chars :: nat
  bytes_per_pixel :: nat
  stride :: nat
  idx :: nat
  red_mask_shift :: u8
  green_mask_shift :: u8
  blue_mask_shift :: u8

text \<open>What the boot loader reports of its frame buffer, and the memory behind \<^verbatim>\<open>addr()\<close>.\<close>

record framebuffer =
  fb_width :: nat
  fb_height :: nat
  fb_bpp :: nat
  fb_pitch :: nat
  fb_memory :: "u8 list"
  fb_red :: u8
  fb_green :: u8
  fb_blue :: u8

section \<open>Drawing a character\<close>

definition le4 :: "u32 \<Rightarrow> u8 list" where
  "le4 v = [ucast v, ucast (drop_bit 8 v), ucast (drop_bit 16 v), ucast (drop_bit 24 v)]"

text \<open>\<^verbatim>\<open>(fb.as_mut_ptr().add(o) as *mut u32).write_volatile(v)\<close>\<close>

definition write_u32 :: "u8 list \<Rightarrow> nat \<Rightarrow> u32 \<Rightarrow> u8 list option" where
  "write_u32 bs o' v = (if o' + 4 \<le> length bs then Some (take o' bs @ le4 v @ drop (o' + 4) bs) else None)"

definition rotate_left1 :: "u16 \<Rightarrow> u16" where
  "rotate_left1 g = push_bit 1 g OR drop_bit 15 g"

text \<open>The loop over the pixels of one row.\<close>

definition putc_row :: "u16 \<Rightarrow> u32 \<Rightarrow> u32 \<Rightarrow> nat \<Rightarrow> nat \<Rightarrow> u8 list \<times> u16 \<times> nat \<Rightarrow> (u8 list \<times> u16 \<times> nat) option" where
  "putc_row gly fg bg bpp font_width = for_in [0..<font_width] (\<lambda>_ (bs, mask, line). do {
     bs \<leftarrow> write_u32 bs line (if gly AND mask \<noteq> 0 then fg else bg);
     Some (bs, drop_bit 1 mask, uadd line bpp) })"

text \<open>The body of the loop over the rows; \<open>1 << (font_width - 1)\<close> on a 16-bit integer takes the shift modulo 16.\<close>

definition putc_line :: "u8 list \<Rightarrow> u32 \<Rightarrow> u32 \<Rightarrow> nat \<Rightarrow> nat \<Rightarrow> nat \<Rightarrow> nat \<Rightarrow> u8 list \<times> nat \<times> nat \<Rightarrow> (u8 list \<times> nat \<times> nat) option" where
  "putc_line ft fg bg bpp font_width bytes_per_line pitch = (\<lambda>(bs, glyph, offset). do {
     let mask = push_bit (usub font_width 1 mod 16) 1;
     gly \<leftarrow> u16_at ft glyph;
     (bs, _, _) \<leftarrow> putc_row (rotate_left1 gly) fg bg bpp font_width (bs, mask, offset);
     Some (bs, uadd glyph bytes_per_line, uadd offset pitch) })"

definition glyph_number :: "psf_header \<Rightarrow> char_map option \<Rightarrow> codepoint \<Rightarrow> nat" where
  "glyph_number font mp c =
     (let c = (case mp of None \<Rightarrow> of_nat c | Some m \<Rightarrow> (case m c of Some g \<Rightarrow> g | None \<Rightarrow> 0))
      in if glyphs font \<le> c then 0 else unat c)"

definition putc :: "u8 list \<Rightarrow> psf_header \<Rightarrow> u8 list \<Rightarrow> nat \<Rightarrow> nat \<Rightarrow> char_map option \<Rightarrow> codepoint \<Rightarrow> nat \<Rightarrow> nat \<Rightarrow> u32 \<Rightarrow> u32 \<Rightarrow> u8 list option" where
  "putc ft font bs bpp pitch mp c cx cy fg bg =
     (if bpp \<noteq> 4 then None
      else
        let font_height = unat (height font);
            font_width = unat (width font);
            bytes_per_line = uadd font_width 7 div 8;
            glyph_index = glyph_number font mp c;
            glyph = uadd (unat (headersize font)) (umul glyph_index (unat (bytes_per_glyph font)));
            offset = uadd (umul (umul cy font_height) pitch) (umul (umul cx font_width) bpp)
        in do {
          (bs, _, _) \<leftarrow> for_in [0..<font_height] (\<lambda>_. putc_line ft fg bg bpp font_width bytes_per_line pitch) (bs, glyph, offset);
          Some bs })"

definition putchar :: "u8 list \<Rightarrow> psf_header \<Rightarrow> codepoint \<Rightarrow> nat \<Rightarrow> nat \<Rightarrow> u32 \<Rightarrow> u32 \<Rightarrow> screen \<Rightarrow> screen option" where
  "putchar ft font c cx cy fg bg f = do {
     bs \<leftarrow> putc ft font (fb f) (bytes_per_pixel f) (stride f) (mapping f) c cx cy fg bg;
     Some (f\<lparr>fb := bs\<rparr>) }"

section \<open>The grid of characters\<close>

definition redraw :: "u8 list \<Rightarrow> psf_header \<Rightarrow> screen \<Rightarrow> screen option" where
  "redraw ft font f = do {
     (bs, _, _) \<leftarrow> for_in (chars f) (\<lambda>c (bs, x, y). do {
       bs \<leftarrow> putc ft font bs (bytes_per_pixel f) (stride f) (mapping f) c x y (-1) 0;
       Some (if uadd x 1 = horiz_chars f then (bs, 0, uadd y 1) else (bs, uadd x 1, y)) }) (fb f, 0, 0);
     Some (f\<lparr>fb := bs\<rparr>) }"

text \<open>\<^verbatim>\<open>rotate_left\<close> panics when it is asked to rotate by more than the length.\<close>

definition newline :: "screen \<Rightarrow> screen option" where
  "newline f =
     (let cs = chars f; h = horiz_chars f
      in if h \<le> length cs
         then let cs = drop h cs @ take h cs in Some (f\<lparr>chars := take (length cs - h) cs @ replicate h 32\<rparr>)
         else None)"

definition set_char :: "nat \<Rightarrow> codepoint \<Rightarrow> screen \<Rightarrow> screen option" where
  "set_char i c f = (if i < length (chars f) then Some (f\<lparr>chars := (chars f)[i := c]\<rparr>) else None)"

definition put :: "u8 list \<Rightarrow> psf_header \<Rightarrow> codepoint \<Rightarrow> screen \<Rightarrow> screen option" where
  "put ft font c f =
     (if c = 10 then do { f \<leftarrow> newline (f\<lparr>idx := 0\<rparr>); redraw ft font f }
      else do {
        let last_line = usub (length (chars f)) (horiz_chars f);
        f \<leftarrow> (if idx f = horiz_chars f then do {
                f \<leftarrow> newline (f\<lparr>idx := 0\<rparr>);
                f \<leftarrow> set_char last_line c f;
                redraw ft font f }
              else do {
                f \<leftarrow> set_char (uadd last_line (idx f)) c f;
                if horiz_chars f = 0 then None
                else putchar ft font c (idx f) (usub (length (chars f) div horiz_chars f) 1) 0xFFFFFF 0 f });
        Some (f\<lparr>idx := uadd (idx f) 1\<rparr>) })"

definition write_str :: "u8 list \<Rightarrow> psf_header \<Rightarrow> codepoint list \<Rightarrow> screen \<Rightarrow> screen option" where
  "write_str ft font s f = for_in s (put ft font) f"

text \<open>
  \<^verbatim>\<open>FrameBufferManager::new\<close>: \<open>None\<close> is the division by a font size of 0 or the panic of
  \<open>unicode_mapping\<close>.
\<close>

definition screen_new :: "u8 list \<Rightarrow> psf_header \<Rightarrow> framebuffer \<Rightarrow> screen option" where
  "screen_new ft font b = do {
     m \<leftarrow> unicode_mapping ft font;
     if width font = 0 \<or> height font = 0 then None
     else
       let horiz_chars = fb_width b div unat (width font);
           vert_chars = fb_height b div unat (height font)
       in Some \<lparr>fb = take (umul (fb_height b) (fb_pitch b)) (fb_memory b), mapping = m,
            chars = replicate (umul horiz_chars vert_chars) 32, horiz_chars = horiz_chars,
            bytes_per_pixel = fb_bpp b div 8, stride = fb_pitch b, idx = 0,
            red_mask_shift = fb_red b, green_mask_shift = fb_green b, blue_mask_shift = fb_blue b\<rparr> }"

text \<open>
  The console behind the static \<^verbatim>\<open>FBMAN\<close>, whose mutex is held during \<^verbatim>\<open>_print\<close>; the formatting machinery
  hands its pieces of text to \<open>write_str\<close> one after the other. The assertion of \<open>insert_fbman\<close> is
  not compiled into a release build. Printing without a console panics.
\<close>

definition insert_fbman :: "screen \<Rightarrow> screen option \<Rightarrow> screen option" where
  "insert_fbman fbman FBMAN = Some fbman"

definition print_args :: "u8 list \<Rightarrow> psf_header \<Rightarrow> codepoint list list \<Rightarrow> screen option \<Rightarrow> screen option option" where
  "print_args ft font args FBMAN = do {
     f \<leftarrow> FBMAN;
     f \<leftarrow> for_in args (write_str ft font) f;
     Some (Some f) }"

lemma for_in_write_str: "for_in args (write_str ft font) f = write_str ft font (concat args) f"
  by (induction args arbitrary: f) (auto simp: write_str_def for_in_append split: bind_splits)

section \<open>What drawing a character does to the frame buffer\<close>

lemma length_le4 [simp]: "length (le4 v) = 4"
  by (simp add: le4_def)

lemma write_u32_nth:
  assumes "p + 4 \<le> length bs"
  shows "\<exists>bs'. write_u32 bs p v = Some bs' \<and> length bs' = length bs \<and>
    (\<forall>k < length bs. bs' ! k = (if p \<le> k \<and> k < p + 4 then le4 v ! (k - p) else bs ! k))"
  using assms by (auto simp: write_u32_def nth_append)

definition lit :: "u16 \<Rightarrow> nat \<Rightarrow> nat \<Rightarrow> bool" where
  "lit gly fw j \<longleftrightarrow> bit gly (fw - 1 - j)"

lemma rect_row:
  fixes k :: nat
  assumes "w \<le> st" "base + r * st \<le> k" "k < base + r * st + w"
  shows "(k - base) div st = r" "(k - base) mod st = k - (base + r * st)"
proof -
  have "k - base = (k - (base + r * st)) + r * st" using assms(2) by linarith
  moreover have "k - (base + r * st) < st" using assms by linarith
  ultimately show "(k - base) div st = r" "(k - base) mod st = k - (base + r * st)" by simp_all
qed

lemma putc_row_nth:
  assumes "line + 4 * n \<le> length bs" "length bs < 2 ^ 63" "n \<le> fw" "0 < fw" "fw \<le> 16"
  shows "\<exists>bs'. putc_row gly fg bg 4 n (bs, push_bit (fw - 1) 1, line) = Some (bs', drop_bit n (push_bit (fw - 1) 1), line + 4 * n)
    \<and> length bs' = length bs \<and> (\<forall>k < length bs. bs' ! k =
       (if line \<le> k \<and> k < line + 4 * n then le4 (if lit gly fw ((k - line) div 4) then fg else bg) ! ((k - line) mod 4) else bs ! k))"
  using assms(1,3)
proof (induction n)
  case 0
  then show ?case by (auto simp: putc_row_def)
next
  case (Suc n)
  then obtain bs1 where b1: "putc_row gly fg bg 4 n (bs, push_bit (fw - 1) 1, line) = Some (bs1, drop_bit n (push_bit (fw - 1) 1), line + 4 * n)"
    "length bs1 = length bs" "\<forall>k < length bs. bs1 ! k =
       (if line \<le> k \<and> k < line + 4 * n then le4 (if lit gly fw ((k - line) div 4) then fg else bg) ! ((k - line) mod 4) else bs ! k)"
    by auto
  have "drop_bit n (push_bit (fw - 1) 1 :: u16) = push_bit (fw - 1 - n) 1"
    using Suc.prems(2) assms(5) by (intro bit_eqI) (auto simp: bit_simps)
  then have m: "gly AND drop_bit n (2 ^ (fw - Suc 0)) = 0 \<longleftrightarrow> \<not> lit gly fw n" by (simp add: and_exp_eq_0_iff_not_bit lit_def)
  obtain bs2 where b2: "write_u32 bs1 (line + 4 * n) (if lit gly fw n then fg else bg) = Some bs2" "length bs2 = length bs"
    "\<forall>k < length bs. bs2 ! k = (if line + 4 * n \<le> k \<and> k < line + 4 * n + 4 then le4 (if lit gly fw n then fg else bg) ! (k - (line + 4 * n)) else bs1 ! k)"
    using write_u32_nth [of "line + 4 * n" bs1] Suc.prems(1) b1(2) by auto
  have "putc_row gly fg bg 4 (Suc n) (bs, push_bit (fw - 1) 1, line) = Some (bs2, drop_bit (Suc n) (push_bit (fw - 1) 1), line + 4 * Suc n)"
    using b1(1) b2(1) Suc.prems(1) assms(2) by (simp add: putc_row_def for_in_append m uadd_exact)
  moreover have "bs2 ! k = (if line \<le> k \<and> k < line + 4 * Suc n then le4 (if lit gly fw ((k - line) div 4) then fg else bg) ! ((k - line) mod 4) else bs ! k)"
    if k: "k < length bs" for k
  proof (cases "line + 4 * n \<le> k \<and> k < line + 4 * n + 4")
    case True
    then have "(k - line) div 4 = n" "(k - line) mod 4 = k - (line + 4 * n)"
      using rect_row [of 4 4 line n k] by (auto simp: mult.commute)
    then show ?thesis using True b2(3) k by simp
  qed (use b1(3) b2(3) k in auto)
  ultimately show ?case using b2(2) by blast
qed

text \<open>The byte \<open>k\<close> of a rectangle of \<open>r\<close> rows of \<open>w\<close> bytes that starts at \<open>base\<close>.\<close>

definition in_rect :: "nat \<Rightarrow> nat \<Rightarrow> nat \<Rightarrow> nat \<Rightarrow> nat \<Rightarrow> bool" where
  "in_rect st base r w k \<longleftrightarrow> base \<le> k \<and> (k - base) div st < r \<and> (k - base) mod st < w"

text \<open>A glyph's row as the code reads it, and the colour it gives to a pixel.\<close>

definition glyph_row :: "u8 list \<Rightarrow> psf_header \<Rightarrow> nat \<Rightarrow> nat \<Rightarrow> u16" where
  "glyph_row ft font g row =
     rotate_left1 (the (u16_at ft (unat (headersize font) + g * unat (bytes_per_glyph font) + 2 * row)))"

definition colour :: "u8 list \<Rightarrow> psf_header \<Rightarrow> u32 \<Rightarrow> u32 \<Rightarrow> nat \<Rightarrow> nat \<Rightarrow> nat \<Rightarrow> u32" where
  "colour ft font fg bg g row j = (if lit (glyph_row ft font g row) (unat (width font)) j then fg else bg)"

text \<open>A font whose glyphs have rows of two bytes and lie in the file.\<close>

definition font_ok :: "u8 list \<Rightarrow> psf_header \<Rightarrow> bool" where
  "font_ok ft font \<longleftrightarrow> 9 \<le> unat (width font) \<and> unat (width font) \<le> 16 \<and> 0 < unat (height font) \<and> 0 < glyphs font
     \<and> 2 * unat (height font) \<le> unat (bytes_per_glyph font)
     \<and> unat (headersize font) + unat (glyphs font) * unat (bytes_per_glyph font) \<le> length ft \<and> length ft < 2 ^ 63"

lemma font_ok_line: "font_ok ft font \<Longrightarrow> uadd (unat (width font)) 7 div 8 = 2"
  by (auto simp: font_ok_def uadd_exact)

lemma glyph_number_less: "font_ok ft font \<Longrightarrow> glyph_number font mp c < unat (glyphs font)"
  by (auto simp: glyph_number_def font_ok_def Let_def not_le word_less_nat_alt)

lemma in_rect_Suc:
  assumes "w \<le> st" "0 < w"
  shows "in_rect st base (Suc r) w k \<longleftrightarrow> in_rect st base r w k \<or> base + r * st \<le> k \<and> k < base + r * st + w"
proof
  assume "in_rect st base (Suc r) w k"
  then have k: "base \<le> k" "(k - base) div st < Suc r" "(k - base) mod st < w" by (auto simp: in_rect_def)
  show "in_rect st base r w k \<or> base + r * st \<le> k \<and> k < base + r * st + w"
  proof (cases "(k - base) div st = r")
    case True
    then have "k - base = r * st + (k - base) mod st" by auto
    then show ?thesis using k(1,3) by linarith
  qed (use k in \<open>auto simp: in_rect_def\<close>)
next
  assume "in_rect st base r w k \<or> base + r * st \<le> k \<and> k < base + r * st + w"
  then show "in_rect st base (Suc r) w k" using rect_row [OF assms(1), of base r k] assms(2) by (auto simp: in_rect_def)
qed

text \<open>The loop over the rows.\<close>

lemma putc_rows:
  fixes ft font g
  defines "fw \<equiv> unat (width font)"
  defines "start \<equiv> unat (headersize font) + g * unat (bytes_per_glyph font)"
  defines "step \<equiv> \<lambda>fg bg st (_ :: nat). putc_line ft fg bg 4 fw 2 st"
  assumes "font_ok ft font" "g < unat (glyphs font)" "4 * fw \<le> st" "st < 2 ^ 63" "length bs < 2 ^ 63"
    "r \<le> unat (height font)" "base + r * st \<le> length bs + st - 4 * fw"
  shows "\<exists>bs'. for_in [0..<r] (step fg bg st) (bs, start, base) = Some (bs', start + 2 * r, base + r * st) \<and> length bs' = length bs
    \<and> (\<forall>k < length bs. bs' ! k = (if in_rect st base r (4 * fw) k
         then le4 (colour ft font fg bg g ((k - base) div st) ((k - base) mod st div 4)) ! ((k - base) mod st mod 4) else bs ! k))"
  using assms(9,10)
proof (induction r)
  case 0
  then show ?case by (auto simp: in_rect_def)
next
  case (Suc r)
  have fw: "9 \<le> fw" "fw \<le> 16" "usub fw 1 mod 16 = fw - 1"
    using assms(4) by (auto simp: fw_def font_ok_def usub_exact)
  have prem: "base + r * st \<le> length bs + st - 4 * fw" "base + r * st + 4 * fw \<le> length bs" using Suc.prems(2) assms(6) by auto
  then obtain bs1 where b1: "for_in [0..<r] (step fg bg st) (bs, start, base) = Some (bs1, start + 2 * r, base + r * st)" "length bs1 = length bs"
    "\<forall>k < length bs. bs1 ! k = (if in_rect st base r (4 * fw) k
         then le4 (colour ft font fg bg g ((k - base) div st) ((k - base) mod st div 4)) ! ((k - base) mod st mod 4) else bs ! k)"
    using Suc.IH Suc.prems(1) by auto
  have "g * unat (bytes_per_glyph font) + 2 * Suc r \<le> g * unat (bytes_per_glyph font) + unat (bytes_per_glyph font)"
    using assms(4) Suc.prems(1) by (auto simp: font_ok_def)
  also have "\<dots> = Suc g * unat (bytes_per_glyph font)" by simp
  also have "\<dots> \<le> unat (glyphs font) * unat (bytes_per_glyph font)" using assms(5) by (intro mult_le_mono1) simp
  finally have len: "start + 2 * r + 2 \<le> length ft" "length ft < 2 ^ 63" using assms(4) unfolding start_def font_ok_def by auto
  obtain gly where gly: "u16_at ft (start + 2 * r) = Some gly" "rotate_left1 gly = glyph_row ft font g r"
    using len(1) by (auto simp: u16_at_def glyph_row_def start_def)
  obtain bs2 where b2: "putc_row (rotate_left1 gly) fg bg 4 fw (bs1, push_bit (fw - 1) 1, base + r * st)
      = Some (bs2, drop_bit fw (push_bit (fw - 1) 1), base + r * st + 4 * fw)" "length bs2 = length bs1"
    "\<forall>k < length bs1. bs2 ! k = (if base + r * st \<le> k \<and> k < base + r * st + 4 * fw
       then le4 (if lit (rotate_left1 gly) fw ((k - (base + r * st)) div 4) then fg else bg) ! ((k - (base + r * st)) mod 4) else bs1 ! k)"
    using putc_row_nth [of "base + r * st" fw bs1 fw "rotate_left1 gly" fg bg] b1(2) prem(2) assms(8) fw(1,2) by auto
  have "uadd (start + 2 * r) 2 = start + 2 * Suc r" "uadd (base + r * st) st = base + Suc r * st"
    using len prem assms(6-8) by (simp_all add: uadd_exact)
  then have "for_in [0..<Suc r] (step fg bg st) (bs, start, base) = Some (bs2, start + 2 * Suc r, base + Suc r * st)"
    using b1(1) gly(1) b2(1) fw(3) by (simp add: for_in_append step_def putc_line_def)
  moreover have "bs2 ! k = (if in_rect st base (Suc r) (4 * fw) k
      then le4 (colour ft font fg bg g ((k - base) div st) ((k - base) mod st div 4)) ! ((k - base) mod st mod 4) else bs ! k)"
    if k: "k < length bs" for k
  proof (cases "base + r * st \<le> k \<and> k < base + r * st + 4 * fw")
    case True
    have rr: "(k - base) div st = r" "(k - base) mod st = k - (base + r * st)" using rect_row [OF assms(6), of base r k] True by auto
    show ?thesis unfolding rr using True b2 b1(2) k gly(2) in_rect_Suc [OF assms(6), of base r k] fw(1)
      by (simp add: colour_def fw_def)
  next
    case False
    then have "bs2 ! k = bs1 ! k" "in_rect st base (Suc r) (4 * fw) k \<longleftrightarrow> in_rect st base r (4 * fw) k"
      using b2(3) b1(2) k in_rect_Suc [OF assms(6), of base r k] fw(1) by auto
    then show ?thesis using b1(3) k by simp
  qed
  ultimately show ?case using b1(2) b2(2) by auto
qed

text \<open>The same in coordinates: row \<open>y\<close> and byte \<open>q\<close> of the row.\<close>

lemma rect_coords:
  fixes st :: nat
  assumes "q < st" "B \<le> y" "p \<le> q"
  shows "(y * st + q - (B * st + p)) div st = y - B" "(y * st + q - (B * st + p)) mod st = q - p"
proof -
  obtain d e where d: "y = B + d" and e: "q = p + e" using le_Suc_ex [OF assms(2)] le_Suc_ex [OF assms(3)] by blast
  have "y * st + q = B * st + p + (e + d * st)" unfolding d e by (simp only: add_mult_distrib add.assoc add.commute add.left_commute)
  then have x: "y * st + q - (B * st + p) = e + d * st" by (simp only: add_diff_cancel_left')
  have "e < st" using assms(1) e by simp
  then show "(y * st + q - (B * st + p)) div st = y - B" "(y * st + q - (B * st + p)) mod st = q - p" unfolding x using d e by simp_all
qed

lemma rect_coords_left:
  fixes st :: nat
  assumes "p + w \<le> st" "q < p" "B < y"
  shows "w \<le> (y * st + q - (B * st + p)) mod st"
proof -
  obtain d where d: "y = B + Suc d" using less_imp_Suc_add [OF assms(3)] by auto
  obtain e where e: "p = q + e" "0 < e" using less_imp_add_positive [OF assms(2)] by auto
  obtain f where f: "st = e + f" "w \<le> f" using assms(1) e(1) le_Suc_ex [of e st] by (auto dest: le_Suc_ex)
  have "y * st + q = B * st + p + (f + d * st)"
    unfolding d e(1) add_mult_distrib mult_Suc by (simp only: f(1) add.assoc add.commute add.left_commute)
  then have "y * st + q - (B * st + p) = f + d * st" by (simp only: add_diff_cancel_left')
  then show ?thesis using f e(2) by simp
qed

lemma in_rect_coords:
  assumes "q < st" "p + w \<le> st" "0 < w"
  shows "in_rect st (B * st + p) r w (y * st + q) \<longleftrightarrow> B \<le> y \<and> y < B + r \<and> p \<le> q \<and> q < p + w"
proof -
  consider "y < B" | "B \<le> y" "p \<le> q" | "y = B" "q < p" | "B < y" "q < p" by linarith
  then show ?thesis
  proof cases
    case 1
    then have "Suc y * st \<le> B * st" by (intro mult_le_mono1) simp
    then show ?thesis using 1 assms(1) by (simp add: in_rect_def)
  next
    case 2
    then have "B * st + p \<le> y * st + q" by (intro add_mono mult_le_mono1)
    then show ?thesis using 2 rect_coords [OF assms(1) 2] by (auto simp: in_rect_def)
  next
    case 3
    then show ?thesis by (simp add: in_rect_def)
  next
    case 4
    then show ?thesis using rect_coords_left [OF assms(2) 4(2,1)] by (simp add: in_rect_def)
  qed
qed

text \<open>A grid of \<open>h\<close> times \<open>v\<close> characters that fits the frame buffer.\<close>

definition grid_fits :: "psf_header \<Rightarrow> nat \<Rightarrow> nat \<Rightarrow> nat \<Rightarrow> nat \<Rightarrow> bool" where
  "grid_fits font st h v len \<longleftrightarrow> 4 * (h * unat (width font)) \<le> st \<and> st < 2 ^ 63 \<and> v * unat (height font) * st \<le> len \<and> len < 2 ^ 63"

lemma grid_cell:
  assumes "grid_fits font st h v len" "cx < h" "cy < v" "0 < unat (width font)" "0 < unat (height font)"
  shows "cx * unat (width font) * 4 + 4 * unat (width font) \<le> st"
    "cy * unat (height font) * st + unat (height font) * st \<le> len" "0 < st"
    "cy * unat (height font) < 2 ^ 63" "cx * unat (width font) < 2 ^ 63"
proof -
  have "Suc cx * unat (width font) \<le> h * unat (width font)" using assms(2) by (intro mult_le_mono1) simp
  then show st: "cx * unat (width font) * 4 + 4 * unat (width font) \<le> st" using assms(1) by (auto simp: grid_fits_def)
  have "Suc cy * unat (height font) * st \<le> v * unat (height font) * st" using assms(3) by (intro mult_le_mono1) simp
  then show len: "cy * unat (height font) * st + unat (height font) * st \<le> len" using assms(1) by (auto simp: grid_fits_def algebra_simps)
  show "0 < st" using st assms(4) by auto
  then have "cy * unat (height font) * 1 \<le> cy * unat (height font) * st" by (intro mult_le_mono2) simp
  then show "cy * unat (height font) < 2 ^ 63" using len assms(1) unfolding grid_fits_def by linarith
  show "cx * unat (width font) < 2 ^ 63" using st assms(1) unfolding grid_fits_def by linarith
qed

lemma putc_draws:
  assumes "font_ok ft font" "grid_fits font st h v (length bs)" "cx < h" "cy < v"
  defines "fw \<equiv> unat (width font)" and "fh \<equiv> unat (height font)"
  shows "\<exists>bs'. putc ft font bs 4 st mp c cx cy fg bg = Some bs' \<and> length bs' = length bs \<and>
    (\<forall>y q. q < st \<longrightarrow> y * st + q < length bs \<longrightarrow> bs' ! (y * st + q) =
       (if cy * fh \<le> y \<and> y < cy * fh + fh \<and> cx * fw * 4 \<le> q \<and> q < cx * fw * 4 + 4 * fw
        then le4 (colour ft font fg bg (glyph_number font mp c) (y - cy * fh) ((q - cx * fw * 4) div 4)) ! ((q - cx * fw * 4) mod 4)
        else bs ! (y * st + q)))"
proof -
  let ?g = "glyph_number font mp c" and ?base = "cy * fh * st + cx * fw * 4"
  have pos: "0 < fw" "0 < fh" using assms(1) by (auto simp: font_ok_def fw_def fh_def)
  note cell = grid_cell [OF assms(2,3,4) pos [unfolded fw_def fh_def], folded fw_def fh_def]
  have len: "length bs < 2 ^ 63" "st < 2 ^ 63" using assms(2) by (auto simp: grid_fits_def)
  have g: "?g < unat (glyphs font)" by (rule glyph_number_less [OF assms(1)])
  have "?g * unat (bytes_per_glyph font) \<le> unat (glyphs font) * unat (bytes_per_glyph font)" using g by (intro mult_le_mono1) simp
  then have "unat (headersize font) + ?g * unat (bytes_per_glyph font) < 2 ^ 63" using assms(1) unfolding font_ok_def by linarith
  then have "uadd (unat (headersize font)) (umul ?g (unat (bytes_per_glyph font))) = unat (headersize font) + ?g * unat (bytes_per_glyph font)"
    by (simp add: uadd_exact umul_exact)
  moreover have "uadd (umul (umul cy fh) st) (umul (umul cx fw) 4) = ?base"
    using cell len by (simp add: uadd_exact umul_exact)
  moreover have "?base + fh * st \<le> length bs + st - 4 * fw" using cell(1,2) by linarith
  then obtain bs' where "for_in [0..<fh] (\<lambda>_. putc_line ft fg bg 4 fw 2 st) (bs, unat (headersize font) + ?g * unat (bytes_per_glyph font), ?base)
      = Some (bs', unat (headersize font) + ?g * unat (bytes_per_glyph font) + 2 * fh, ?base + fh * st)" "length bs' = length bs"
    and nth: "\<forall>k < length bs. bs' ! k = (if in_rect st ?base fh (4 * fw) k
         then le4 (colour ft font fg bg ?g ((k - ?base) div st) ((k - ?base) mod st div 4)) ! ((k - ?base) mod st mod 4) else bs ! k)"
    using putc_rows [OF assms(1) g, of st bs fh ?base fg bg] cell(1) len unfolding fw_def fh_def by auto
  ultimately have "putc ft font bs 4 st mp c cx cy fg bg = Some bs'" "length bs' = length bs"
    using font_ok_line [OF assms(1)] by (simp_all add: putc_def Let_def flip: fw_def fh_def)
  moreover have "bs' ! (y * st + q) =
       (if cy * fh \<le> y \<and> y < cy * fh + fh \<and> cx * fw * 4 \<le> q \<and> q < cx * fw * 4 + 4 * fw
        then le4 (colour ft font fg bg ?g (y - cy * fh) ((q - cx * fw * 4) div 4)) ! ((q - cx * fw * 4) mod 4)
        else bs ! (y * st + q))" if "q < st" "y * st + q < length bs" for y q
    using nth [THEN spec, of "y * st + q"] that in_rect_coords [OF that(1) cell(1), of "cy * fh" fh y] rect_coords [OF that(1), of "cy * fh" y "cx * fw * 4"] pos(1) by simp
  ultimately show ?thesis by blast
qed

section \<open>What the screen shows\<close>

text \<open>
  The cell of character number \<open>i\<close> shows \<open>c\<close>: in the three colour bytes of each pixel the glyph's
  bits are white and the rest is black.
\<close>

definition cell_shows :: "u8 list \<Rightarrow> psf_header \<Rightarrow> nat \<Rightarrow> nat \<Rightarrow> char_map option \<Rightarrow> u8 list \<Rightarrow> nat \<Rightarrow> codepoint \<Rightarrow> bool" where
  "cell_shows ft font st h mp bs i c \<longleftrightarrow> (\<forall>row < unat (height font). \<forall>j < unat (width font). \<forall>b < 3.
     bs ! ((i div h * unat (height font) + row) * st + ((i mod h * unat (width font) + j) * 4 + b)) =
       (if lit (glyph_row ft font (glyph_number font mp c) row) (unat (width font)) j then 255 else 0))"

lemma less_3_4: "b < 3 \<longleftrightarrow> b = 0 \<or> b = 1 \<or> b = (2 :: nat)" "b < 4 \<longleftrightarrow> b = 0 \<or> b = 1 \<or> b = 2 \<or> b = (3 :: nat)"
  by linarith+

lemma le4_values: "le4 0 = [0, 0, 0, 0]" "le4 (-1) = [255, 255, 255, 255]" "le4 0xFFFFFF = [255, 255, 255, 0]"
  by code_simp+

lemma le4_black: "b < 4 \<Longrightarrow> le4 0 ! b = 0"
  by (auto simp: le4_values less_3_4)

lemma le4_white: "b < 3 \<Longrightarrow> le4 (-1) ! b = 255" "b < 3 \<Longrightarrow> le4 0xFFFFFF ! b = 255"
  by (auto simp: le4_values less_3_4)

lemma cell_pixel:
  assumes "grid_fits font st h v len" "i < h * v" "row < unat (height font)" "j < unat (width font)" "b < 4"
  shows "(i mod h * unat (width font) + j) * 4 + b < st"
    "(i div h * unat (height font) + row) * st + ((i mod h * unat (width font) + j) * 4 + b) < len"
proof -
  let ?fw = "unat (width font)" and ?fh = "unat (height font)"
  have i: "i mod h < h" "i div h < v" using assms(2) by (cases "h = 0"; simp add: less_mult_imp_div_less mult.commute)+
  have "Suc (i mod h) * ?fw \<le> h * ?fw" using i by (intro mult_le_mono1) simp
  then show q: "(i mod h * ?fw + j) * 4 + b < st" using assms(1,4,5) by (auto simp: grid_fits_def)
  have "Suc (i div h * ?fh + row) * st \<le> Suc (i div h) * ?fh * st" using assms(3) by (intro mult_le_mono1) simp
  also have "\<dots> \<le> v * ?fh * st" using i by (intro mult_le_mono1) simp
  finally show "(i div h * ?fh + row) * st + ((i mod h * ?fw + j) * 4 + b) < len" using q assms(1) by (simp add: grid_fits_def)
qed

lemma putc_cell:
  assumes "font_ok ft font" "grid_fits font st h v (length bs)" "i < h * v" "fg = -1 \<or> fg = 0xFFFFFF"
  shows "\<exists>bs'. putc ft font bs 4 st mp c (i mod h) (i div h) fg 0 = Some bs' \<and> length bs' = length bs \<and> cell_shows ft font st h mp bs' i c
    \<and> (\<forall>i' d. i' < h * v \<longrightarrow> i' \<noteq> i \<longrightarrow> cell_shows ft font st h mp bs i' d \<longrightarrow> cell_shows ft font st h mp bs' i' d)"
proof -
  let ?fw = "unat (width font)" and ?fh = "unat (height font)"
  have i: "i mod h < h" "i div h < v" using assms(3) by (cases "h = 0"; simp add: less_mult_imp_div_less mult.commute)+
  obtain bs' where b: "putc ft font bs 4 st mp c (i mod h) (i div h) fg 0 = Some bs'" "length bs' = length bs" and
    nth: "\<And>y q. q < st \<Longrightarrow> y * st + q < length bs \<Longrightarrow> bs' ! (y * st + q) =
       (if i div h * ?fh \<le> y \<and> y < i div h * ?fh + ?fh \<and> i mod h * ?fw * 4 \<le> q \<and> q < i mod h * ?fw * 4 + 4 * ?fw
        then le4 (colour ft font fg 0 (glyph_number font mp c) (y - i div h * ?fh) ((q - i mod h * ?fw * 4) div 4)) ! ((q - i mod h * ?fw * 4) mod 4)
        else bs ! (y * st + q))"
    using putc_draws [OF assms(1,2) i] by blast
  have "cell_shows ft font st h mp bs' i c" unfolding cell_shows_def
  proof (intro allI impI)
    fix row j b assume x: "row < ?fh" "j < ?fw" "b < (3 :: nat)"
    let ?q = "(i mod h * ?fw + j) * 4 + b"
    have q: "?q - i mod h * ?fw * 4 = j * 4 + b" "i mod h * ?fw * 4 \<le> ?q" "?q < i mod h * ?fw * 4 + 4 * ?fw" using x by auto
    have "(j * 4 + b) div 4 = j" "(j * 4 + b) mod 4 = b" using x(3) by simp_all
    then show "bs' ! ((i div h * ?fh + row) * st + ?q) = (if lit (glyph_row ft font (glyph_number font mp c) row) ?fw j then 255 else 0)"
      using nth [of ?q "i div h * ?fh + row"] cell_pixel [OF assms(2,3) x(1,2), of b] x q assms(4) le4_black [of b] le4_white [of b]
      by (auto simp: colour_def)
  qed
  moreover have "cell_shows ft font st h mp bs' i' d" if o: "i' < h * v" "i' \<noteq> i" "cell_shows ft font st h mp bs i' d" for i' d
    unfolding cell_shows_def
  proof (intro allI impI)
    fix row j b assume x: "row < ?fh" "j < ?fw" "b < (3 :: nat)"
    let ?q = "(i' mod h * ?fw + j) * 4 + b" and ?y = "i' div h * ?fh + row"
    have "i' div h \<noteq> i div h \<or> i' mod h \<noteq> i mod h" using o(2) by (metis div_mult_mod_eq)
    then have "\<not> (i div h * ?fh \<le> ?y \<and> ?y < i div h * ?fh + ?fh \<and> i mod h * ?fw * 4 \<le> ?q \<and> ?q < i mod h * ?fw * 4 + 4 * ?fw)"
    proof
      assume "i' div h \<noteq> i div h"
      then consider "Suc (i' div h) \<le> i div h" | "Suc (i div h) \<le> i' div h" by linarith
      then show ?thesis by cases (use x(1) mult_le_mono1 [of _ _ ?fh] in \<open>fastforce+\<close>)
    next
      assume "i' mod h \<noteq> i mod h"
      then consider "Suc (i' mod h) \<le> i mod h" | "Suc (i mod h) \<le> i' mod h" by linarith
      then show ?thesis by cases (use x(2,3) mult_le_mono1 [of _ _ ?fw] in \<open>fastforce+\<close>)
    qed
    then show "bs' ! (?y * st + ?q) = (if lit (glyph_row ft font (glyph_number font mp d) row) ?fw j then 255 else 0)"
      using nth [of ?q ?y] cell_pixel [OF assms(2) o(1) x(1,2), of b] x o(3) by (auto simp: cell_shows_def)
  qed
  ultimately show ?thesis using b by blast
qed

definition screen_shows :: "u8 list \<Rightarrow> psf_header \<Rightarrow> screen \<Rightarrow> bool" where
  "screen_shows ft font f \<longleftrightarrow> (\<forall>i < length (chars f). cell_shows ft font (stride f) (horiz_chars f) (mapping f) (fb f) i (chars f ! i))"

section \<open>Specification: a terminal\<close>

record terminal =
  rows :: "codepoint list list"
  col :: nat

definition term_newline :: "nat \<Rightarrow> terminal \<Rightarrow> terminal" where
  "term_newline w t = t\<lparr>rows := tl (rows t) @ [replicate w 32], col := 0\<rparr>"

definition term_put :: "nat \<Rightarrow> codepoint \<Rightarrow> terminal \<Rightarrow> terminal" where
  "term_put w c t =
     (if c = 10 then term_newline w t
      else let t = (if col t = w then term_newline w t else t)
           in t\<lparr>rows := butlast (rows t) @ [(last (rows t))[col t := c]], col := col t + 1\<rparr>)"

text \<open>The console holds the terminal's text, and its grid fits the frame buffer.\<close>

definition displays :: "psf_header \<Rightarrow> terminal \<Rightarrow> screen \<Rightarrow> bool" where
  "displays font t f \<longleftrightarrow> 0 < horiz_chars f \<and> rows t \<noteq> [] \<and> (\<forall>r \<in> set (rows t). length r = horiz_chars f) \<and>
     chars f = concat (rows t) \<and> idx f = col t \<and> col t \<le> horiz_chars f \<and> bytes_per_pixel f = 4 \<and>
     grid_fits font (stride f) (horiz_chars f) (length (rows t)) (length (fb f))"

lemma concat_rows: "\<forall>r \<in> set rs. length r = h \<Longrightarrow> length (concat rs) = h * length rs"
  by (induction rs) simp_all

lemma displaysD:
  assumes "displays font t f" "font_ok ft font"
  shows "length (chars f) = horiz_chars f * length (rows t)" "horiz_chars f \<le> length (chars f)" "length (chars f) < 2 ^ 63"
    "length (chars f) - horiz_chars f = horiz_chars f * (length (rows t) - 1)"
proof -
  show len: "length (chars f) = horiz_chars f * length (rows t)" using assms(1) concat_rows [of "rows t"] by (simp add: displays_def)
  show "horiz_chars f \<le> length (chars f)" using assms(1) unfolding len by (cases "rows t") (simp_all add: displays_def)
  have pos: "0 < unat (width font)" "0 < unat (height font)" using assms(2) by (auto simp: font_ok_def)
  have "horiz_chars f \<le> 4 * (horiz_chars f * unat (width font))" using pos(1) by simp
  then have h: "horiz_chars f \<le> stride f" using assms(1) unfolding displays_def grid_fits_def by linarith
  have "horiz_chars f * length (rows t) \<le> stride f * (length (rows t) * unat (height font))" using h pos(2) by (intro mult_le_mono) auto
  also have "\<dots> = length (rows t) * unat (height font) * stride f" by simp
  finally show "length (chars f) < 2 ^ 63" unfolding len using assms(1) unfolding displays_def grid_fits_def by linarith
  show "length (chars f) - horiz_chars f = horiz_chars f * (length (rows t) - 1)" unfolding len by (simp add: diff_mult_distrib2)
qed

lemma Suc_div_mod:
  assumes "0 < (h :: nat)"
  shows "Suc (n mod h) = h \<Longrightarrow> Suc n mod h = 0 \<and> Suc n div h = Suc (n div h)"
    "Suc (n mod h) \<noteq> h \<Longrightarrow> Suc n mod h = Suc (n mod h) \<and> Suc n div h = n div h"
  by (simp_all add: mod_Suc div_Suc)

text \<open>\<open>redraw\<close> draws every cell.\<close>

lemma redraw_loop:
  fixes f
  defines "step \<equiv> \<lambda>ft font c (bs, x, y). do {
       bs \<leftarrow> putc ft font bs (bytes_per_pixel f) (stride f) (mapping f) c x y (-1) 0;
       Some (if uadd x 1 = horiz_chars f then (bs, 0, uadd y 1) else (bs, uadd x 1, y)) }"
  assumes "font_ok ft font" "displays font t f" "n \<le> length (chars f)"
  shows "\<exists>bs. for_in (take n (chars f)) (step ft font) (fb f, 0, 0) = Some (bs, n mod horiz_chars f, n div horiz_chars f)
    \<and> length bs = length (fb f) \<and> (\<forall>i < n. cell_shows ft font (stride f) (horiz_chars f) (mapping f) bs i (chars f ! i))"
  using assms(4)
proof (induction n)
  case (Suc n)
  let ?h = "horiz_chars f" and ?v = "length (rows t)"
  have d: "0 < ?h" "bytes_per_pixel f = 4" "grid_fits font (stride f) ?h ?v (length (fb f))" using assms(3) by (auto simp: displays_def)
  note len = displaysD [OF assms(3,2)]
  obtain bs where b: "for_in (take n (chars f)) (step ft font) (fb f, 0, 0) = Some (bs, n mod ?h, n div ?h)" "length bs = length (fb f)"
    "\<forall>i < n. cell_shows ft font (stride f) ?h (mapping f) bs i (chars f ! i)" using Suc by auto
  have n: "n < ?h * ?v" using Suc.prems len(1) by simp
  obtain bs' where b': "putc ft font bs 4 (stride f) (mapping f) (chars f ! n) (n mod ?h) (n div ?h) (-1) 0 = Some bs'" "length bs' = length bs"
    "cell_shows ft font (stride f) ?h (mapping f) bs' n (chars f ! n)"
    "\<forall>i' d. i' < ?h * ?v \<longrightarrow> i' \<noteq> n \<longrightarrow> cell_shows ft font (stride f) ?h (mapping f) bs i' d \<longrightarrow> cell_shows ft font (stride f) ?h (mapping f) bs' i' d"
    using putc_cell [OF assms(2) _ n, of "stride f" bs "-1" "mapping f" "chars f ! n"] d(3) b(2) by auto
  have "n mod ?h < 2 ^ 63" using mod_less_divisor [OF d(1), of n] len(2,3) by linarith
  moreover have "n div ?h < 2 ^ 63" using div_le_dividend [of n ?h] Suc.prems len(3) by linarith
  ultimately have u: "uadd (n mod ?h) 1 = Suc (n mod ?h)" "uadd (n div ?h) 1 = Suc (n div ?h)" by (simp_all only: uadd_Suc)
  have "step ft font (chars f ! n) (bs, n mod ?h, n div ?h) = Some (bs', Suc n mod ?h, Suc n div ?h)"
    using b'(1) d(2) Suc_div_mod [OF d(1), of n] by (simp add: step_def u [simplified])
  then have "for_in (take (Suc n) (chars f)) (step ft font) (fb f, 0, 0) = Some (bs', Suc n mod ?h, Suc n div ?h)"
    using b(1) Suc.prems by (simp add: take_Suc_conv_app_nth for_in_append)
  moreover have "\<forall>i < Suc n. cell_shows ft font (stride f) ?h (mapping f) bs' i (chars f ! i)"
    using b'(3,4) b(3) n by (auto simp: less_Suc_eq)
  ultimately show ?case using b(2) b'(2) by auto
qed simp

lemma redraw_shows:
  assumes "font_ok ft font" "displays font t f"
  shows "\<exists>bs. redraw ft font f = Some (f\<lparr>fb := bs\<rparr>) \<and> displays font t (f\<lparr>fb := bs\<rparr>) \<and> screen_shows ft font (f\<lparr>fb := bs\<rparr>)"
  using redraw_loop [OF assms, of "length (chars f)"] assms(2) by (auto simp: redraw_def screen_shows_def displays_def)

lemma newline_displays:
  assumes "font_ok ft font" "displays font t f"
  shows "\<exists>cs. newline (f\<lparr>idx := 0\<rparr>) = Some (f\<lparr>idx := 0, chars := cs\<rparr>) \<and> displays font (term_newline (horiz_chars f) t) (f\<lparr>idx := 0, chars := cs\<rparr>)"
proof -
  obtain r rs where t: "rows t = r # rs" using assms(2) by (cases "rows t") (auto simp: displays_def)
  have "length r = horiz_chars f" "chars f = r @ concat rs" using assms(2) t by (auto simp: displays_def)
  then have "newline (f\<lparr>idx := 0\<rparr>) = Some (f\<lparr>idx := 0, chars := concat rs @ replicate (horiz_chars f) 32\<rparr>)"
    by (simp add: newline_def)
  moreover have "displays font (term_newline (horiz_chars f) t) (f\<lparr>idx := 0, chars := concat rs @ replicate (horiz_chars f) 32\<rparr>)"
    using assms(2) t by (auto simp: displays_def term_newline_def)
  ultimately show ?thesis by blast
qed

text \<open>Setting the character at the cursor.\<close>

definition term_set :: "codepoint \<Rightarrow> terminal \<Rightarrow> terminal" where
  "term_set c t = t\<lparr>rows := butlast (rows t) @ [(last (rows t))[col t := c]]\<rparr>"

lemma set_char_displays:
  assumes "font_ok ft font" "displays font t f" "col t < horiz_chars f"
  shows "\<exists>cs. set_char (horiz_chars f * (length (rows t) - 1) + col t) c f = Some (f\<lparr>chars := cs\<rparr>)
    \<and> cs = (chars f)[horiz_chars f * (length (rows t) - 1) + col t := c] \<and> displays font (term_set c t) (f\<lparr>chars := cs\<rparr>)"
proof -
  obtain rs l where t: "rows t = rs @ [l]" using assms(2) by (cases "rows t" rule: rev_cases) (auto simp: displays_def)
  have h: "length l = horiz_chars f" "chars f = concat rs @ l" "length (concat rs) = horiz_chars f * length rs"
    using assms(2) t concat_rows [of rs "horiz_chars f"] by (auto simp: displays_def)
  have "set_char (horiz_chars f * length rs + col t) c f = Some (f\<lparr>chars := concat rs @ l[col t := c]\<rparr>)"
    using h assms(3) by (simp add: set_char_def list_update_append)
  moreover have "displays font (term_set c t) (f\<lparr>chars := concat rs @ l[col t := c]\<rparr>)"
    using assms(2) t by (auto simp: displays_def term_set_def)
  moreover have "(chars f)[horiz_chars f * length rs + col t := c] = concat rs @ l[col t := c]"
    using h by (simp add: list_update_append)
  ultimately show ?thesis using t by simp
qed

lemma put_displays:
  assumes "font_ok ft font" "displays font t f"
  shows "\<exists>f'. put ft font c f = Some f' \<and> displays font (term_put (horiz_chars f) c t) f' \<and> horiz_chars f' = horiz_chars f
    \<and> (screen_shows ft font f \<or> c = 10 \<or> col t = horiz_chars f \<longrightarrow> screen_shows ft font f')"
proof -
  let ?h = "horiz_chars f" and ?last = "horiz_chars f * (length (rows t) - 1)"
  have d: "idx f = col t" "0 < ?h" "bytes_per_pixel f = 4" "grid_fits font (stride f) ?h (length (rows t)) (length (fb f))" "col t \<le> ?h" "rows t \<noteq> []"
    using assms(2) by (auto simp: displays_def)
  note len = displaysD [OF assms(2,1)]
  have last: "usub (length (chars f)) ?h = ?last" using len by (simp add: usub_exact)
  have "?h < 2 ^ 63" "col t < 2 ^ 63" using d(5) len(2,3) by linarith+
  then have small: "uadd (col t) 1 = col t + 1" "?h < 2 ^ 63" by (simp_all only: uadd_Suc Suc_eq_plus1)
  obtain cs where n: "newline (f\<lparr>idx := 0\<rparr>) = Some (f\<lparr>idx := 0, chars := cs\<rparr>)"
    "displays font (term_newline ?h t) (f\<lparr>idx := 0, chars := cs\<rparr>)" using newline_displays [OF assms] by blast
  show ?thesis
  proof (cases "c = 10")
    case True
    then show ?thesis using n redraw_shows [OF assms(1) n(2)] by (auto simp: put_def term_put_def)
  next
    case nl: False
    show ?thesis
    proof (cases "col t = ?h")
      case True
      let ?t = "term_newline ?h t" and ?f = "f\<lparr>idx := 0, chars := cs\<rparr>"
      have l: "length (rows ?t) = length (rows t)" "col ?t = 0" using d(6) by (simp_all add: term_newline_def)
      obtain cs' where c: "set_char ?last c ?f = Some (?f\<lparr>chars := cs'\<rparr>)" "displays font (term_set c ?t) (?f\<lparr>chars := cs'\<rparr>)"
        using set_char_displays [OF assms(1) n(2), of c] d(2) l by auto
      obtain bs where r: "redraw ft font (?f\<lparr>chars := cs'\<rparr>) = Some (?f\<lparr>chars := cs', fb := bs\<rparr>)"
        "displays font (term_set c ?t) (?f\<lparr>chars := cs', fb := bs\<rparr>)" "screen_shows ft font (?f\<lparr>chars := cs', fb := bs\<rparr>)"
        using redraw_shows [OF assms(1) c(2)] by auto
      let ?g = "f\<lparr>idx := 1, chars := cs', fb := bs\<rparr>"
      have "put ft font c f = Some ?g" using nl True d(1) n(1) c(1) r(1) by (simp add: put_def last uadd_def)
      moreover have "displays font (term_put ?h c t) ?g" using r(2) nl True l(2) d(2) by (auto simp: displays_def term_put_def term_set_def Let_def)
      moreover have "screen_shows ft font ?g" using r(3) by (simp add: screen_shows_def)
      ultimately show ?thesis by auto
    next
      case False
      let ?i = "?last + col t"
      have i: "?i < length (chars f)" using False d(2,5) len(4,2) by linarith
      obtain cs' where c: "set_char ?i c f = Some (f\<lparr>chars := cs'\<rparr>)" "cs' = (chars f)[?i := c]" "displays font (term_set c t) (f\<lparr>chars := cs'\<rparr>)"
        using set_char_displays [OF assms, of c] False d(5) by auto
      have q: "length (chars f) div ?h = length (rows t)" using len(1) d(2) by simp
      have v: "length (rows t) < 2 ^ 63" using div_le_dividend [of "length (chars f)" ?h] len(3) unfolding q by linarith
      have "uadd ?last (col t) = ?i" using i len(3) by (simp add: uadd_exact)
      moreover have "usub (length (chars f) div ?h) 1 = length (rows t) - 1"
        unfolding q using v d(6) by (subst usub_exact) (auto simp: Suc_le_eq)
      moreover have "col t = ?i mod ?h" "length (rows t) - 1 = ?i div ?h" using False d(2,5) by simp_all
      moreover obtain bs where p: "putc ft font (fb f) 4 (stride f) (mapping f) c (?i mod ?h) (?i div ?h) 0xFFFFFF 0 = Some bs" "length bs = length (fb f)"
        "cell_shows ft font (stride f) ?h (mapping f) bs ?i c"
        "\<forall>i' d. i' < ?h * length (rows t) \<longrightarrow> i' \<noteq> ?i \<longrightarrow> cell_shows ft font (stride f) ?h (mapping f) (fb f) i' d \<longrightarrow> cell_shows ft font (stride f) ?h (mapping f) bs i' d"
        using putc_cell [OF assms(1) d(4), of ?i "0xFFFFFF" "mapping f" c] i len(1) by auto
      let ?g = "f\<lparr>idx := col t + 1, chars := cs', fb := bs\<rparr>"
      note p(1)
      ultimately have "put ft font c f = Some ?g"
        using nl False d(1-3) c(1,2) small(1) by (simp add: put_def last putchar_def)
      moreover have "displays font (term_put ?h c t) ?g"
        using c(3) nl False d(5) p(2) by (auto simp: displays_def term_put_def term_set_def Let_def)
      moreover have "screen_shows ft font ?g" if "screen_shows ft font f"
        using that p(3,4) i len(1) by (auto simp: screen_shows_def c(2) nth_list_update)
      ultimately show ?thesis using nl False by auto
    qed
  qed
qed

lemma write_str_displays:
  assumes "font_ok ft font" "displays font t f"
  shows "\<exists>f'. write_str ft font s f = Some f' \<and> displays font (fold (term_put (horiz_chars f)) s t) f' \<and> horiz_chars f' = horiz_chars f
    \<and> (screen_shows ft font f \<or> 10 \<in> set s \<longrightarrow> screen_shows ft font f')"
  using assms(2)
proof (induction s arbitrary: t f)
  case Nil
  then show ?case by (simp add: write_str_def)
next
  case (Cons c s)
  obtain f1 where f1: "put ft font c f = Some f1" "displays font (term_put (horiz_chars f) c t) f1" "horiz_chars f1 = horiz_chars f"
    "screen_shows ft font f \<or> c = 10 \<longrightarrow> screen_shows ft font f1" using put_displays [OF assms(1) Cons.prems, of c] by auto
  from Cons.IH [OF f1(2)] show ?case using f1 by (auto simp: write_str_def)
qed

text \<open>A frame buffer of 32 bits per pixel whose rows and memory are as large as reported, with room for a character.\<close>

definition framebuffer_ok :: "psf_header \<Rightarrow> framebuffer \<Rightarrow> bool" where
  "framebuffer_ok font b \<longleftrightarrow> fb_bpp b = 32 \<and> 4 * fb_width b \<le> fb_pitch b \<and> fb_height b * fb_pitch b = length (fb_memory b)
     \<and> fb_height b * fb_pitch b < 2 ^ 63 \<and> unat (width font) \<le> fb_width b \<and> unat (height font) \<le> fb_height b"

definition term_new :: "nat \<Rightarrow> nat \<Rightarrow> terminal" where
  "term_new w h = \<lparr>rows = replicate h (replicate w 32), col = 0\<rparr>"

lemma replicate_mult: "replicate (h * v) x = concat (replicate v (replicate h x))"
  by (induction v) (simp_all add: replicate_add)

lemma screen_new_displays:
  assumes "font_ok ft font" "framebuffer_ok font b" "unicode_mapping ft font = Some m"
  shows "\<exists>f. screen_new ft font b = Some f \<and> horiz_chars f = fb_width b div unat (width font)
    \<and> displays font (term_new (fb_width b div unat (width font)) (fb_height b div unat (height font))) f"
proof -
  let ?fw = "unat (width font)" and ?fh = "unat (height font)"
  let ?h = "fb_width b div ?fw" and ?v = "fb_height b div ?fh"
  have pos: "0 < ?fw" "0 < ?fh" "width font \<noteq> 0" "height font \<noteq> 0" using assms(1) by (auto simp: font_ok_def)
  have b: "fb_bpp b = 32" "4 * fb_width b \<le> fb_pitch b" "fb_height b * fb_pitch b = length (fb_memory b)"
    "fb_height b * fb_pitch b < 2 ^ 63" "?fw \<le> fb_width b" "?fh \<le> fb_height b" using assms(2) by (auto simp: framebuffer_ok_def)
  have hv: "0 < ?h" "0 < ?v" using b(5,6) pos by (simp_all add: div_greater_zero_iff)
  have w: "?h * ?fw \<le> fb_width b" "?v * ?fh \<le> fb_height b" by simp_all
  have p: "fb_pitch b * 1 \<le> fb_height b * fb_pitch b" using b(6) pos(2) by simp
  have "4 * (?h * ?fw) \<le> fb_pitch b" using w(1) b(2) by linarith
  then have fits: "grid_fits font (fb_pitch b) ?h ?v (length (fb_memory b))"
    unfolding grid_fits_def using p b mult_le_mono1 [OF w(2), of "fb_pitch b"] by simp
  have "?h * ?v \<le> fb_pitch b * fb_height b" using b(2) by (intro mult_le_mono) (auto intro: order_trans [OF div_le_dividend])
  then have "?h * ?v < 2 ^ 63" using b(4) by (simp only: mult.commute)
  then have u: "umul ?h ?v = ?h * ?v" "umul (fb_height b) (fb_pitch b) = length (fb_memory b)" using b(3,4) by (simp_all add: umul_exact)
  show ?thesis using assms(3) pos hv fits b(1) u
    by (simp add: screen_new_def displays_def term_new_def replicate_mult Let_def)
qed

section \<open>Properties\<close>

text \<open>A font with one glyph of one row, ten pixels wide, and a screen of two characters.\<close>

definition demo_font :: psf_header where
  "demo_font = \<lparr>magic = 0, version = 0, headersize = 32, flags = 0, glyphs = 1, bytes_per_glyph = 2, height = 1, width = 10\<rparr>"

definition demo_ft :: "u8 list" where
  "demo_ft = replicate 32 0 @ [0x80, 0xC0]"

definition demo_fb :: framebuffer where
  "demo_fb = \<lparr>fb_width = 20, fb_height = 1, fb_bpp = 32, fb_pitch = 80, fb_memory = replicate 80 7, fb_red = 16, fb_green = 8, fb_blue = 0\<rparr>"

lemma demo_ok: "font_ok demo_ft demo_font" "framebuffer_ok demo_font demo_fb" "unicode_mapping demo_ft demo_font = Some None"
  by (simp_all add: font_ok_def demo_ft_def demo_font_def framebuffer_ok_def demo_fb_def unicode_mapping_def)

text \<open>
  C37: \<open>put\<close> implements a terminal: a line feed scrolls the grid up by a line, a character goes to
  the cursor in the last line, and a full line scrolls first. It never panics or draws outside the
  frame buffer. If the screen showed the grid before, it does afterwards; a scroll makes the screen
  show the grid whatever it showed before.
\<close>

theorem put_refines_terminal:
  assumes "font_ok ft font" "displays font t f"
  shows "\<exists>f'. put ft font c f = Some f' \<and> displays font (term_put (horiz_chars f) c t) f'
    \<and> (screen_shows ft font f \<or> c = 10 \<or> col t = horiz_chars f \<longrightarrow> screen_shows ft font f')"
  using put_displays [OF assms] by blast

theorem put_refines_terminal_witness:
  "\<exists>f f'. screen_new demo_ft demo_font demo_fb = Some f \<and> put demo_ft demo_font 10 f = Some f'
    \<and> displays demo_font (term_new 2 1) f' \<and> screen_shows demo_ft demo_font f'"
proof -
  have n: "fb_width demo_fb div unat (width demo_font) = 2" "fb_height demo_fb div unat (height demo_font) = 1"
    by (simp_all add: demo_fb_def demo_font_def)
  obtain f where f: "screen_new demo_ft demo_font demo_fb = Some f" "horiz_chars f = 2" "displays demo_font (term_new 2 1) f"
    using screen_new_displays [OF demo_ok] unfolding n by blast
  have "term_put 2 10 (term_new 2 1) = term_new 2 1" by (simp add: term_put_def term_newline_def term_new_def)
  then show ?thesis using put_refines_terminal [OF demo_ok(1) f(3), of 10] f by auto
qed

text \<open>
  A console made from a frame buffer of 32 bits per pixel that is at least one character large
  can be printed to: \<open>new\<close>, \<open>insert_fbman\<close> and \<open>_print\<close> succeed for any text, all drawing stays inside the frame
  buffer, the grid holds what a terminal holds after the text, and once the text has a line
  feed the screen shows the grid. Printing before a console is there panics.
\<close>

lemma console_write:
  assumes "font_ok ft font" "framebuffer_ok font b" "unicode_mapping ft font = Some m"
  shows "print_args ft font args None = None \<and>
    (\<exists>f f'. screen_new ft font b = Some f \<and> print_args ft font args (insert_fbman f None) = Some (Some f') \<and>
    (let w = fb_width b div unat (width font); h = fb_height b div unat (height font)
     in displays font (fold (term_put w) (concat args) (term_new w h)) f') \<and> (10 \<in> set (concat args) \<longrightarrow> screen_shows ft font f'))"
proof -
  obtain f where f: "screen_new ft font b = Some f" "horiz_chars f = fb_width b div unat (width font)"
    "displays font (term_new (fb_width b div unat (width font)) (fb_height b div unat (height font))) f"
    using screen_new_displays [OF assms] by blast
  obtain f' where f': "write_str ft font (concat args) f = Some f'"
    "displays font (fold (term_put (horiz_chars f)) (concat args) (term_new (fb_width b div unat (width font)) (fb_height b div unat (height font)))) f'"
    "10 \<in> set (concat args) \<longrightarrow> screen_shows ft font f'"
    using write_str_displays [OF assms(1) f(3), of "concat args"] by blast
  have "print_args ft font args (insert_fbman f None) = Some (Some f')"
    by (simp add: print_args_def insert_fbman_def for_in_write_str f'(1))
  with f f' show ?thesis by (auto simp: Let_def print_args_def)
qed

definition psf_pixel :: "u8 \<Rightarrow> u8 \<Rightarrow> nat \<Rightarrow> bool" where
  "psf_pixel b0 b1 j = (if j < 8 then bit b0 (7 - j) else bit b1 (15 - j))"

lemma bit_rotate_left1:
  "bit (rotate_left1 g) n \<longleftrightarrow> n < 16 \<and> (if n = 0 then bit g 15 else bit g (n - 1))"
proof -
  have "bit (rotate_left1 g) n \<longleftrightarrow> (1 \<le> n \<and> n < 16 \<and> bit g (n - 1)) \<or> bit g (15 + n)"
    unfolding rotate_left1_def bit_or_iff bit_drop_bit_eq bit_push_bit_iff by (auto simp: bit_imp_le_length comp_def)
  moreover have "\<not> bit g (15 + n)" if "n \<noteq> 0" using that bit_imp_le_length [of g "15 + n"] by auto
  ultimately show ?thesis by (cases "n = 0") auto
qed

lemma lit_ten_columns:
  assumes "o' = unat (headersize font) + g * unat (bytes_per_glyph font) + 2 * row" "o' + 2 \<le> length ft" "j < 10"
  shows "lit (glyph_row ft font g row) 10 j \<longleftrightarrow>
    (if j = 0 then bit (ft ! (o' + 1)) 0 else psf_pixel (ft ! o') (ft ! (o' + 1)) (j - 1))"
proof -
  have "glyph_row ft font g row = rotate_left1 (ucast (ft ! o') OR push_bit 8 (ucast (ft ! (o' + 1))))"
    using assms(1,2) by (simp add: glyph_row_def u16_at_def)
  moreover have "j \<in> {0, 1, 2, 3, 4, 5, 6, 7, 8, 9}" using assms(3) by auto
  moreover have "\<not> bit (ft ! o') 8" "\<not> bit (ft ! o') 15" using bit_imp_le_length [of "ft ! o'" 8] bit_imp_le_length [of "ft ! o'" 15] by auto
  ultimately show ?thesis
    by (elim insertE emptyE) (simp_all add: lit_def psf_pixel_def bit_rotate_left1 bit_simps)
qed

lemma glyph_in_file:
  assumes "font_ok ft font" "g < unat (glyphs font)" "row < unat (height font)"
  shows "unat (headersize font) + g * unat (bytes_per_glyph font) + 2 * row + 2 \<le> length ft"
proof -
  have "g * unat (bytes_per_glyph font) + 2 * row + 2 \<le> Suc g * unat (bytes_per_glyph font)" using assms(1,3) by (auto simp: font_ok_def)
  also have "\<dots> \<le> unat (glyphs font) * unat (bytes_per_glyph font)" using assms(2) by (intro mult_le_mono1) simp
  finally show ?thesis using assms(1) unfolding font_ok_def by linarith
qed

lemma putc_pixel:
  assumes "font_ok ft font" "grid_fits font st h v (length bs)" "cx < h" "cy < v"
    "putc ft font bs 4 st mp c cx cy fg bg = Some bs'" "row < unat (height font)" "j < unat (width font)" "b < 4"
  shows "bs' ! ((cy * unat (height font) + row) * st + ((cx * unat (width font) + j) * 4 + b))
    = le4 (colour ft font fg bg (glyph_number font mp c) row j) ! b"
proof -
  let ?fw = "unat (width font)" and ?fh = "unat (height font)"
  have pos: "0 < ?fw" "0 < ?fh" using assms(1) by (auto simp: font_ok_def)
  note cell = grid_cell [OF assms(2-4) pos]
  let ?y = "cy * ?fh + row" and ?q = "(cx * ?fw + j) * 4 + b"
  have q: "?q < cx * ?fw * 4 + 4 * ?fw" "?q - cx * ?fw * 4 = j * 4 + b" "(j * 4 + b) div 4 = j" "(j * 4 + b) mod 4 = b" using assms(7,8) by auto
  have "?y * st + st \<le> cy * ?fh * st + ?fh * st" using mult_le_mono1 [of "Suc row" ?fh st] assms(6) by (simp add: add_mult_distrib)
  then have len: "?q < st" "?y * st + ?q < length bs" using cell(1,2) q(1) by linarith+
  from putc_draws [OF assms(1-4), of mp c fg bg] assms(5) have "bs' ! (?y * st + ?q) =
       (if cy * ?fh \<le> ?y \<and> ?y < cy * ?fh + ?fh \<and> cx * ?fw * 4 \<le> ?q \<and> ?q < cx * ?fw * 4 + 4 * ?fw
        then le4 (colour ft font fg bg (glyph_number font mp c) (?y - cy * ?fh) ((?q - cx * ?fw * 4) div 4)) ! ((?q - cx * ?fw * 4) mod 4)
        else bs ! (?y * st + ?q))" using len by (metis option.inject)
  then show ?thesis unfolding q(2-4) using q(1) assms(6) by simp
qed

lemma putc_same_colours:
  assumes "font_ok ft font" "font_ok ft' font" "grid_fits font st h v (length bs)" "cx < h" "cy < v"
    "\<And>row j. \<lbrakk>row < unat (height font); j < unat (width font)\<rbrakk> \<Longrightarrow>
      colour ft' font fg bg (glyph_number font mp c) row j = colour ft font fg bg (glyph_number font mp c) row j"
  shows "putc ft' font bs 4 st mp c cx cy fg bg = putc ft font bs 4 st mp c cx cy fg bg"
proof -
  from putc_draws [OF assms(1,3-5), of mp c fg bg] obtain b1 where b1: "putc ft font bs 4 st mp c cx cy fg bg = Some b1" "length b1 = length bs" and
    n1: "\<And>y q. \<lbrakk>q < st; y * st + q < length bs\<rbrakk> \<Longrightarrow> b1 ! (y * st + q) =
       (if cy * unat (height font) \<le> y \<and> y < cy * unat (height font) + unat (height font) \<and> cx * unat (width font) * 4 \<le> q \<and> q < cx * unat (width font) * 4 + 4 * unat (width font)
        then le4 (colour ft font fg bg (glyph_number font mp c) (y - cy * unat (height font)) ((q - cx * unat (width font) * 4) div 4)) ! ((q - cx * unat (width font) * 4) mod 4)
        else bs ! (y * st + q))" by blast
  from putc_draws [OF assms(2-5), of mp c fg bg] obtain b2 where b2: "putc ft' font bs 4 st mp c cx cy fg bg = Some b2" "length b2 = length bs" and
    n2: "\<And>y q. \<lbrakk>q < st; y * st + q < length bs\<rbrakk> \<Longrightarrow> b2 ! (y * st + q) =
       (if cy * unat (height font) \<le> y \<and> y < cy * unat (height font) + unat (height font) \<and> cx * unat (width font) * 4 \<le> q \<and> q < cx * unat (width font) * 4 + 4 * unat (width font)
        then le4 (colour ft' font fg bg (glyph_number font mp c) (y - cy * unat (height font)) ((q - cx * unat (width font) * 4) div 4)) ! ((q - cx * unat (width font) * 4) mod 4)
        else bs ! (y * st + q))" by blast
  have pos: "0 < unat (width font)" "0 < unat (height font)" using assms(1) by (auto simp: font_ok_def)
  have st: "0 < st" by (rule grid_cell(3) [OF assms(3-5) pos])
  have "b2 ! (y * st + q) = b1 ! (y * st + q)" if "q < st" "y * st + q < length bs" for y q
    unfolding n1 [OF that] n2 [OF that] by (auto simp: assms(6))
  from this [of "k mod st" "k div st" for k] have "b2 = b1" using b1(2) b2(2) st by (intro nth_equalityI) simp_all
  with b1(1) b2(1) show ?thesis by simp
qed

text \<open>
  C39: \<open>putc\<close> shifts the glyphs of a font of ten columns by one. In each row of the cell it draws, the pixel in column 0 shows the
  lowest padding bit of the glyph's row, and the pixel in column \<open>j > 0\<close> shows pixel \<open>j - 1\<close> of the glyph. The tenth pixel of a row (bit 6 of the
  row's second byte) is never drawn: changing it in the font changes nothing in the frame buffer.
\<close>

theorem glyph_columns_shifted:
  assumes "font_ok ft font" "width font = 10" "grid_fits font st h v (length bs)" "cx < h" "cy < v"
  shows "let at = (\<lambda>row. unat (headersize font) + glyph_number font mp c * unat (bytes_per_glyph font) + 2 * row)
    in (\<exists>bs'. putc ft font bs 4 st mp c cx cy fg bg = Some bs' \<and>
        (\<forall>row < unat (height font). \<forall>j < 10. \<forall>b < 4.
          bs' ! ((cy * unat (height font) + row) * st + ((cx * 10 + j) * 4 + b)) =
            le4 (if (if j = 0 then bit (ft ! (at row + 1)) 0 else psf_pixel (ft ! at row) (ft ! (at row + 1)) (j - 1)) then fg else bg) ! b))
     \<and> (\<forall>row < unat (height font). \<forall>w. (\<forall>n. n \<noteq> 6 \<longrightarrow> bit w n = bit (ft ! (at row + 1)) n) \<longrightarrow>
          putc (ft[at row + 1 := w]) font bs 4 st mp c cx cy fg bg = putc ft font bs 4 st mp c cx cy fg bg)"
proof -
  let ?g = "glyph_number font mp c"
  let ?at = "\<lambda>row. unat (headersize font) + ?g * unat (bytes_per_glyph font) + 2 * row"
  have w: "unat (width font) = 10" by (simp add: assms(2))
  have lit: "lit (glyph_row ft' font ?g row) 10 j \<longleftrightarrow> (if j = 0 then bit (ft' ! (?at row + 1)) 0 else psf_pixel (ft' ! ?at row) (ft' ! (?at row + 1)) (j - 1))"
    if "font_ok ft' font" "row < unat (height font)" "j < 10" for ft' row j
    using lit_ten_columns [OF refl glyph_in_file [OF that(1) glyph_number_less [OF assms(1)] that(2)] that(3)] .
  obtain bs' where bs': "putc ft font bs 4 st mp c cx cy fg bg = Some bs'" using putc_draws [OF assms(1,3-5)] by blast
  have "bs' ! ((cy * unat (height font) + row) * st + ((cx * 10 + j) * 4 + b)) =
      le4 (if (if j = 0 then bit (ft ! (?at row + 1)) 0 else psf_pixel (ft ! ?at row) (ft ! (?at row + 1)) (j - 1)) then fg else bg) ! b"
    if "row < unat (height font)" "j < 10" "b < 4" for row j b
    using putc_pixel [OF assms(1,3-5) bs' that(1) _ that(3), of j] lit [OF assms(1) that(1,2)] that(2) by (simp add: w colour_def)
  moreover have "putc (ft[?at r + 1 := u]) font bs 4 st mp c cx cy fg bg = putc ft font bs 4 st mp c cx cy fg bg"
    if u: "\<forall>n. n \<noteq> 6 \<longrightarrow> bit u n = bit (ft ! (?at r + 1)) n" for r u
  proof (rule putc_same_colours [OF assms(1) _ assms(3-5)])
    show ok: "font_ok (ft[?at r + 1 := u]) font" using assms(1) by (simp add: font_ok_def)
    fix row j
    assume rj: "row < unat (height font)" "j < unat (width font)"
    have even: "ft[?at r + 1 := u] ! ?at row = ft ! ?at row" by (rule nth_list_update_neq) presburger
    have odd: "bit (ft[?at r + 1 := u] ! (?at row + 1)) n = bit (ft ! (?at row + 1)) n" if "n \<noteq> 6" for n
      using u that by (cases "?at r = ?at row"; cases "?at row + 1 < length ft") (auto simp: list_update_beyond)
    have not6: "15 - (j - 1) \<noteq> 6" using rj(2) w by simp
    have "psf_pixel (ft[?at r + 1 := u] ! ?at row) (ft[?at r + 1 := u] ! (?at row + 1)) (j - 1) = psf_pixel (ft ! ?at row) (ft ! (?at row + 1)) (j - 1)"
      unfolding psf_pixel_def even odd [OF not6] ..
    then have "lit (glyph_row (ft[?at r + 1 := u]) font ?g row) 10 j = lit (glyph_row ft font ?g row) 10 j"
      using lit [OF ok rj(1)] lit [OF assms(1) rj(1)] rj(2) odd [of 0] by (simp add: w)
    then show "colour (ft[?at r + 1 := u]) font fg bg ?g row j = colour ft font fg bg ?g row j" by (simp add: colour_def w)
  qed
  ultimately show ?thesis unfolding Let_def using bs' by blast
qed

theorem glyph_columns_shifted_witness:
  "\<exists>bs'. putc demo_ft demo_font (replicate 80 7) 4 80 None 0 1 0 0xFFFFFF 0 = Some bs'
    \<and> bs' ! 40 = 0 \<and> psf_pixel (demo_ft ! 32) (demo_ft ! 33) 0 \<and> bs' ! 44 = 255
    \<and> putc (demo_ft[33 := 0x80]) demo_font (replicate 80 7) 4 80 None 0 1 0 0xFFFFFF 0 = Some bs'"
proof -
  have d: "unat (headersize demo_font) + glyph_number demo_font None 0 * unat (bytes_per_glyph demo_font) + 2 * 0 = 32" "unat (height demo_font) = 1" "width demo_font = 10"
    by (simp_all add: demo_font_def glyph_number_def)
  have "grid_fits demo_font 80 2 1 (length (replicate 80 (7 :: u8)))" by (simp add: grid_fits_def demo_font_def)
  from glyph_columns_shifted [OF demo_ok(1) d(3) this, where cx = 1 and cy = 0 and mp = None and c = 0 and fg = "0xFFFFFF" and bg = 0, unfolded Let_def]
  obtain bs' where bs': "putc demo_ft demo_font (replicate 80 7) 4 80 None 0 1 0 0xFFFFFF 0 = Some bs'"
    and px: "\<And>row j b. \<lbrakk>row < unat (height demo_font); j < 10; b < 4\<rbrakk> \<Longrightarrow> bs' ! ((0 * unat (height demo_font) + row) * 80 + ((1 * 10 + j) * 4 + b)) =
      le4 (if (if j = 0 then bit (demo_ft ! (unat (headersize demo_font) + glyph_number demo_font None 0 * unat (bytes_per_glyph demo_font) + 2 * row + 1)) 0
        else psf_pixel (demo_ft ! (unat (headersize demo_font) + glyph_number demo_font None 0 * unat (bytes_per_glyph demo_font) + 2 * row))
          (demo_ft ! (unat (headersize demo_font) + glyph_number demo_font None 0 * unat (bytes_per_glyph demo_font) + 2 * row + 1)) (j - 1)) then 0xFFFFFF else 0) ! b"
    and same: "\<And>w. \<forall>n. n \<noteq> 6 \<longrightarrow> bit w n = bit (demo_ft ! (unat (headersize demo_font) + glyph_number demo_font None 0 * unat (bytes_per_glyph demo_font) + 2 * 0 + 1)) n \<Longrightarrow>
      putc (demo_ft[unat (headersize demo_font) + glyph_number demo_font None 0 * unat (bytes_per_glyph demo_font) + 2 * 0 + 1 := w]) demo_font (replicate 80 7) 4 80 None 0 1 0 0xFFFFFF 0 = Some bs'"
    using d(2) by auto
  have b: "demo_ft ! 32 = 0x80" "demo_ft ! 33 = 0xC0" by (simp_all add: demo_ft_def nth_append)
  have "bit (0x80 :: u8) n = bit (0xC0 :: u8) n" if "n \<noteq> 6" for n
  proof (cases "n < 8")
    case True
    then have "n \<in> {0, 1, 2, 3, 4, 5, 7}" using that by auto
    then show ?thesis by (elim insertE emptyE) simp_all
  qed (use bit_imp_le_length [of _ n] in force)
  then have "putc (demo_ft[33 := 0x80]) demo_font (replicate 80 7) 4 80 None 0 1 0 0xFFFFFF 0 = Some bs'" using same [of "0x80", unfolded d] b by simp
  moreover have "bs' ! 40 = 0" using px [of 0 0 0, unfolded d] b by (simp add: d le4_values)
  moreover have "bs' ! 44 = 255" "psf_pixel (demo_ft ! 32) (demo_ft ! 33) 0" using px [of 0 1 0, unfolded d] b by (simp_all add: d le4_values psf_pixel_def)
  ultimately show ?thesis using bs' by blast
qed

end
