(* ===== verification/Kernel.thy ===== *)
theory Kernel
  imports Time Screen
begin

text \<open>
  The start of the kernel: \<^verbatim>\<open>kernel_start\<close> and \<^verbatim>\<open>init\<close> of \<^verbatim>\<open>main.rs\<close>, \<^verbatim>\<open>arch::init\<close>, and the tables that it loads (\<^verbatim>\<open>gdt.rs\<close>,
  \<^verbatim>\<open>interrupts.rs\<close>, \<^verbatim>\<open>acpi.rs\<close>). It calls the memory, screen, APIC and timer components in the order of the code; a panic is \<open>None\<close>. What is printed
  to the serial port on the way is left to \<open>Serial\<close>.

  The tables of the \<^verbatim>\<open>x86_64\<close> crate, the \<^verbatim>\<open>acpi\<close>, \<^verbatim>\<open>pic8259\<close> and \<^verbatim>\<open>limine\<close> crates are parameters.
\<close>

section \<open>Descriptor tables\<close>

text \<open>
  \<open>gdt_lookup\<close> is the descriptor that a selector stands for. The interrupt descriptor table knows handlers and stack
  indices by vector; the crate's fields for a breakpoint, a double fault and a page fault are the vectors 3, 8 and 14.
\<close>

record tss =
  interrupt_stack_table :: "u64 list"

datatype descriptor = Kernel_Code_Segment | Tss_Segment tss

record 'g gdt_ops =
  gdt_new :: 'g
  add_entry :: "descriptor \<Rightarrow> 'g \<Rightarrow> u16 \<times> 'g"
  gdt_lookup :: "'g \<Rightarrow> u16 \<Rightarrow> descriptor option"
  tss_new :: tss

datatype handler = Breakpoint_Handler | Double_Fault_Handler | Page_Fault_Handler | Timer_Interrupt_Handler | Scratch_Timer_Interrupt_Handler

record 'i idt_ops =
  idt_new :: 'i
  set_handler_fn :: "nat \<Rightarrow> handler \<Rightarrow> 'i \<Rightarrow> 'i"
  set_stack_index :: "nat \<Rightarrow> u16 \<Rightarrow> 'i \<Rightarrow> 'i"
  idt_handler :: "'i \<Rightarrow> nat \<Rightarrow> handler option"
  idt_stack :: "'i \<Rightarrow> nat \<Rightarrow> u16 option"

record ('g, 'i) processor =
  gdtr :: "'g option"
  idtr :: "'i option"
  CS :: u16
  SS :: u16
  DS :: u16
  TR :: u16

definition DOUBLE_FAULT_IST_INDEX :: u16 where "DOUBLE_FAULT_IST_INDEX = 0"
definition STACK_SIZE :: usize where "STACK_SIZE = 4096 * 5"

text \<open>\<open>stack\<close> is the address of the static \<^verbatim>\<open>STACK\<close>; an index outside the table panics.\<close>

definition double_fault_tss :: "(u64 \<Rightarrow> u64 \<Rightarrow> u64 option) \<Rightarrow> u64 \<Rightarrow> tss \<Rightarrow> tss option" where
  "double_fault_tss vadd stack t = do {
     stack_end \<leftarrow> vadd stack STACK_SIZE;
     let i = unat DOUBLE_FAULT_IST_INDEX;
     if i < length (interrupt_stack_table t)
     then Some (t\<lparr>interrupt_stack_table := (interrupt_stack_table t)[i := stack_end]\<rparr>) else None }"

definition gdt_init :: "'g gdt_ops \<Rightarrow> (u64 \<Rightarrow> u64 \<Rightarrow> u64 option) \<Rightarrow> u64 \<Rightarrow> ('g, 'i) processor \<Rightarrow> ('g, 'i) processor option" where
  "gdt_init G vadd stack pr = do {
     let (code_selector, gdt) = add_entry G Kernel_Code_Segment (gdt_new G);
     t \<leftarrow> double_fault_tss vadd stack (tss_new G);
     let (tss_selector, gdt) = add_entry G (Tss_Segment t) gdt;
     Some (pr\<lparr>gdtr := Some gdt, CS := code_selector, SS := 0, DS := 0, TR := tss_selector\<rparr>) }"

definition as_usize :: "interrupt_index \<Rightarrow> nat" where
  "as_usize i = unat (as_u8 i)"

definition IDT :: "'i idt_ops \<Rightarrow> 'i" where
  "IDT I =
     (let idt = set_handler_fn I 3 Breakpoint_Handler (idt_new I);
          idt = set_handler_fn I 8 Double_Fault_Handler idt;
          idt = set_stack_index I 8 DOUBLE_FAULT_IST_INDEX idt;
          idt = set_handler_fn I 14 Page_Fault_Handler idt;
          idt = set_handler_fn I (as_usize Timer) Timer_Interrupt_Handler idt
      in set_handler_fn I (as_usize ScratchTimer) Scratch_Timer_Interrupt_Handler idt)"

definition init_idt :: "'i idt_ops \<Rightarrow> ('g, 'i) processor \<Rightarrow> ('g, 'i) processor" where
  "init_idt I pr = pr\<lparr>idtr := Some (IDT I)\<rparr>"

section \<open>Hardware discovery\<close>

record 't acpi_ops =
  from_rsdp :: "phys_mapper \<Rightarrow> usize \<Rightarrow> 't option"
  platform_info_new :: "'t \<Rightarrow> platform_info option"

definition get_acpi_tables :: "'t acpi_ops \<Rightarrow> usize \<Rightarrow> phys_mapper \<Rightarrow> 't option" where
  "get_acpi_tables A rsdp_addr mp = from_rsdp A mp rsdp_addr"

definition get_platform_info :: "'t acpi_ops \<Rightarrow> 't \<Rightarrow> platform_info option" where
  "get_platform_info A tables = platform_info_new A tables"

record 'd pic_ops =
  pic_initialize :: "u8 \<Rightarrow> u8 \<Rightarrow> 'd \<Rightarrow> 'd"
  pic_disable :: "'d \<Rightarrow> 'd"

definition PIC_1_OFFSET :: u8 where "PIC_1_OFFSET = 32"
definition PIC_2_OFFSET :: u8 where "PIC_2_OFFSET = PIC_1_OFFSET + 8"

definition init_and_disable_old_pic :: "'d pic_ops \<Rightarrow> 'd \<Rightarrow> 'd" where
  "init_and_disable_old_pic P d = pic_disable P (pic_initialize P PIC_1_OFFSET PIC_2_OFFSET d)"

section \<open>Initialisation of the architecture\<close>

record ('d, 'g, 'i, 't) board =
  mmio_of :: "'d mmio"
  outb_of :: "u16 \<Rightarrow> u8 \<Rightarrow> 'd \<Rightarrow> 'd"
  pics :: "'d pic_ops"
  gdts :: "'g gdt_ops"
  idts :: "'i idt_ops"
  acpi :: "'t acpi_ops"
  double_fault_stack :: u64

record ('f, 'd, 'g, 'i) arch =
  processor :: "('g, 'i) processor"
  LAPIC :: "lapic option"
  mach :: "('f, 'd) machine"

definition arch_init :: "('d, 'g, 'i, 't) board \<Rightarrow> (u64 \<Rightarrow> u64 \<Rightarrow> u64 option) \<Rightarrow> (nat \<Rightarrow> nat) \<Rightarrow> usize \<Rightarrow> usize
    \<Rightarrow> ('f, 'd, 'g, 'i) arch \<Rightarrow> ('f, 'd, 'g, 'i) arch option" where
  "arch_init B vadd ints offset rsdp_addr s = do {
     pr \<leftarrow> gdt_init (gdts B) vadd (double_fault_stack B) (processor s);
     let s = s\<lparr>processor := init_idt (idts B) pr\<rparr>;
     let mapper = phys_mapper_new offset;
     tables \<leftarrow> get_acpi_tables (acpi B) rsdp_addr mapper;
     platform_info \<leftarrow> get_platform_info (acpi B) tables;
     let d = init_and_disable_old_pic (pics B) (dev (mach s));
     (l, d) \<leftarrow> init_lapic (mmio_of B) platform_info mapper d;
     ((ioapic, pitreg), d) \<leftarrow> init_ioapic (mmio_of B) platform_info mapper d;
     m \<leftarrow> time_init (mmio_of B) (outb_of B) l ints ioapic pitreg ((mach s)\<lparr>dev := d\<rparr>);
     Some (s\<lparr>LAPIC := Some l, mach := m\<lparr>if_flag := True\<rparr>\<rparr>) }"

section \<open>Initialisation of the kernel\<close>

record 'k boot_info =
  base_revision_supported :: bool
  hhdm_response :: "u64 option"
  memory_map_response :: "'k entry list option"
  framebuffer_response :: "framebuffer list option"
  rsdp_response :: "usize option"

record ('m, 'f, 'd, 'g, 'i) system =
  page_table :: "'m option"
  heap :: "(usize \<times> usize) option"
  logger_set :: bool
  FBMAN :: "screen option"
  arch :: "('f, 'd, 'g, 'i) arch"

text \<open>
  What the memory component needs: the paging library, the type of usable regions, \<^verbatim>\<open>map_to\<close>, the mapper made of a table, the address of the
  active table, and \<^verbatim>\<open>VirtAddr::new\<close>, which panics on an address that is not canonical.
\<close>

record ('x, 'p, 'e, 'k, 'm) paging_env =
  paging_of :: "('x, 'p, 'e) paging"
  usable_type :: 'k
  map_to_of :: "('x, 'p, 'e, 'm, 'k frame_allocator) map_to"
  offset_page_table :: "u64 \<Rightarrow> u64 \<Rightarrow> 'm"
  cr3 :: u64
  virt_addr_new :: "u64 \<Rightarrow> u64 option"

definition init :: "('x, 'p, 'e, 'k, 'm) paging_env \<Rightarrow> ('d, 'g, 'i, 't) board \<Rightarrow> u8 list \<Rightarrow> psf_header \<Rightarrow> (nat \<Rightarrow> nat) \<Rightarrow> 'k boot_info
    \<Rightarrow> ('m, 'f, 'd, 'g, 'i) system \<Rightarrow> ('m, 'f, 'd, 'g, 'i) system option" where
  "init E B ft font ints info s = do {
     physical_memory_offset \<leftarrow> hhdm_response info;
     off \<leftarrow> virt_addr_new E physical_memory_offset;
     entries \<leftarrow> memory_map_response info;
     (m, h) \<leftarrow> memory_init (paging_of E) (usable_type E) (map_to_of E) (offset_page_table E) (cr3 E) off entries;
     let s = s\<lparr>page_table := Some m, heap := h\<rparr>;
     s \<leftarrow> (if logger_set s then None else Some (s\<lparr>logger_set := True\<rparr>));
     buffers \<leftarrow> framebuffer_response info;
     frame_buffer \<leftarrow> (case buffers of [] \<Rightarrow> None | b # _ \<Rightarrow> Some b);
     f \<leftarrow> screen_new ft font frame_buffer;
     f \<leftarrow> putchar ft font 70 0 0 0xFFFFFF 0 f;
     let s = s\<lparr>FBMAN := insert_fbman f (FBMAN s)\<rparr>;
     rsdp \<leftarrow> rsdp_response info;
     a \<leftarrow> arch_init B (virt_add (paging_of E)) ints physical_memory_offset (rsdp - physical_memory_offset) (arch s);
     Some (s\<lparr>arch := a\<rparr>) }"

text \<open>\<open>kernel_start\<close> up to the call of the executor's \<^verbatim>\<open>run\<close>; \<open>pkg_version\<close> is \<^verbatim>\<open>CARGO_PKG_VERSION\<close>.\<close>

definition banner :: "codepoint list \<Rightarrow> codepoint list list list" where
  "banner pkg_version = [[[78, 97, 67, 108, 32, 118], pkg_version, [10]], [[65, 121, 111, 10]]]"

definition kernel_start :: "('x, 'p, 'e, 'k, 'm) paging_env \<Rightarrow> ('d, 'g, 'i, 't) board \<Rightarrow> u8 list \<Rightarrow> psf_header \<Rightarrow> (nat \<Rightarrow> nat) \<Rightarrow> codepoint list
    \<Rightarrow> 'k boot_info \<Rightarrow> ('m, 'f, 'd, 'g, 'i) system \<Rightarrow> ('m, 'f, 'd, 'g, 'i) system option" where
  "kernel_start E B ft font ints pkg_version info s = do {
     s \<leftarrow> (if base_revision_supported info then Some s else None);
     s \<leftarrow> init E B ft font ints info s;
     fbman \<leftarrow> for_in (banner pkg_version) (print_args ft font) (FBMAN s);
     Some (s\<lparr>FBMAN := fbman\<rparr>) }"

section \<open>Documented behaviour of the hardware and the tables\<close>

definition gdt_laws :: "'g gdt_ops \<Rightarrow> bool" where
  "gdt_laws G \<longleftrightarrow> interrupt_stack_table (tss_new G) \<noteq> [] \<and> (\<forall>t. let (c, g) = add_entry G Kernel_Code_Segment (gdt_new G); (s, g) = add_entry G (Tss_Segment t) g
     in gdt_lookup G g c = Some Kernel_Code_Segment \<and> gdt_lookup G g s = Some (Tss_Segment t))"

definition idt_laws :: "'i idt_ops \<Rightarrow> bool" where
  "idt_laws I \<longleftrightarrow> (\<forall>v. idt_handler I (idt_new I) v = None \<and> idt_stack I (idt_new I) v = None)
     \<and> (\<forall>v h i u. idt_handler I (set_handler_fn I v h i) u = (if u = v then Some h else idt_handler I i u))
     \<and> (\<forall>v h i u. u \<noteq> v \<longrightarrow> idt_stack I (set_handler_fn I v h i) u = idt_stack I i u)
     \<and> (\<forall>v k i u. idt_stack I (set_stack_index I v k i) u = (if u = v then Some k else idt_stack I i u)
          \<and> idt_handler I (set_stack_index I v k i) u = idt_handler I i u)"

text \<open>
  Views of the devices that accesses leave alone: any access to the local APIC but a write to the spurious vector register (0xF0) or to one of the two
  LINT entries of its vector table, and any access to the registers of the I/O APICs at \<open>P\<close>.
\<close>

definition lapic_keeps :: "'d mmio \<Rightarrow> lapic \<Rightarrow> ('d \<Rightarrow> 'v) \<Rightarrow> bool" where
  "lapic_keeps D l view \<longleftrightarrow> (\<forall>off d. off < 0x1000 \<longrightarrow> view (snd (lapic_read D l off d)) = view d)
     \<and> (\<forall>off v d. off < 0x1000 \<and> off \<notin> {0xF0, LAPIC_LVT_LINT0_REG, LAPIC_LVT_LINT1_REG} \<longrightarrow> view (lapic_write D l off v d) = view d)"

definition ioapic_keeps :: "'d mmio \<Rightarrow> usize set \<Rightarrow> ('d \<Rightarrow> 'v) \<Rightarrow> bool" where
  "ioapic_keeps D P view \<longleftrightarrow> (\<forall>p \<in> P. \<forall>v d. view (write_volatile D p v d) = view d \<and> view (write_volatile D (p + 0x10) v d) = view d
     \<and> view (snd (read_volatile D (p + 0x10) d)) = view d)"

text \<open>Accesses to the local APIC, the old interrupt controller and the interval timer leave the I/O APICs alone.\<close>

definition separate_laws :: "('d, 'g, 'i, 't) board \<Rightarrow> lapic \<Rightarrow> ('d \<Rightarrow> usize \<Rightarrow> u8 \<Rightarrow> u32) \<Rightarrow> bool" where
  "separate_laws B l reg \<longleftrightarrow> (\<forall>off v d. off < 0x1000 \<longrightarrow> reg (lapic_write (mmio_of B) l off v d) = reg d)
     \<and> (\<forall>off d. off < 0x1000 \<longrightarrow> reg (snd (lapic_read (mmio_of B) l off d)) = reg d)
     \<and> (\<forall>p v d. reg (outb_of B p v d) = reg d)
     \<and> (\<forall>a b d. reg (pic_initialize (pics B) a b d) = reg d \<and> reg (pic_disable (pics B) d) = reg d)"

text \<open>
  The mask of a LINT entry (bit 16) is what was last written to it; nothing but a write to the entry or to the spurious vector register
  changes it.
\<close>

definition lint_laws :: "('d, 'g, 'i, 't) board \<Rightarrow> lapic \<Rightarrow> usize set \<Rightarrow> ('d \<Rightarrow> usize \<Rightarrow> u32) \<Rightarrow> bool" where
  "lint_laws B l P lreg \<longleftrightarrow>
     (\<forall>off \<in> {LAPIC_LVT_LINT0_REG, LAPIC_LVT_LINT1_REG}. \<forall>v d. bit (lreg (lapic_write (mmio_of B) l off v d) off) 16 = bit v 16)
     \<and> (\<forall>v d. lreg (lapic_write (mmio_of B) l LAPIC_LVT_LINT1_REG v d) LAPIC_LVT_LINT0_REG = lreg d LAPIC_LVT_LINT0_REG)
     \<and> (\<forall>off \<in> {LAPIC_LVT_LINT0_REG, LAPIC_LVT_LINT1_REG}. lapic_keeps (mmio_of B) l (\<lambda>d. lreg d off) \<and> ioapic_keeps (mmio_of B) P (\<lambda>d. lreg d off)
          \<and> (\<forall>p v d. lreg (outb_of B p v d) off = lreg d off))"

text \<open>
  The old pair of interrupt controllers: whether all their inputs are masked, and the first vectors of both. They are reached through the ports
  0x20, 0x21, 0xA0 and 0xA1 only.
\<close>

definition old_pic_laws :: "('d, 'g, 'i, 't) board \<Rightarrow> lapic \<Rightarrow> usize set \<Rightarrow> ('d \<Rightarrow> bool \<times> u8 \<times> u8) \<Rightarrow> bool" where
  "old_pic_laws B l P pic \<longleftrightarrow> (\<forall>a b d. snd (pic (pic_initialize (pics B) a b d)) = (a, b)) \<and> (\<forall>d. pic (pic_disable (pics B) d) = (True, snd (pic d)))
     \<and> (\<forall>off v d. off < 0x1000 \<longrightarrow> pic (lapic_write (mmio_of B) l off v d) = pic d)
     \<and> (\<forall>off d. off < 0x1000 \<longrightarrow> pic (snd (lapic_read (mmio_of B) l off d)) = pic d)
     \<and> ioapic_keeps (mmio_of B) P pic \<and> (\<forall>p v d. p \<notin> {0x20, 0x21, 0xA0, 0xA1} \<longrightarrow> pic (outb_of B p v d) = pic d)"

section \<open>What waiting for the timer leaves alone\<close>

lemmas lapic_registers = LAPIC_ID_REG_def LAPIC_LVT_TIMER_REG_def LAPIC_LVT_LINT0_REG_def LAPIC_LVT_LINT1_REG_def
  LAPIC_TIMER_INITCNT_REG_def LAPIC_TIMER_CURRCNT_REG_def LAPIC_TIMER_DIV_REG_def

lemma lapic_page:
  "LAPIC_ID_REG < 0x1000" "LAPIC_LVT_TIMER_REG < 0x1000" "LAPIC_LVT_LINT0_REG < 0x1000" "LAPIC_LVT_LINT1_REG < 0x1000"
  "LAPIC_TIMER_INITCNT_REG < 0x1000" "LAPIC_TIMER_CURRCNT_REG < 0x1000" "LAPIC_TIMER_DIV_REG < 0x1000"
  by (simp_all add: lapic_registers)

lemma plain_registers:
  "0xB0 \<notin> {0xF0, LAPIC_LVT_LINT0_REG, LAPIC_LVT_LINT1_REG}" "LAPIC_LVT_TIMER_REG \<notin> {0xF0, LAPIC_LVT_LINT0_REG, LAPIC_LVT_LINT1_REG}"
  "LAPIC_TIMER_INITCNT_REG \<notin> {0xF0, LAPIC_LVT_LINT0_REG, LAPIC_LVT_LINT1_REG}" "LAPIC_TIMER_DIV_REG \<notin> {0xF0, LAPIC_LVT_LINT0_REG, LAPIC_LVT_LINT1_REG}"
  by (simp_all add: lapic_registers)

lemma lapic_keepsD:
  assumes "lapic_keeps D l view"
  shows "off < 0x1000 \<Longrightarrow> view (snd (lapic_read D l off d)) = view d"
    "\<lbrakk>off < 0x1000; off \<notin> {0xF0, LAPIC_LVT_LINT0_REG, LAPIC_LVT_LINT1_REG}\<rbrakk> \<Longrightarrow> view (lapic_write D l off v d) = view d"
  using assms unfolding lapic_keeps_def by blast+

lemma cpu_here_dev:
  assumes "lapic_keeps D l view" "cpu_here D l m = Some (num, c, m')"
  shows "view (dev m') = view (dev m)"
  using assms(2) lapic_keepsD(1) [OF assms(1) lapic_page(1), of "dev m"]
  by (auto simp: cpu_here_def lapic_id_def split: prod.splits bind_splits)

lemma timer_handler_dev:
  assumes "lapic_keeps D l view" "timer_interrupt_handler D l m = Some m'"
  shows "view (dev m') = view (dev m)"
proof -
  obtain num c m1 where "cpu_here D l m = Some (num, c, m1)" using assms(2) by (auto simp: timer_interrupt_handler_def split: bind_splits)
  then show ?thesis using cpu_here_dev [OF assms(1), of m num c m1] lapic_keepsD(2) [OF assms(1) _ plain_registers(1)] assms(2)
    by (auto simp: timer_interrupt_handler_def end_of_interrupt_def Let_def)
qed

lemma for_in_dev:
  assumes "lapic_keeps D l view" "for_in xs (\<lambda>_. timer_interrupt_handler D l) m = Some m'"
  shows "view (dev m') = view (dev m)"
  using assms(2)
proof (induction xs arbitrary: m)
  case (Cons x xs)
  then obtain m1 where "timer_interrupt_handler D l m = Some m1" "for_in xs (\<lambda>_. timer_interrupt_handler D l) m1 = Some m'" by (auto split: bind_splits)
  then show ?case using Cons.IH [of m1] timer_handler_dev [OF assms(1), of m m1] by simp
qed simp

lemma get_irq_cnt_dev:
  assumes "lapic_keeps D l view" "get_irq_cnt D l ints m = Some (c, m')"
  shows "view (dev m') = view (dev m)"
proof -
  obtain m1 num k where m1: "deliver D l ints m = Some m1" "cpu_here D l m1 = Some (num, k, m')"
    using assms(2) by (auto simp: get_irq_cnt_def split: bind_splits)
  have "view (dev m1) = view (dev m)" using for_in_dev [OF assms(1) m1(1) [unfolded deliver_def]] by simp
  then show ?thesis using cpu_here_dev [OF assms(1) m1(2)] by simp
qed

lemma wait_irq_dev:
  assumes "lapic_keeps D l view" "wait_irq D l ints cnt m = Some (c, m')"
  shows "view (dev m') = view (dev m)"
proof -
  have "D = D \<longrightarrow> l = l \<longrightarrow> (case (c, m') of (c, m') \<Rightarrow> view (dev m') = view (dev m))"
  proof (rule wait_irq.raw_induct [where P = "\<lambda>D' l' ints' cnt m r. D' = D \<longrightarrow> l' = l \<longrightarrow> (case r of (c, m') \<Rightarrow> view (dev m') = view (dev m))", OF _ assms(2)])
    fix w D' l' ints' cnt' m1 r
    assume ih: "\<And>D' l' ints' cnt m r. w D' l' ints' cnt m = Some r \<Longrightarrow> D' = D \<longrightarrow> l' = l \<longrightarrow> (case r of (c, m') \<Rightarrow> view (dev m') = view (dev m))"
      and r: "get_irq_cnt D' l' ints' m1 \<bind> (\<lambda>(c, m). if c - cnt' < 1 then w D' l' ints' cnt' m else Some (c, m)) = Some r"
    show "D' = D \<longrightarrow> l' = l \<longrightarrow> (case r of (c, m') \<Rightarrow> view (dev m') = view (dev m1))"
    proof (intro impI)
      assume e: "D' = D" "l' = l"
      obtain k m2 where g: "get_irq_cnt D l ints' m1 = Some (k, m2)" "(if k - cnt' < 1 then w D l ints' cnt' m2 else Some (k, m2)) = Some r"
        using r e by (auto split: bind_splits)
      have "view (dev m2) = view (dev m1)" by (rule get_irq_cnt_dev [OF assms(1) g(1)])
      then show "case r of (c, m') \<Rightarrow> view (dev m') = view (dev m1)" using g(2) ih [of D l ints' cnt' m2 r] by (auto split: if_splits)
    qed
  qed
  then show ?thesis by simp
qed

lemma calibrate_dev:
  assumes k: "lapic_keeps D l view" and c: "calibrate_apic_timer D outb l ints io pitreg m = Some t"
    and o: "\<And>p v d. p \<in> {0x40, 0x43} \<Longrightarrow> view (outb p v d) = view d"
  shows "\<exists>d. view d = view (dev m) \<and> view (dev t) = view (ioapic_write D io pitreg APIC_MASKED d)"
proof -
  note steps = get_irq_cnt_dev [OF k] wait_irq_dev [OF k]
  note w = lapic_keepsD(2) [OF k lapic_page(2) plain_registers(2)] lapic_keepsD(2) [OF k lapic_page(5) plain_registers(3)] lapic_keepsD(2) [OF k lapic_page(7) plain_registers(4)]
  let ?m0 = "m\<lparr>dev := lapic_write D l LAPIC_TIMER_DIV_REG 3 (lapic_write D l LAPIC_LVT_TIMER_REG 33 (outb 64 46 (outb 64 11932 (outb 67 52 (dev m))))), if_flag := True\<rparr>"
  have m0: "view (dev ?m0) = view (dev m)" by (simp add: w o)
  obtain c1 m1 c2 m2 c3 m3 v d where
    m1: "get_irq_cnt D l ints ?m0 = Some (c1, m1)" and m2: "wait_irq D l ints c1 m1 = Some (c2, m2)"
    and m3: "wait_irq D l ints c2 (m2\<lparr>dev := lapic_write D l LAPIC_TIMER_INITCNT_REG (-1) (dev m2)\<rparr>) = Some (c3, m3)"
    and d: "lapic_read D l LAPIC_TIMER_CURRCNT_REG (lapic_write D l LAPIC_LVT_TIMER_REG APIC_MASKED (dev m3)) = (v, d)"
    and t: "view (dev t) = view (ioapic_write D io pitreg APIC_MASKED d)"
    using c w by (auto simp: calibrate_apic_timer_def Let_def split: bind_splits prod.splits)
  have "view d = view (dev m3)" using lapic_keepsD(1) [OF k lapic_page(6), of "lapic_write D l LAPIC_LVT_TIMER_REG APIC_MASKED (dev m3)"] w d by simp
  also have "\<dots> = view (dev m2)" using steps(2) [OF m3] w by simp
  also have "\<dots> = view (dev m)" using steps(1) [OF m1] steps(2) [OF m2] m0 by simp
  finally show ?thesis using t by blast
qed

text \<open>What programming the I/O APICs leaves alone.\<close>

lemma ioapic_keepsD:
  assumes "ioapic_keeps D P view" "ioapic_ptr io \<in> P"
  shows "view (ioapic_write D io off v d) = view d" "view (snd (ioapic_read D io off d)) = view d" "view (ioapic_update D io off f d) = view d"
proof -
  show w: "view (ioapic_write D io off v d) = view d" for v d
    using assms unfolding ioapic_keeps_def by (simp add: ioapic_write_def ioapic_register_at_def)
  show r: "view (snd (ioapic_read D io off d)) = view d"
    using assms unfolding ioapic_keeps_def by (simp add: ioapic_read_def ioapic_register_at_def)
  show "view (ioapic_update D io off f d) = view d" using r w by (auto simp: ioapic_update_def split: prod.splits)
qed

lemma init_one_ioapic_dev:
  assumes k: "ioapic_keeps D P view" "io_ptr mp info \<in> P" and i: "init_one_ioapic D pf mp gsi info (found, d) = Some (found', d')"
  shows "view d' = view d"
proof -
  let ?io = "\<lparr>ioapic_ptr = io_ptr mp info\<rparr>"
  have io: "ioapic_ptr ?io \<in> P" using k(2) by simp
  obtain v d1 where r: "ioapic_read D ?io IOAPICVER d = (v, d1)" by fastforce
  have one: "view (snd (init_redirection D ?io b gsi bsp j fd)) = view (snd fd)" for b bsp j fd
    by (cases fd) (simp add: init_redirection_def Let_def ioapic_keepsD [OF k(1) io])
  have "view (snd (fold (\<lambda>i. init_redirection D ?io b gsi bsp (of_nat i)) xs fd)) = view (snd fd)" for b bsp xs fd
    by (induction xs arbitrary: fd) (simp_all add: one)
  moreover have "view d1 = view d" using ioapic_keepsD(2) [OF k(1) io, of IOAPICVER d] r by simp
  moreover have "\<exists>b bsp xs. fold (\<lambda>i. init_redirection D ?io b gsi bsp (of_nat i)) xs (found, d1) = (found', d')"
    using i r by (auto simp: init_one_ioapic_def phys_to_virt_ptr_def io_ptr_def Let_def split: bind_splits if_splits)
  ultimately show ?thesis by (metis snd_conv)
qed

lemma init_all_ioapics_dev:
  assumes "ioapic_keeps D P view" "\<forall>info \<in> set infos. io_ptr mp info \<in> P" "for_in infos (init_one_ioapic D pf mp gsi) (found, d) = Some (found', d')"
  shows "view d' = view d"
  using assms(2,3)
proof (induction infos arbitrary: found d)
  case (Cons info infos)
  then obtain f1 d1 where "init_one_ioapic D pf mp gsi info (found, d) = Some (f1, d1)" "for_in infos (init_one_ioapic D pf mp gsi) (f1, d1) = Some (found', d')"
    by (auto split: bind_splits)
  then show ?case using Cons init_one_ioapic_dev [OF assms(1)] by (metis list.set_intros)
qed simp

lemma init_ioapic_dev:
  assumes "ioapic_keeps D P view" "apic_of pf = Some apic" "\<forall>info \<in> set (io_apics apic). io_ptr mp info \<in> P" "init_ioapic D pf mp d = Some (r, d')"
  shows "view d' = view d"
proof -
  obtain pit :: source_override where "for_in (io_apics apic) (init_one_ioapic D pf mp (global_system_interrupt pit)) (None, d) = Some (Some r, d')"
    using assms(2,4) by (auto simp: init_ioapic_def simp del: apic_of.simps split: bind_splits)
  then show ?thesis by (rule init_all_ioapics_dev [OF assms(1,3)])
qed

section \<open>The tables\<close>

lemma gdt_init_loads:
  assumes "gdt_laws G" "vadd stack STACK_SIZE = Some stack_end"
  shows "\<exists>g t pr'. gdt_init G vadd stack pr = Some pr' \<and> gdtr pr' = Some g \<and> gdt_lookup G g (CS pr') = Some Kernel_Code_Segment
    \<and> gdt_lookup G g (TR pr') = Some (Tss_Segment t) \<and> interrupt_stack_table t ! unat DOUBLE_FAULT_IST_INDEX = stack_end \<and> idtr pr' = idtr pr"
proof -
  let ?t = "(tss_new G)\<lparr>interrupt_stack_table := (interrupt_stack_table (tss_new G))[0 := stack_end]\<rparr>"
  have ne: "interrupt_stack_table (tss_new G) \<noteq> []" using assms(1) by (simp add: gdt_laws_def)
  obtain c g1 s' g where g: "add_entry G Kernel_Code_Segment (gdt_new G) = (c, g1)" "add_entry G (Tss_Segment ?t) g1 = (s', g)" by fastforce
  have law: "let (c, g) = add_entry G Kernel_Code_Segment (gdt_new G); (s, g) = add_entry G (Tss_Segment ?t) g
     in gdt_lookup G g c = Some Kernel_Code_Segment \<and> gdt_lookup G g s = Some (Tss_Segment ?t)" using assms(1) unfolding gdt_laws_def by blast
  have "gdt_init G vadd stack pr = Some (pr\<lparr>gdtr := Some g, CS := c, SS := 0, DS := 0, TR := s'\<rparr>)"
    using ne g assms(2) by (simp add: gdt_init_def double_fault_tss_def DOUBLE_FAULT_IST_INDEX_def)
  moreover have "gdt_lookup G g c = Some Kernel_Code_Segment" "gdt_lookup G g s' = Some (Tss_Segment ?t)" using law g by simp_all
  moreover have "interrupt_stack_table ?t ! unat DOUBLE_FAULT_IST_INDEX = stack_end" using ne by (simp add: DOUBLE_FAULT_IST_INDEX_def)
  ultimately show ?thesis by (intro exI [of _ g] exI [of _ ?t] exI [of _ "pr\<lparr>gdtr := Some g, CS := c, SS := 0, DS := 0, TR := s'\<rparr>"]) simp
qed

lemma IDT_handlers:
  assumes "idt_laws I"
  shows "idt_handler I (IDT I) 32 = Some Timer_Interrupt_Handler" "idt_handler I (IDT I) 33 = Some Scratch_Timer_Interrupt_Handler"
    "idt_handler I (IDT I) 8 = Some Double_Fault_Handler" "idt_stack I (IDT I) 8 = Some DOUBLE_FAULT_IST_INDEX"
    "idt_handler I (IDT I) 3 = Some Breakpoint_Handler" "idt_handler I (IDT I) 14 = Some Page_Fault_Handler"
    "idt_handler I (IDT I) v \<noteq> None \<longleftrightarrow> v \<in> {3, 8, 14, 32, 33}"
proof -
  have h: "idt_handler I (set_handler_fn I v h i) u = (if u = v then Some h else idt_handler I i u)"
    "u \<noteq> v \<Longrightarrow> idt_stack I (set_handler_fn I v h i) u = idt_stack I i u"
    "idt_stack I (set_stack_index I v k i) u = (if u = v then Some k else idt_stack I i u)"
    "idt_handler I (set_stack_index I v k i) u = idt_handler I i u" for v h i u k
    using assms unfolding idt_laws_def by blast+
  have n: "idt_handler I (idt_new I) u = None" for u using assms unfolding idt_laws_def by blast
  show "idt_handler I (IDT I) 32 = Some Timer_Interrupt_Handler" "idt_handler I (IDT I) 33 = Some Scratch_Timer_Interrupt_Handler"
    "idt_handler I (IDT I) 8 = Some Double_Fault_Handler" "idt_stack I (IDT I) 8 = Some DOUBLE_FAULT_IST_INDEX"
    "idt_handler I (IDT I) 3 = Some Breakpoint_Handler" "idt_handler I (IDT I) 14 = Some Page_Fault_Handler"
    by (simp_all add: IDT_def as_usize_def h)
  show "idt_handler I (IDT I) v \<noteq> None \<longleftrightarrow> v \<in> {3, 8, 14, 32, 33}" by (auto simp: IDT_def as_usize_def h n)
qed

section \<open>The interrupt controllers\<close>

lemma ioapic_laws_mono: "\<lbrakk>ioapic_laws D P sel reg; Q \<subseteq> P\<rbrakk> \<Longrightarrow> ioapic_laws D Q sel reg"
  unfolding ioapic_laws_def by blast

lemma init_lapic_separate:
  assumes "separate_laws B l reg" "apic_of pf = Some apic" "lapic_ptr l = phys_to_virt mp (local_apic_address apic)" "lapic_ptr l \<noteq> 0"
  shows "\<exists>d'. init_lapic (mmio_of B) pf mp d = Some (l, d') \<and> reg d' = reg d"
proof -
  have l: "phys_to_virt_ptr mp (local_apic_address apic) = Some (lapic_ptr l)" "\<lparr>lapic_ptr = lapic_ptr l\<rparr> = l"
    using assms(3,4) by (simp_all add: phys_to_virt_ptr_def)
  have w: "off < 0x1000 \<Longrightarrow> reg (lapic_write (mmio_of B) l off v d) = reg d" "off < 0x1000 \<Longrightarrow> reg (snd (lapic_read (mmio_of B) l off d)) = reg d" for off v d
    using assms(1) by (simp_all add: separate_laws_def)
  have u: "off < 0x1000 \<Longrightarrow> reg (lapic_update (mmio_of B) l off f d) = reg d" for off f d
    using w(2) [of off d] by (auto simp: lapic_update_def w(1) split: prod.splits)
  show ?thesis by (simp add: init_lapic_def assms(2) l w(1) u lapic_page del: apic_of.simps)
qed

text \<open>The two LINT entries after \<open>init_lapic\<close>, and the old interrupt controllers after they were disabled.\<close>

lemma init_lapic_masks:
  assumes "lint_laws B l P lreg" "init_lapic (mmio_of B) pf mp d = Some (l, d')"
  shows "bit (lreg d' LAPIC_LVT_LINT0_REG) 16" "bit (lreg d' LAPIC_LVT_LINT1_REG) 16"
proof -
  obtain d1 where d1: "d' = lapic_write (mmio_of B) l LAPIC_LVT_LINT1_REG APIC_MASKED (lapic_write (mmio_of B) l LAPIC_LVT_LINT0_REG APIC_MASKED d1)"
    using assms(2) by (auto simp: init_lapic_def Let_def split: bind_splits)
  have m: "bit (lreg (lapic_write (mmio_of B) l off APIC_MASKED d) off) 16" if "off \<in> {LAPIC_LVT_LINT0_REG, LAPIC_LVT_LINT1_REG}" for off d
    using assms(1) that unfolding lint_laws_def by (auto simp: APIC_MASKED_def)
  have k: "lreg (lapic_write (mmio_of B) l LAPIC_LVT_LINT1_REG v d) LAPIC_LVT_LINT0_REG = lreg d LAPIC_LVT_LINT0_REG" for v d
    using assms(1) unfolding lint_laws_def by blast
  show "bit (lreg d' LAPIC_LVT_LINT0_REG) 16" "bit (lreg d' LAPIC_LVT_LINT1_REG) 16" unfolding d1 k by (simp_all add: m)
qed

lemma old_pic_disabled:
  assumes "old_pic_laws B l P pic" "init_lapic (mmio_of B) pf mp (init_and_disable_old_pic (pics B) d) = Some (l, d')"
  shows "pic d' = (True, PIC_1_OFFSET, PIC_2_OFFSET)"
proof -
  have w: "off < 0x1000 \<Longrightarrow> pic (lapic_write (mmio_of B) l off v d) = pic d" "off < 0x1000 \<Longrightarrow> pic (snd (lapic_read (mmio_of B) l off d)) = pic d" for off v d
    using assms(1) unfolding old_pic_laws_def by blast+
  have u: "off < 0x1000 \<Longrightarrow> pic (lapic_update (mmio_of B) l off f d) = pic d" for off f d
    using w(2) [of off d] by (auto simp: lapic_update_def w(1) split: prod.splits)
  have "d' = lapic_write (mmio_of B) l LAPIC_LVT_LINT1_REG APIC_MASKED (lapic_write (mmio_of B) l LAPIC_LVT_LINT0_REG APIC_MASKED
      (lapic_write (mmio_of B) l LAPIC_LVT_TIMER_REG APIC_MASKED (lapic_update (mmio_of B) l 0xF0 (\<lambda>reg. reg OR 0x100) (init_and_disable_old_pic (pics B) d))))"
    using assms(2) by (auto simp: init_lapic_def Let_def split: bind_splits)
  then have "pic d' = pic (init_and_disable_old_pic (pics B) d)" by (simp add: w(1) u lapic_page)
  also have "\<dots> = (True, PIC_1_OFFSET, PIC_2_OFFSET)" using assms(1) unfolding old_pic_laws_def init_and_disable_old_pic_def by simp
  finally show ?thesis .
qed

text \<open>What programming the I/O APICs and calibrating the timer keep.\<close>

lemma later_keeps:
  assumes "lapic_keeps (mmio_of B) l view" "ioapic_keeps (mmio_of B) P view" "\<And>p v d. p \<in> {0x40, 0x43} \<Longrightarrow> view (outb_of B p v d) = view d"
    "apic_of pf = Some apic" "\<forall>info \<in> set (io_apics apic). io_ptr mp info \<in> P" "init_ioapic (mmio_of B) pf mp d1 = Some ((io, r), d2)" "ioapic_ptr io \<in> P"
    "calibrate_apic_timer (mmio_of B) (outb_of B) l ints io r (m\<lparr>dev := d2\<rparr>) = Some t"
  shows "view (dev t) = view d1"
proof -
  from calibrate_dev [where view = view and outb = "outb_of B" and m = "m\<lparr>dev := d2\<rparr>", OF assms(1,8)] assms(3) obtain d where "view d = view (dev (m\<lparr>dev := d2\<rparr>))" "view (dev t) = view (ioapic_write (mmio_of B) io r APIC_MASKED d)" by blast
  then show ?thesis using ioapic_keepsD(1) [OF assms(2,7)] init_ioapic_dev [OF assms(2,4,5,6)] by simp
qed

lemma lint_laws_keep:
  assumes "lint_laws B l P lreg" "off \<in> {LAPIC_LVT_LINT0_REG, LAPIC_LVT_LINT1_REG}"
  shows "lapic_keeps (mmio_of B) l (\<lambda>d. lreg d off)" "ioapic_keeps (mmio_of B) P (\<lambda>d. lreg d off)" "lreg (outb_of B p v d) off = lreg d off"
  using assms unfolding lint_laws_def by blast+

lemma old_pic_laws_keep:
  assumes "old_pic_laws B l P pic"
  shows "lapic_keeps (mmio_of B) l pic" "ioapic_keeps (mmio_of B) P pic" "p \<in> {0x40, 0x43} \<Longrightarrow> pic (outb_of B p v d) = pic d"
  using assms unfolding old_pic_laws_def lapic_keeps_def by auto

lemma vector_byte: "x AND 0x1AFFF = 32 \<Longrightarrow> unat (x AND 0xFF :: u32) = 32"
proof -
  assume x: "x AND 0x1AFFF = 32"
  have "x AND 0xFF = (x AND 0x1AFFF) AND 0xFF" by (simp add: and.assoc)
  then show ?thesis unfolding x by simp
qed

text \<open>Every entry of the I/O APICs is masked or sends the timer's vector.\<close>

definition quiet_or_timer :: "u32 \<Rightarrow> bool" where
  "quiet_or_timer w \<longleftrightarrow> bit w 16 \<or> unat (w AND 0xFF) = 32"

lemma entry_done_quiet:
  assumes "entry_done reg bsp gsi b d p k" "k < 120"
  shows "quiet_or_timer (reg d p (entry_reg k))"
  using assms vector_byte [of "reg d p (entry_reg k)"] by (auto simp: entry_done_def quiet_or_timer_def entry_reg_props split: if_splits)

text \<open>A board on which the kernel can start: ACPI reports I/O APICs and the interrupt of the timer, one entry of which exists.\<close>

definition board_ok :: "('d, 'g, 'i, 't) board \<Rightarrow> (u64 \<Rightarrow> u64 \<Rightarrow> u64 option) \<Rightarrow> usize \<Rightarrow> usize \<Rightarrow> lapic \<Rightarrow> usize set
    \<Rightarrow> ('d \<Rightarrow> usize \<Rightarrow> u8) \<Rightarrow> ('d \<Rightarrow> usize \<Rightarrow> u8 \<Rightarrow> u32) \<Rightarrow> apic_info \<Rightarrow> 'd \<Rightarrow> bool" where
  "board_ok B vadd offset rsdp_addr l P sel reg apic d \<longleftrightarrow>
     (\<exists>stack_end. vadd (double_fault_stack B) STACK_SIZE = Some stack_end)
     \<and> (\<exists>tables pf pit bsp. from_rsdp (acpi B) (phys_mapper_new offset) rsdp_addr = Some tables \<and> platform_info_new (acpi B) tables = Some pf
          \<and> apic_of pf = Some apic \<and> boot_processor pf = Some bsp \<and> find (\<lambda>ov. isa_source ov = 0) (interrupt_source_overrides apic) = Some pit
          \<and> (\<exists>info \<in> set (io_apics apic). \<exists>k < redirections reg d (io_ptr (phys_mapper_new offset) info).
               routes (global_system_interrupt pit) (global_system_interrupt_base info) k))
     \<and> lapic_ptr l = phys_to_virt (phys_mapper_new offset) (local_apic_address apic) \<and> lapic_ptr l \<noteq> 0 \<and> 0 \<notin> P
     \<and> (\<forall>info \<in> set (io_apics apic). io_ptr (phys_mapper_new offset) info \<in> P \<and> redirections reg d (io_ptr (phys_mapper_new offset) info) \<le> 120)
     \<and> distinct (map (io_ptr (phys_mapper_new offset)) (io_apics apic))"

definition board_laws :: "('d, 'g, 'i, 't) board \<Rightarrow> lapic \<Rightarrow> u32 \<Rightarrow> usize set \<Rightarrow> ('d \<Rightarrow> usize \<Rightarrow> u8) \<Rightarrow> ('d \<Rightarrow> usize \<Rightarrow> u8 \<Rightarrow> u32) \<Rightarrow> ('d \<Rightarrow> usize \<Rightarrow> u32)
    \<Rightarrow> ('d \<Rightarrow> bool \<times> u8 \<times> u8) \<Rightarrow> bool" where
  "board_laws B l num P sel reg lreg pic \<longleftrightarrow> gdt_laws (gdts B) \<and> idt_laws (idts B) \<and> lapic_number (mmio_of B) l num \<and> ioapic_laws (mmio_of B) P sel reg
     \<and> lapic_timer_laws (mmio_of B) l lreg reg \<and> separate_laws B l reg \<and> lint_laws B l P lreg \<and> old_pic_laws B l P pic"

lemma ioapics_ready:
  assumes laws: "board_laws B l num P sel reg lreg pic" and bd: "board_ok B vadd offset rsdp_addr l P sel reg apic d"
    and pf: "from_rsdp (acpi B) (phys_mapper_new offset) rsdp_addr = Some tables" "platform_info_new (acpi B) tables = Some pf"
  shows "\<exists>d1 d2 io k. init_lapic (mmio_of B) pf (phys_mapper_new offset) (init_and_disable_old_pic (pics B) d) = Some (l, d1)
    \<and> init_ioapic (mmio_of B) pf (phys_mapper_new offset) d1 = Some ((io, entry_reg k), d2) \<and> ioapic_ptr io \<in> P \<and> k < 120
    \<and> (\<forall>info \<in> set (io_apics apic). \<forall>k < redirections reg d (io_ptr (phys_mapper_new offset) info).
         quiet_or_timer (reg d2 (io_ptr (phys_mapper_new offset) info) (entry_reg k)))"
proof -
  let ?mp = "phys_mapper_new offset" and ?D = "mmio_of B"
  let ?d0 = "init_and_disable_old_pic (pics B) d"
  obtain pit bsp where p: "apic_of pf = Some apic" "boot_processor pf = Some bsp" "find (\<lambda>ov. isa_source ov = 0) (interrupt_source_overrides apic) = Some pit"
    "\<exists>info \<in> set (io_apics apic). \<exists>k < redirections reg d (io_ptr ?mp info). routes (global_system_interrupt pit) (global_system_interrupt_base info) k"
    using bd pf unfolding board_ok_def by auto
  have l: "lapic_ptr l = phys_to_virt ?mp (local_apic_address apic)" "lapic_ptr l \<noteq> 0" and P: "0 \<notin> P"
    and ios: "\<forall>info \<in> set (io_apics apic). io_ptr ?mp info \<in> P \<and> redirections reg d (io_ptr ?mp info) \<le> 120" "distinct (map (io_ptr ?mp) (io_apics apic))"
    using bd unfolding board_ok_def by blast+
  have sep: "separate_laws B l reg" and io: "ioapic_laws ?D P sel reg" using laws unfolding board_laws_def by blast+
  obtain d1 where d1: "init_lapic ?D pf ?mp ?d0 = Some (l, d1)" "reg d1 = reg ?d0" using init_lapic_separate [OF sep p(1) l] by blast
  have r: "reg d1 = reg d" using d1(2) sep by (simp add: init_and_disable_old_pic_def separate_laws_def)
  have n: "redirections reg d1 q = redirections reg d q" for q using r by (simp add: redirections_def)
  let ?gsi = "global_system_interrupt pit"
  have ios1: "\<forall>info \<in> set (io_apics apic). io_ptr ?mp info \<in> P \<and> redirections reg d1 (io_ptr ?mp info) \<le> 120" using ios(1) n by simp
  obtain found d2 where f: "for_in (io_apics apic) (init_one_ioapic ?D pf ?mp ?gsi) (None, d1) = Some (found, d2)"
    "\<forall>info \<in> set (io_apics apic). \<forall>k < redirections reg d (io_ptr ?mp info). entry_done reg bsp ?gsi (global_system_interrupt_base info) d2 (io_ptr ?mp info) k"
    "found = None \<and> (\<forall>info \<in> set (io_apics apic). \<forall>k < redirections reg d (io_ptr ?mp info). \<not> routes ?gsi (global_system_interrupt_base info) k)
       \<or> (\<exists>info \<in> set (io_apics apic). \<exists>k < redirections reg d (io_ptr ?mp info). routes ?gsi (global_system_interrupt_base info) k
            \<and> found = Some (\<lparr>ioapic_ptr = io_ptr ?mp info\<rparr>, entry_reg k))"
    using init_all_ioapics [OF io P p(2) ios1 ios(2), of ?gsi None] unfolding n by blast
  then obtain info k where k: "info \<in> set (io_apics apic)" "k < redirections reg d (io_ptr ?mp info)" "found = Some (\<lparr>ioapic_ptr = io_ptr ?mp info\<rparr>, entry_reg k)"
    using p(4) by blast
  have "init_ioapic ?D pf ?mp d1 = Some ((\<lparr>ioapic_ptr = io_ptr ?mp info\<rparr>, entry_reg k), d2)"
    by (simp add: init_ioapic_def p(1,3) f(1) k(3) del: apic_of.simps)
  moreover have "k < 120" using k(1,2) ios(1) by fastforce
  moreover have "\<forall>info \<in> set (io_apics apic). \<forall>k < redirections reg d (io_ptr ?mp info). quiet_or_timer (reg d2 (io_ptr ?mp info) (entry_reg k))"
    using f(2) ios(1) entry_done_quiet by (meson less_le_trans)
  moreover have "ioapic_ptr \<lparr>ioapic_ptr = io_ptr ?mp info\<rparr> \<in> P" using ios(1) k(1) by simp
  ultimately show ?thesis using d1(1) by blast
qed

lemma calibration_quiet:
  assumes laws: "board_laws B l num P sel reg lreg pic" and io: "ioapic_ptr io \<in> P" "k < 120" and run: "timer_runs ints" "counted num m n"
  shows "\<exists>t. calibrate_apic_timer (mmio_of B) (outb_of B) l ints io (entry_reg k) m = Some t \<and> lreg (dev t) LAPIC_LVT_TIMER_REG = 0x20020
    \<and> (\<forall>q j. j < 120 \<longrightarrow> quiet_or_timer (reg (dev m) q (entry_reg j)) \<longrightarrow> quiet_or_timer (reg (dev t) q (entry_reg j)))"
proof -
  have L: "lapic_number (mmio_of B) l num" "ioapic_laws (mmio_of B) P sel reg" "lapic_timer_laws (mmio_of B) l lreg reg" and sep: "separate_laws B l reg"
    using laws unfolding board_laws_def by blast+
  have r: "lapic_keeps (mmio_of B) l reg" "\<And>p v d. reg (outb_of B p v d) = reg d"
    using sep unfolding separate_laws_def lapic_keeps_def by blast+
  have "ioapic_laws (mmio_of B) {ioapic_ptr io} sel reg" using ioapic_laws_mono [OF L(2)] io(1) by blast
  from calibration_done [OF L(1) run this L(3) io(2), of "outb_of B"] obtain t where
    t: "calibrate_apic_timer (mmio_of B) (outb_of B) l ints io (entry_reg k) m = Some t" "lreg (dev t) LAPIC_LVT_TIMER_REG = 0x20020"
      "bit (reg (dev t) (ioapic_ptr io) (entry_reg k)) 16" by blast
  obtain d where d: "reg d = reg (dev m)" "reg (dev t) = reg (ioapic_write (mmio_of B) io (entry_reg k) APIC_MASKED d)" using calibrate_dev [OF r(1) t(1) r(2)] by blast
  have "quiet_or_timer (reg (dev t) q (entry_reg j))" if "j < 120" "quiet_or_timer (reg (dev m) q (entry_reg j))" for q j
  proof (cases "q = ioapic_ptr io \<and> entry_reg j = entry_reg k")
    case True
    then show ?thesis using t(3) by (simp add: quiet_or_timer_def)
  next
    case False
    then have "reg (dev t) q (entry_reg j) = reg (dev m) q (entry_reg j)"
      using d ioapic_write_reg [OF L(2) io(1) entry_reg_props(1) [OF io(2)], of APIC_MASKED d q "entry_reg j"] by auto
    then show ?thesis using that(2) by simp
  qed
  then show ?thesis using t(1,2) by blast
qed

text \<open>The state of the processor and the interrupt controllers after \<open>arch_init\<close>.\<close>

definition arch_ready :: "('d, 'g, 'i, 't) board \<Rightarrow> (u64 \<Rightarrow> u64 \<Rightarrow> u64 option) \<Rightarrow> usize \<Rightarrow> lapic \<Rightarrow> ('d \<Rightarrow> usize \<Rightarrow> u8 \<Rightarrow> u32) \<Rightarrow> ('d \<Rightarrow> usize \<Rightarrow> u32)
    \<Rightarrow> ('d \<Rightarrow> bool \<times> u8 \<times> u8) \<Rightarrow> apic_info \<Rightarrow> 'd \<Rightarrow> ('f, 'd, 'g, 'i) arch \<Rightarrow> bool" where
  "arch_ready B vadd offset l reg lreg pic apic d s \<longleftrightarrow> if_flag (mach s) \<and> LAPIC s = Some l
     \<and> pic (dev (mach s)) = (True, 32, 40)
     \<and> bit (lreg (dev (mach s)) LAPIC_LVT_LINT0_REG) 16 \<and> bit (lreg (dev (mach s)) LAPIC_LVT_LINT1_REG) 16
     \<and> (\<exists>idt. idtr (processor s) = Some idt \<and> (\<forall>v. idt_handler (idts B) idt v \<noteq> None \<longleftrightarrow> v \<in> {3, 8, 14, 32, 33})
          \<and> (\<forall>info \<in> set (io_apics apic). \<forall>k < redirections reg d (io_ptr (phys_mapper_new offset) info).
               let w = reg (dev (mach s)) (io_ptr (phys_mapper_new offset) info) (entry_reg k)
               in bit w 16 \<or> idt_handler (idts B) idt (unat (w AND 0xFF)) = Some Timer_Interrupt_Handler)
          \<and> idt_handler (idts B) idt (unat (lreg (dev (mach s)) LAPIC_LVT_TIMER_REG AND 0xFF)) = Some Timer_Interrupt_Handler
          \<and> (\<exists>gdt t i. gdtr (processor s) = Some gdt \<and> gdt_lookup (gdts B) gdt (CS (processor s)) = Some Kernel_Code_Segment
               \<and> gdt_lookup (gdts B) gdt (TR (processor s)) = Some (Tss_Segment t) \<and> idt_handler (idts B) idt 8 = Some Double_Fault_Handler
               \<and> idt_stack (idts B) idt 8 = Some i \<and> vadd (double_fault_stack B) STACK_SIZE = Some (interrupt_stack_table t ! unat i)))"

lemma arch_init_loads:
  assumes laws: "board_laws B l num P sel reg lreg pic" and bd: "board_ok B vadd offset rsdp_addr l P sel reg apic (dev (mach s))"
    and run: "timer_runs ints" "counted num (mach s) n"
  shows "\<exists>s'. arch_init B vadd ints offset rsdp_addr s = Some s' \<and> arch_ready B vadd offset l reg lreg pic apic (dev (mach s)) s'"
proof -
  let ?mp = "phys_mapper_new offset" and ?d = "dev (mach s)"
  obtain stack_end tables pf where stack_end: "vadd (double_fault_stack B) STACK_SIZE = Some stack_end"
    and pf: "from_rsdp (acpi B) ?mp rsdp_addr = Some tables" "platform_info_new (acpi B) tables = Some pf"
    using bd unfolding board_ok_def by blast
  have G: "gdt_laws (gdts B)" and I: "idt_laws (idts B)" using laws unfolding board_laws_def by blast+
  obtain g t pr where pr: "gdt_init (gdts B) vadd (double_fault_stack B) (processor s) = Some pr" "gdtr pr = Some g"
    "gdt_lookup (gdts B) g (CS pr) = Some Kernel_Code_Segment" "gdt_lookup (gdts B) g (TR pr) = Some (Tss_Segment t)"
    "interrupt_stack_table t ! unat DOUBLE_FAULT_IST_INDEX = stack_end" using gdt_init_loads [of "gdts B" vadd "double_fault_stack B", OF G stack_end] by blast
  obtain d1 d2 io k where a: "init_lapic (mmio_of B) pf ?mp (init_and_disable_old_pic (pics B) ?d) = Some (l, d1)"
    "init_ioapic (mmio_of B) pf ?mp d1 = Some ((io, entry_reg k), d2)" "ioapic_ptr io \<in> P" "k < 120"
    "\<forall>info \<in> set (io_apics apic). \<forall>k < redirections reg ?d (io_ptr ?mp info). quiet_or_timer (reg d2 (io_ptr ?mp info) (entry_reg k))"
    using ioapics_ready [OF laws bd pf] by blast
  have c: "counted num ((mach s)\<lparr>dev := d2\<rparr>) n" using run(2) by simp
  obtain m where m: "calibrate_apic_timer (mmio_of B) (outb_of B) l ints io (entry_reg k) ((mach s)\<lparr>dev := d2\<rparr>) = Some m" "lreg (dev m) LAPIC_LVT_TIMER_REG = 0x20020"
    "\<And>q j. j < 120 \<Longrightarrow> quiet_or_timer (reg d2 q (entry_reg j)) \<Longrightarrow> quiet_or_timer (reg (dev m) q (entry_reg j))"
    using calibration_quiet [OF laws a(3,4) run(1) c] by auto
  have s': "arch_init B vadd ints offset rsdp_addr s = Some (s\<lparr>processor := init_idt (idts B) pr, LAPIC := Some l, mach := m\<lparr>if_flag := True\<rparr>\<rparr>)"
    by (simp add: arch_init_def pr(1) pf get_acpi_tables_def get_platform_info_def a(1,2) time_init_def m(1))
  have le: "redirections reg ?d (io_ptr ?mp info) \<le> 120" if "info \<in> set (io_apics apic)" for info using bd that unfolding board_ok_def by blast
  have q: "bit w 16 \<or> idt_handler (idts B) (IDT (idts B)) (unat (w AND 0xFF)) = Some Timer_Interrupt_Handler"
    if "w = reg (dev m) (io_ptr ?mp info) (entry_reg k)" "info \<in> set (io_apics apic)" "k < redirections reg ?d (io_ptr ?mp info)" for w info k
    using m(3) [of k "io_ptr ?mp info"] a(5) that le [OF that(2)] IDT_handlers(1) [OF I] by (auto simp: quiet_or_timer_def)
  have v: "unat (0x20020 AND 0xFF :: u32) = 32" by simp
  have P: "apic_of pf = Some apic" "\<forall>info \<in> set (io_apics apic). io_ptr ?mp info \<in> P" using bd pf unfolding board_ok_def by auto
  have L: "lint_laws B l P lreg" "old_pic_laws B l P pic" using laws unfolding board_laws_def by blast+
  have lint: "bit (lreg (dev m) off) 16" if off: "off \<in> {LAPIC_LVT_LINT0_REG, LAPIC_LVT_LINT1_REG}" for off
    using later_keeps [where view = "\<lambda>d. lreg d off", OF lint_laws_keep [OF L(1) off] P a(2,3) m(1)] init_lapic_masks [OF L(1) a(1)] off by auto
  have "pic (dev m) = pic d1" by (rule later_keeps [OF old_pic_laws_keep [OF L(2)] P a(2,3) m(1)])
  then have pc: "pic (dev m) = (True, 32, 40)" using old_pic_disabled [OF L(2) a(1)] by (simp add: PIC_1_OFFSET_def PIC_2_OFFSET_def)
  have "arch_ready B vadd offset l reg lreg pic apic ?d (s\<lparr>processor := init_idt (idts B) pr, LAPIC := Some l, mach := m\<lparr>if_flag := True\<rparr>\<rparr>)"
    unfolding arch_ready_def Let_def using q IDT_handlers [OF I] pr stack_end m(2) v lint pc by (auto simp: init_idt_def)
  then show ?thesis using s' by blast
qed

section \<open>Properties\<close>

text \<open>The devices of \<open>demo_system\<close>, whose memory below \<open>0x1000\<close> holds the state of the old interrupt controllers, with tables as lists and functions.\<close>

definition demo_pics :: "((u8 \<times> (u8 \<Rightarrow> u32)) \<times> (usize \<Rightarrow> u32)) pic_ops" where
  "demo_pics = \<lparr>pic_initialize = (\<lambda>a b (io, st). (io, st(1 := ucast a, 2 := ucast b))), pic_disable = (\<lambda>(io, st). (io, st(0 := 1)))\<rparr>"

definition demo_pic :: "(u8 \<times> (u8 \<Rightarrow> u32)) \<times> (usize \<Rightarrow> u32) \<Rightarrow> bool \<times> u8 \<times> u8" where
  "demo_pic d = (snd d 0 = 1, ucast (snd d 1), ucast (snd d 2))"

definition demo_board :: "((u8 \<times> (u8 \<Rightarrow> u32)) \<times> (usize \<Rightarrow> u32), descriptor list, (nat \<Rightarrow> handler option) \<times> (nat \<Rightarrow> u16 option), unit) board" where
  "demo_board = \<lparr>mmio_of = demo_system, outb_of = (\<lambda>_ _ d. d), pics = demo_pics,
     gdts = \<lparr>gdt_new = [], add_entry = (\<lambda>e g. (of_nat (length g), g @ [e])), gdt_lookup = (\<lambda>g s. if unat s < length g then Some (g ! unat s) else None),
       tss_new = \<lparr>interrupt_stack_table = replicate 7 0\<rparr>\<rparr>,
     idts = \<lparr>idt_new = (\<lambda>_. None, \<lambda>_. None), set_handler_fn = (\<lambda>v h (i, k). (i(v \<mapsto> h), k(v := None))), set_stack_index = (\<lambda>v x (i, k). (i, k(v \<mapsto> x))),
       idt_handler = fst, idt_stack = snd\<rparr>,
     acpi = \<lparr>from_rsdp = (\<lambda>_ _. Some ()), platform_info_new = (\<lambda>_. Some demo_platform)\<rparr>, double_fault_stack = 0x5000\<rparr>"

definition demo_devices :: "(u8 \<times> (u8 \<Rightarrow> u32)) \<times> (usize \<Rightarrow> u32)" where
  "demo_devices = ((0, (\<lambda>_. 0)(1 := 0x170000)), \<lambda>_. 7)"

definition demo_arch :: "(nat, (u8 \<times> (u8 \<Rightarrow> u32)) \<times> (usize \<Rightarrow> u32), descriptor list, (nat \<Rightarrow> handler option) \<times> (nat \<Rightarrow> u16 option)) arch" where
  "demo_arch = \<lparr>processor = \<lparr>gdtr = None, idtr = None, CS = 0, SS = 0, DS = 0, TR = 0\<rparr>, LAPIC = None,
     mach = \<lparr>kern = kernel_init (\<lambda>_. worker_new Fifo 8), dev = demo_devices, if_flag = False, APIC_TICKS_IN_10MS = 0, SCRATCH_TIMER = 0, looks = 0\<rparr>\<rparr>"

lemma demo_lapic_address:
  assumes "off < 0x1000"
  shows "0x2000 + off \<noteq> (0x1000 :: usize)" "0x2000 + off \<noteq> (0x1010 :: usize)" "0x2000 + off \<noteq> (0 :: usize)" "0x2000 + off \<noteq> (1 :: usize)" "0x2000 + off \<noteq> (2 :: usize)"
proof -
  have u: "unat (0x2000 + off) = 0x2000 + unat off" using assms by (simp add: unat_word_ariths word_less_nat_alt)
  show "0x2000 + off \<noteq> (0x1000 :: usize)" "0x2000 + off \<noteq> (0x1010 :: usize)" "0x2000 + off \<noteq> (0 :: usize)" "0x2000 + off \<noteq> (1 :: usize)" "0x2000 + off \<noteq> (2 :: usize)"
    by (rule notI, drule arg_cong [where f = unat], simp add: u)+
qed

lemma demo_lapic_access:
  "snd (lapic_read demo_system \<lparr>lapic_ptr = 0x2000\<rparr> off d) = d"
  "off < 0x1000 \<Longrightarrow> lapic_write demo_system \<lparr>lapic_ptr = 0x2000\<rparr> off v d = (fst d, (snd d)(0x2000 + off := v))"
  using demo_lapic_address [of off] by (auto simp: lapic_read_def lapic_write_def lapic_register_at_def demo_system_def split: prod.splits)

lemma demo_masks: "lint_laws demo_board \<lparr>lapic_ptr = 0x2000\<rparr> {0x1000} (\<lambda>d off. snd d (0x2000 + off))" "old_pic_laws demo_board \<lparr>lapic_ptr = 0x2000\<rparr> {0x1000} demo_pic"
proof -
  have b: "mmio_of demo_board = demo_system" "outb_of demo_board = (\<lambda>_ _ d. d)" "pics demo_board = demo_pics" by (simp_all add: demo_board_def)
  note r = demo_lapic_access(1)
  have k: "ioapic_keeps demo_system {0x1000} view" if "\<And>d e. snd d = snd e \<Longrightarrow> view d = view e" for view :: "(u8 \<times> (u8 \<Rightarrow> u32)) \<times> (usize \<Rightarrow> u32) \<Rightarrow> 'v"
    unfolding ioapic_keeps_def by (auto simp: demo_system_def intro!: that split: prod.splits)
  have "lapic_keeps demo_system \<lparr>lapic_ptr = 0x2000\<rparr> (\<lambda>d. snd d (0x2000 + off))" if "off \<in> {LAPIC_LVT_LINT0_REG, LAPIC_LVT_LINT1_REG}" for off
    using that by (auto simp: lapic_keeps_def r demo_lapic_access(2))
  then show "lint_laws demo_board \<lparr>lapic_ptr = 0x2000\<rparr> {0x1000} (\<lambda>d off. snd d (0x2000 + off))"
    unfolding lint_laws_def b by (auto simp: demo_lapic_access(2) lapic_page intro!: k) (simp_all add: lapic_registers)
  show "old_pic_laws demo_board \<lparr>lapic_ptr = 0x2000\<rparr> {0x1000} demo_pic"
    unfolding old_pic_laws_def b using demo_lapic_address
    by (auto simp: demo_pics_def demo_pic_def r demo_lapic_access(2) intro!: k split: prod.splits)
qed

lemma demo_board_laws:
  "board_laws demo_board \<lparr>lapic_ptr = 0x2000\<rparr> 0 {0x1000} (\<lambda>d _. fst (fst d)) (\<lambda>d. demo_reg (fst d)) (\<lambda>d off. snd d (0x2000 + off)) demo_pic"
proof -
  have "gdt_laws (gdts demo_board)" by (simp add: gdt_laws_def demo_board_def Let_def nth_append)
  moreover have "idt_laws (idts demo_board)" by (auto simp: idt_laws_def demo_board_def)
  moreover have m: "mmio_of demo_board = demo_system" by (simp add: demo_board_def)
  moreover have "separate_laws demo_board \<lparr>lapic_ptr = 0x2000\<rparr> (\<lambda>d. demo_reg (fst d))"
    unfolding separate_laws_def m by (auto simp: demo_lapic_access demo_board_def demo_pics_def split: prod.splits)
  ultimately show ?thesis using demo_system_laws demo_masks by (simp add: board_laws_def)
qed

abbreviation demo_apic :: apic_info where
  "demo_apic \<equiv> \<lparr>local_apic_address = 0x2000, interrupt_source_overrides = [\<lparr>isa_source = 0, global_system_interrupt = 2\<rparr>],
     io_apics = [\<lparr>io_address = 0x1000, global_system_interrupt_base = 0\<rparr>]\<rparr>"

lemma demo_board_ok:
  "board_ok demo_board (virt_add demo_paging) 0 rsdp_addr \<lparr>lapic_ptr = 0x2000\<rparr> {0x1000} (\<lambda>d _. fst (fst d)) (\<lambda>d. demo_reg (fst d)) demo_apic (dev (mach demo_arch))"
proof -
  let ?info = "\<lparr>io_address = 0x1000, global_system_interrupt_base = 0\<rparr>" and ?mp = "phys_mapper_new 0"
  have p: "io_ptr ?mp ?info = 0x1000" "phys_to_virt ?mp 0x2000 = 0x2000" by (simp_all add: io_ptr_def phys_to_virt_def phys_mapper_new_def)
  have n: "redirections (\<lambda>d. demo_reg (fst d)) (dev (mach demo_arch)) 0x1000 = 24"
    by (simp add: redirections_def demo_reg_def IOAPICVER_def drop_bit_eq_div demo_arch_def demo_devices_def)
  have two: "\<exists>k<24. routes 2 0 k" by (intro exI [of _ 2]) (simp add: routes_def)
  have "virt_add demo_paging (double_fault_stack demo_board) STACK_SIZE = Some 0xA000" by (simp add: demo_paging_def demo_board_def STACK_SIZE_def)
  moreover have "from_rsdp (acpi demo_board) ?mp rsdp_addr = Some ()" "platform_info_new (acpi demo_board) () = Some demo_platform" by (simp_all add: demo_board_def)
  moreover have "apic_of demo_platform = Some demo_apic" "boot_processor demo_platform = Some 1" by (simp_all add: demo_platform_def)
  ultimately show ?thesis using two by (simp add: board_ok_def p n)
qed

lemma demo_arch_counted: "counted 0 (mach demo_arch) 0"
  by (simp add: counted_def demo_arch_def kernel_init_def MAX_NUM_CPUS_def)

text \<open>Printing several lines is printing their text.\<close>

lemma print_lines: "for_in ls (print_args ft font) (Some f) = map_option Some (write_str ft font (concat (concat ls)) f)"
  by (induction ls arbitrary: f) (auto simp: print_args_def for_in_write_str write_str_def for_in_append split: bind_splits)

lemma putchar_displays:
  assumes "font_ok ft font" "displays font t f" "cx < horiz_chars f" "cy < length (rows t)"
  shows "\<exists>f'. putchar ft font c cx cy fg bg f = Some f' \<and> displays font t f' \<and> horiz_chars f' = horiz_chars f"
proof -
  have d: "bytes_per_pixel f = 4" "grid_fits font (stride f) (horiz_chars f) (length (rows t)) (length (fb f))" using assms(2) by (simp_all add: displays_def)
  obtain bs where "putc ft font (fb f) 4 (stride f) (mapping f) c cx cy fg bg = Some bs" "length bs = length (fb f)"
    using putc_draws [OF assms(1) d(2) assms(3,4)] by blast
  then show ?thesis using d(1) assms(2) by (auto simp: putchar_def displays_def)
qed

lemma init_screen:
  assumes "font_ok ft font" "framebuffer_ok font b" "unicode_mapping ft font = Some mp"
  shows "\<exists>f f'. screen_new ft font b = Some f \<and> putchar ft font c 0 0 fg bg f = Some f' \<and> horiz_chars f' = fb_width b div unat (width font)
    \<and> displays font (term_new (fb_width b div unat (width font)) (fb_height b div unat (height font))) f'"
proof -
  let ?w = "fb_width b div unat (width font)" and ?h = "fb_height b div unat (height font)"
  obtain f where f: "screen_new ft font b = Some f" "horiz_chars f = ?w" "displays font (term_new ?w ?h) f" using screen_new_displays [OF assms] by blast
  have "0 < horiz_chars f" "0 < length (rows (term_new ?w ?h))" using f(3) by (simp_all add: displays_def)
  then show ?thesis using putchar_displays [OF assms(1) f(3), of 0 0] f by fastforce
qed

text \<open>
  What the loader has to hand over: every response, a memory map with 100 usable frames and a page table in which the pages of the heap
  are free, and a frame buffer of 32 bits per pixel.
\<close>

definition loader_ok :: "('x, 'p, 'e, 'k, 'm) paging_env \<Rightarrow> psf_header \<Rightarrow> ('p \<Rightarrow> u64) \<Rightarrow> ('m \<Rightarrow> 'p \<Rightarrow> bool) \<Rightarrow> 'k boot_info \<Rightarrow> u64 \<Rightarrow> usize \<Rightarrow> framebuffer \<Rightarrow> bool" where
  "loader_ok E font page_start free info offset rsdp b \<longleftrightarrow> base_revision_supported info \<and> hhdm_response info = Some offset \<and> rsdp_response info = Some rsdp
     \<and> (\<exists>bs. framebuffer_response info = Some (b # bs)) \<and> framebuffer_ok font b
     \<and> (\<exists>rs off table. virt_addr_new E offset = Some off \<and> memory_map_response info = Some rs \<and> memory_map (usable_type E) rs \<and> 100 \<le> length (usable_frames (usable_type E) rs)
          \<and> virt_add (paging_of E) off (cr3 E) = Some table
          \<and> (\<forall>p. unat HEAP_START \<le> unat (page_start p) \<and> unat (page_start p) < unat HEAP_START + unat HEAP_SIZE \<longrightarrow> free (offset_page_table E table off) p))"

lemma memory_init_starts:
  assumes "paging_laws (paging_of E) frame_start page_start" "loader_ok E font page_start free info offset rsdp b"
    "mapper_laws (allocate_frame (paging_of E) (usable_type E)) (avail_frames (paging_of E) (usable_type E)) (addrs_valid (paging_of E) (usable_type E)) mapped free (map_to_of E)"
  shows "\<exists>off rs m. virt_addr_new E offset = Some off \<and> memory_map_response info = Some rs
    \<and> memory_init (paging_of E) (usable_type E) (map_to_of E) (offset_page_table E) (cr3 E) off rs = Some (m, Some (HEAP_START, HEAP_SIZE))"
proof -
  obtain rs off table where o: "virt_addr_new E offset = Some off" "memory_map_response info = Some rs" "memory_map (usable_type E) rs"
    "100 \<le> length (usable_frames (usable_type E) rs)" "virt_add (paging_of E) off (cr3 E) = Some table"
    "\<forall>p. unat HEAP_START \<le> unat (page_start p) \<and> unat (page_start p) < unat HEAP_START + unat HEAP_SIZE \<longrightarrow> free (offset_page_table E table off) p"
    using assms(2) unfolding loader_ok_def by blast
  from heap_mapped [where opt = "offset_page_table E", OF assms(1) o(3) assms(3) o(5,6)] obtain r m h where
    "memory_init (paging_of E) (usable_type E) (map_to_of E) (offset_page_table E) (cr3 E) off rs = (if isl r then None else Some (m, h))"
    "\<not> isl r \<longrightarrow> h = Some (HEAP_START, HEAP_SIZE)" "r = Inr ()" using o(4) by auto
  then show ?thesis using o(1,2) by simp
qed

text \<open>
  C18: the kernel starts. Given the responses of the loader, a memory map with 100 usable frames, a frame buffer of 32 bits per pixel and a
  board with an APIC and a timer, \<open>kernel_start\<close> reaches the executor without a panic: the allocator has the heap, the page table is
  kept, the console shows what a terminal shows after the two lines of the banner (the letter that \<open>init\<close> draws is gone), and the processor and the interrupt
  controllers are ready (\<open>arch_ready\<close>). Of the sources of interrupts, every entry of the I/O APICs is masked or has the vector of the timer's handler, the timer of the
  local APIC has that vector, both LINT entries are masked, both old controllers are masked and their vectors (32 and 40) are out of the way of the exceptions; a double fault
  has its own stack. The table has handlers for the vectors 3, 8, 14, 32 and 33 and no other, so none for the spurious interrupts that \<open>init_lapic\<close> enables through
  register 0xF0 with the vector that it finds there. Without one of the responses, or when a logger was already set, \<open>kernel_start\<close> panics.
\<close>

theorem kernel_starts:
  fixes info :: "'k boot_info"
  assumes "paging_laws (paging_of E) frame_start page_start" "loader_ok E font page_start free info offset rsdp b"
    "mapper_laws (allocate_frame (paging_of E) (usable_type E)) (avail_frames (paging_of E) (usable_type E)) (addrs_valid (paging_of E) (usable_type E)) mapped free (map_to_of E)"
    "font_ok ft font" "unicode_mapping ft font = Some mp"
    "board_laws B l num P sel reg lreg pic" "board_ok B (virt_add (paging_of E)) offset (rsdp - offset) l P sel reg apic (dev (mach (arch s)))"
    "timer_runs ints" "counted num (mach (arch s)) n"
  shows "(\<not> logger_set s \<longrightarrow> (\<exists>s' f. kernel_start E B ft font ints pkg_version info s = Some s' \<and> heap s' = Some (HEAP_START, HEAP_SIZE) \<and> page_table s' \<noteq> None
        \<and> FBMAN s' = Some f \<and> screen_shows ft font f
        \<and> (let w = fb_width b div unat (width font) in displays font (fold (term_put w) (concat (concat (banner pkg_version))) (term_new w (fb_height b div unat (height font)))) f)
        \<and> arch_ready B (virt_add (paging_of E)) offset l reg lreg pic apic (dev (mach (arch s))) (arch s')))
    \<and> (logger_set s \<longrightarrow> kernel_start E B ft font ints pkg_version info s = None)
    \<and> (\<forall>info' :: 'k boot_info. \<not> base_revision_supported info' \<or> hhdm_response info' = None \<or> memory_map_response info' = None \<or> framebuffer_response info' \<in> {None, Some []} \<or> rsdp_response info' = None
         \<longrightarrow> kernel_start E B ft font ints pkg_version info' s = None)"
proof (intro conjI impI allI)
  let ?w = "fb_width b div unat (width font)" and ?h = "fb_height b div unat (height font)" and ?text = "concat (concat (banner pkg_version))"
  have ld: "base_revision_supported info" "hhdm_response info = Some offset" "rsdp_response info = Some rsdp" "framebuffer_ok font b" and fbs: "\<exists>bs. framebuffer_response info = Some (b # bs)"
    using assms(2) unfolding loader_ok_def by blast+
  obtain bs where bs: "framebuffer_response info = Some (b # bs)" using fbs by blast
  obtain off rs m where m: "virt_addr_new E offset = Some off" "memory_map_response info = Some rs"
    "memory_init (paging_of E) (usable_type E) (map_to_of E) (offset_page_table E) (cr3 E) off rs = Some (m, Some (HEAP_START, HEAP_SIZE))"
    using memory_init_starts [OF assms(1-3)] by blast
  show "kernel_start E B ft font ints pkg_version info s = None" if "logger_set s"
    using that by (simp add: kernel_start_def init_def ld m)
  assume nl: "\<not> logger_set s"
  obtain f f1 where f: "screen_new ft font b = Some f" "putchar ft font 70 0 0 0xFFFFFF 0 f = Some f1" "horiz_chars f1 = ?w" "displays font (term_new ?w ?h) f1"
    using init_screen [OF assms(4) ld(4) assms(5)] by blast
  obtain a where a: "arch_init B (virt_add (paging_of E)) ints offset (rsdp - offset) (arch s) = Some a" "arch_ready B (virt_add (paging_of E)) offset l reg lreg pic apic (dev (mach (arch s))) a"
    using arch_init_loads [OF assms(6-9)] by blast
  have "10 \<in> set ?text" by (simp add: banner_def)
  then obtain f2 where f2: "write_str ft font ?text f1 = Some f2" "displays font (fold (term_put ?w) ?text (term_new ?w ?h)) f2" "screen_shows ft font f2"
    using write_str_displays [OF assms(4) f(4), of ?text] f(3) by auto
  have "kernel_start E B ft font ints pkg_version info s = Some (s\<lparr>page_table := Some m, heap := Some (HEAP_START, HEAP_SIZE), logger_set := True, FBMAN := Some f2, arch := a\<rparr>)"
    by (simp add: kernel_start_def init_def ld m nl bs f(1,2) insert_fbman_def a(1) print_lines f2(1))
  then show "\<exists>s' f. kernel_start E B ft font ints pkg_version info s = Some s' \<and> heap s' = Some (HEAP_START, HEAP_SIZE) \<and> page_table s' \<noteq> None
      \<and> FBMAN s' = Some f \<and> screen_shows ft font f
      \<and> (let w = fb_width b div unat (width font) in displays font (fold (term_put w) ?text (term_new w ?h)) f)
      \<and> arch_ready B (virt_add (paging_of E)) offset l reg lreg pic apic (dev (mach (arch s))) (arch s')"
    using f2 a(2) by (simp add: Let_def)
next
  fix info' :: "'k boot_info"
  assume "\<not> base_revision_supported info' \<or> hhdm_response info' = None \<or> memory_map_response info' = None \<or> framebuffer_response info' \<in> {None, Some []} \<or> rsdp_response info' = None"
  then show "kernel_start E B ft font ints pkg_version info' s = None"
    by (auto simp: kernel_start_def init_def split: bind_splits prod.splits)
qed

definition demo_env :: "(u64, u64, nat, bool, u64 \<rightharpoonup> u64 \<times> flag set) paging_env" where
  "demo_env = \<lparr>paging_of = demo_paging, usable_type = True, map_to_of = demo_map_to, offset_page_table = (\<lambda>_ _. Map.empty), cr3 = 4096, virt_addr_new = Some\<rparr>"

definition demo_info :: "bool boot_info" where
  "demo_info = \<lparr>base_revision_supported = True, hhdm_response = Some 0, memory_map_response = Some demo_regions, framebuffer_response = Some [demo_fb], rsdp_response = Some 0\<rparr>"

lemma demo_loader: "loader_ok demo_env demo_font id (\<lambda>m p. m p = None) demo_info 0 0 demo_fb"
  using demo_laws(2,3) demo_ok(2) by (simp add: loader_ok_def demo_env_def demo_info_def) (simp add: demo_paging_def)

theorem kernel_starts_witness:
  "\<exists>s' f. kernel_start demo_env demo_board demo_ft demo_font (\<lambda>_. 1) [48] demo_info \<lparr>page_table = None, heap = None, logger_set = False, FBMAN = None, arch = demo_arch\<rparr> = Some s'
    \<and> heap s' = Some (HEAP_START, HEAP_SIZE) \<and> FBMAN s' = Some f \<and> chars f = [32, 32] \<and> if_flag (mach (arch s')) \<and> demo_pic (dev (mach (arch s'))) = (True, 32, 40)"
proof -
  let ?s = "\<lparr>page_table = None, heap = None, logger_set = False, FBMAN = None, arch = demo_arch\<rparr>"
  have E: "paging_of demo_env = demo_paging" "usable_type demo_env = True" "map_to_of demo_env = demo_map_to" by (simp_all add: demo_env_def)
  have n: "fb_width demo_fb div unat (width demo_font) = 2" "fb_height demo_fb div unat (height demo_font) = 1"
    by (simp_all add: demo_fb_def demo_font_def)
  have t: "fold (term_put 2) (concat (concat (banner [48]))) (term_new 2 1) = \<lparr>rows = [[32, 32]], col = 0\<rparr>"
    by (simp add: term_put_def term_newline_def term_new_def banner_def numeral_2_eq_2)
  have b: "board_ok demo_board (virt_add demo_paging) 0 (0 - 0) \<lparr>lapic_ptr = 0x2000\<rparr> {0x1000} (\<lambda>d _. fst (fst d)) (\<lambda>d. demo_reg (fst d)) demo_apic (dev (mach (arch ?s)))"
    using demo_board_ok [of 0] by simp
  have c: "counted 0 (mach (arch ?s)) 0" using demo_arch_counted by simp
  have l: "\<not> logger_set ?s" by simp
  from kernel_starts [of demo_env, unfolded E, OF demo_laws(1) demo_loader demo_mapper demo_ok(1,3) demo_board_laws b demo_runs c, THEN conjunct1, rule_format, OF l, of "[48]"]
  show ?thesis unfolding n Let_def t by (auto simp: displays_def arch_ready_def)
qed

end
