(* ===== verification/Lock.thy ===== *)
theory Lock
  imports Prelude
begin

text \<open>
  The asynchronous mutex (\<^verbatim>\<open>task/lock.rs\<close>) as a state machine: any number of agents (tasks of the
  executor, or plain code that spins) share one mutex, and each step below is one atomic access
  of one agent, so that a run is an arbitrary interleaving.

  \<^verbatim>\<open>AtomicWaker\<close> is code of the \<^verbatim>\<open>futures_util\<close> crate: its operations are a parameter \<open>ops\<close>, and
  \<open>waker_laws\<close> is what its documentation promises.
\<close>

section \<open>The waker cell\<close>

type_synonym agent = nat

record 'w waker_ops =
  waker_new :: 'w
  waker_register :: "agent \<Rightarrow> 'w \<Rightarrow> 'w"
  waker_take :: "'w \<Rightarrow> agent option \<times> 'w"

text \<open>
  \<^verbatim>\<open>wake\<close> calls the waker passed to the last \<^verbatim>\<open>register\<close> and forgets it; it does nothing when
  there has been no registration since the last \<^verbatim>\<open>wake\<close>.
\<close>

definition registered :: "'w waker_ops \<Rightarrow> 'w \<Rightarrow> agent option" where
  "registered ops w = fst (waker_take ops w)"

definition waker_laws :: "'w waker_ops \<Rightarrow> bool" where
  "waker_laws ops \<longleftrightarrow> registered ops (waker_new ops) = None \<and>
     (\<forall>t w. registered ops (waker_register ops t w) = Some t) \<and>
     (\<forall>w. registered ops (snd (waker_take ops w)) = None)"

section \<open>The mutex and its guards\<close>

record ('a, 'w) mutex =
  mdata :: 'a
  locked :: bool
  waker :: 'w

text \<open>
  A \<^verbatim>\<open>MutexGuard\<close> carries the waker that its destructor calls: the mutex's own for a guard that a
  \<^verbatim>\<open>MutexLockFuture\<close> returned, the static \<^verbatim>\<open>NEW_WAKER\<close> for those of \<open>lock_or_spin\<close> and \<open>try_lock\<close>.
\<close>

datatype guard = OwnWaker | NewWaker

text \<open>
  Where an agent is: outside (\<open>Idle\<close>); in \<open>poll\<close>, after the first failed check (\<open>PollRegister\<close>)
  or after the registration (\<open>PollRecheck\<close>); after a poll that returned \<^verbatim>\<open>Pending\<close> (\<open>Waiting\<close>);
  in the loop of \<open>lock_or_spin\<close>; owner of a guard; in the destructor of a guard after its first
  statement.
\<close>

datatype pc = Idle | PollRegister | PollRecheck | Waiting | Spinning | Holding guard | Dropping guard

record ('a, 'w) lock_state =
  mutex :: "('a, 'w) mutex"
  new_waker :: 'w
  pcs :: "agent \<Rightarrow> pc"
  woken :: "agent list"

definition mutex_new :: "'w waker_ops \<Rightarrow> 'a \<Rightarrow> ('a, 'w) mutex" where
  "mutex_new ops v = \<lparr>mdata = v, locked = False, waker = waker_new ops\<rparr>"

definition lock_init :: "'w waker_ops \<Rightarrow> 'a \<Rightarrow> ('a, 'w) lock_state" where
  "lock_init ops v = \<lparr>mutex = mutex_new ops v, new_waker = waker_new ops, pcs = (\<lambda>_. Idle), woken = []\<rparr>"

text \<open>\<open>check\<close>: a \<^verbatim>\<open>compare_exchange(false, true)\<close> on the flag; \<open>Inr\<close> on success.\<close>

definition check :: "('a, 'w) mutex \<Rightarrow> (bool + bool) \<times> ('a, 'w) mutex" where
  "check m = (if locked m then (Inl True, m) else (Inr False, m\<lparr>locked := True\<rparr>))"

text \<open>One attempt of an agent: on success it goes to \<open>ok\<close>, on failure to \<open>err\<close>.\<close>

definition attempt :: "agent \<Rightarrow> pc \<Rightarrow> pc \<Rightarrow> ('a, 'w) lock_state \<Rightarrow> ('a, 'w) lock_state" where
  "attempt t ok err s =
     (case check (mutex s) of
        (Inr _, m) \<Rightarrow> s\<lparr>mutex := m, pcs := (pcs s)(t := ok)\<rparr>
      | (Inl _, m) \<Rightarrow> s\<lparr>mutex := m, pcs := (pcs s)(t := err)\<rparr>)"

section \<open>Steps\<close>

text \<open>
  The atomic steps: \<open>Poll\<close> is the fast path of \<open>poll\<close>, \<open>Register\<close> and \<open>Recheck\<close> its slow path;
  \<open>Spin\<close> is one round of \<open>lock_or_spin\<close>; \<open>Access\<close> is a use of the guard through \<^verbatim>\<open>Deref\<close> and
  \<^verbatim>\<open>DerefMut\<close>; \<open>Unlock\<close> and \<open>Wake\<close> are the two statements of the guard's destructor.
\<close>

datatype 'a action = Poll agent | Register agent | Recheck agent | Spin agent | TryLock agent
  | Access agent "'a \<Rightarrow> 'a" | Unlock agent | Wake agent

fun poll_step :: "agent \<Rightarrow> ('a, 'w) lock_state \<Rightarrow> ('a, 'w) lock_state option" where
  "poll_step t s = (if pcs s t = Idle \<or> pcs s t = Waiting then Some (attempt t (Holding OwnWaker) PollRegister s) else None)"

fun register_step :: "'w waker_ops \<Rightarrow> agent \<Rightarrow> ('a, 'w) lock_state \<Rightarrow> ('a, 'w) lock_state option" where
  "register_step ops t s =
     (if pcs s t = PollRegister
      then Some (s\<lparr>mutex := (mutex s)\<lparr>waker := waker_register ops t (waker (mutex s))\<rparr>, pcs := (pcs s)(t := PollRecheck)\<rparr>)
      else None)"

fun recheck_step :: "agent \<Rightarrow> ('a, 'w) lock_state \<Rightarrow> ('a, 'w) lock_state option" where
  "recheck_step t s = (if pcs s t = PollRecheck then Some (attempt t (Holding OwnWaker) Waiting s) else None)"

fun spin_step :: "agent \<Rightarrow> ('a, 'w) lock_state \<Rightarrow> ('a, 'w) lock_state option" where
  "spin_step t s = (if pcs s t = Idle \<or> pcs s t = Spinning then Some (attempt t (Holding NewWaker) Spinning s) else None)"

fun try_lock_step :: "agent \<Rightarrow> ('a, 'w) lock_state \<Rightarrow> ('a, 'w) lock_state option" where
  "try_lock_step t s = (if pcs s t = Idle then Some (attempt t (Holding NewWaker) Idle s) else None)"

fun access_step :: "agent \<Rightarrow> ('a \<Rightarrow> 'a) \<Rightarrow> ('a, 'w) lock_state \<Rightarrow> ('a, 'w) lock_state option" where
  "access_step t f s =
     (case pcs s t of Holding g \<Rightarrow> Some (s\<lparr>mutex := (mutex s)\<lparr>mdata := f (mdata (mutex s))\<rparr>\<rparr>) | _ \<Rightarrow> None)"

fun unlock_step :: "agent \<Rightarrow> ('a, 'w) lock_state \<Rightarrow> ('a, 'w) lock_state option" where
  "unlock_step t s =
     (case pcs s t of
        Holding g \<Rightarrow> Some (s\<lparr>mutex := (mutex s)\<lparr>locked := False\<rparr>, pcs := (pcs s)(t := Dropping g)\<rparr>)
      | _ \<Rightarrow> None)"

fun wake_step :: "'w waker_ops \<Rightarrow> agent \<Rightarrow> ('a, 'w) lock_state \<Rightarrow> ('a, 'w) lock_state option" where
  "wake_step ops t s =
     (case pcs s t of
        Dropping OwnWaker \<Rightarrow>
          (let (k, w) = waker_take ops (waker (mutex s))
           in Some (s\<lparr>mutex := (mutex s)\<lparr>waker := w\<rparr>, pcs := (pcs s)(t := Idle), woken := woken s @ (case k of None \<Rightarrow> [] | Some u \<Rightarrow> [u])\<rparr>))
      | Dropping NewWaker \<Rightarrow>
          (let (k, w) = waker_take ops (new_waker s)
           in Some (s\<lparr>new_waker := w, pcs := (pcs s)(t := Idle), woken := woken s @ (case k of None \<Rightarrow> [] | Some u \<Rightarrow> [u])\<rparr>))
      | _ \<Rightarrow> None)"

fun lock_step :: "'w waker_ops \<Rightarrow> 'a action \<Rightarrow> ('a, 'w) lock_state \<Rightarrow> ('a, 'w) lock_state option" where
  "lock_step ops (Poll t) s = poll_step t s"
| "lock_step ops (Register t) s = register_step ops t s"
| "lock_step ops (Recheck t) s = recheck_step t s"
| "lock_step ops (Spin t) s = spin_step t s"
| "lock_step ops (TryLock t) s = try_lock_step t s"
| "lock_step ops (Access t f) s = access_step t f s"
| "lock_step ops (Unlock t) s = unlock_step t s"
| "lock_step ops (Wake t) s = wake_step ops t s"

text \<open>The states reached by actions that satisfy \<open>A\<close>, from a new mutex around \<open>v\<close>.\<close>

inductive reached :: "'w waker_ops \<Rightarrow> ('a action \<Rightarrow> bool) \<Rightarrow> 'a \<Rightarrow> ('a, 'w) lock_state \<Rightarrow> bool"
  for ops A v where
  start: "reached ops A v (lock_init ops v)"
| more: "\<lbrakk>reached ops A v s; A a; lock_step ops a s = Some s'\<rbrakk> \<Longrightarrow> reached ops A v s'"

inductive_cases reached_more: "reached ops A v s"

text \<open>A run of actions, for concrete traces.\<close>

lemma reached_run:
  assumes "reached ops A v s" "for_in as (lock_step ops) s = Some s'" "list_all A as"
  shows "reached ops A v s'"
  using assms
  by (induction as arbitrary: s) (auto split: bind_splits intro: more)

section \<open>Invariant\<close>

definition holding :: "('a, 'w) lock_state \<Rightarrow> agent \<Rightarrow> bool" where
  "holding s t \<longleftrightarrow> (\<exists>g. pcs s t = Holding g)"

text \<open>The flag is set exactly while one agent owns a guard.\<close>

definition lock_inv :: "('a, 'w) lock_state \<Rightarrow> bool" where
  "lock_inv s \<longleftrightarrow> (if locked (mutex s) then \<exists>!t. holding s t else \<forall>t. \<not> holding s t)"

lemma attempt_cases:
  obtains (ok) "\<not> locked (mutex s)" "attempt t ok err s = s\<lparr>mutex := (mutex s)\<lparr>locked := True\<rparr>, pcs := (pcs s)(t := ok)\<rparr>"
  | (err) "locked (mutex s)" "attempt t ok err s = s\<lparr>pcs := (pcs s)(t := err)\<rparr>"
  by (cases "locked (mutex s)") (auto simp: attempt_def check_def)

lemma attempt_locked [simp]: "locked (mutex (attempt t ok err s))"
  by (cases rule: attempt_cases [of s t ok err]) simp_all

lemma lock_inv_attempt:
  assumes "lock_inv s" "\<not> holding s t" "\<nexists>g. err = Holding g"
  shows "lock_inv (attempt t (Holding g) err s)"
  using assms by (cases rule: attempt_cases [of s t "Holding g" err]) (auto simp: lock_inv_def holding_def Ex1_def)

lemma lock_inv_cong:
  assumes "lock_inv s" "locked (mutex s') = locked (mutex s)" "holding s' = holding s"
  shows "lock_inv s'"
  using assms by (simp add: lock_inv_def)

lemma lock_inv_step:
  assumes "lock_inv s" "lock_step ops a s = Some s'"
  shows "lock_inv s'"
proof (cases a)
  case (Unlock t)
  then show ?thesis using assms by (auto simp: lock_inv_def holding_def split: pc.splits if_splits)
next
  case (Wake t)
  then show ?thesis using assms(2)
    by (intro lock_inv_cong [OF assms(1)] ext)
      (auto simp: holding_def Let_def split: pc.splits guard.splits if_splits prod.splits)
next
  case (Access t f)
  then show ?thesis using assms(2)
    by (intro lock_inv_cong [OF assms(1)] ext) (auto simp: holding_def split: pc.splits)
next
  case (Register t)
  then show ?thesis using assms(2)
    by (intro lock_inv_cong [OF assms(1)] ext) (auto simp: holding_def split: if_splits)
qed (use assms in \<open>auto intro!: lock_inv_attempt simp: holding_def split: if_splits\<close>)

lemma lock_inv_reached: "reached ops A v s \<Longrightarrow> lock_inv s"
proof (induction rule: reached.induct)
  case start
  show ?case by (simp add: lock_init_def mutex_new_def lock_inv_def holding_def)
qed (rule lock_inv_step)

section \<open>Wake-ups\<close>

text \<open>Only \<open>lock().await\<close> and its guards: no \<open>lock_or_spin\<close>, no \<open>try_lock\<close>.\<close>

fun by_future :: "'a action \<Rightarrow> bool" where
  "by_future (Spin t) = False"
| "by_future (TryLock t) = False"
| "by_future _ = True"

definition own_guards :: "('a, 'w) lock_state \<Rightarrow> bool" where
  "own_guards s \<longleftrightarrow> (\<forall>t. pcs s t \<noteq> Holding NewWaker \<and> pcs s t \<noteq> Dropping NewWaker)"

text \<open>
  The task whose waker is registered is not forgotten: while it waits, some agent still owns a
  guard, or is about to wake it.
\<close>

definition wake_inv :: "'w waker_ops \<Rightarrow> ('a, 'w) lock_state \<Rightarrow> bool" where
  "wake_inv ops s \<longleftrightarrow> (\<forall>t. registered ops (waker (mutex s)) = Some t \<longrightarrow> pcs s t = Waiting \<longrightarrow>
     locked (mutex s) \<or> (\<exists>u. pcs s u = Dropping OwnWaker))"

lemma own_guards_step:
  assumes "own_guards s" "lock_step ops a s = Some s'" "by_future a"
  shows "own_guards s'"
  using assms
  by (cases a) (auto simp: own_guards_def attempt_def check_def Let_def split: pc.splits if_splits guard.splits prod.splits)

lemma wake_inv_step:
  assumes "wake_inv ops s" "own_guards s" "waker_laws ops" "lock_step ops a s = Some s'" "by_future a"
  shows "wake_inv ops s'"
proof (cases a)
  case (Wake t)
  then have "pcs s t = Dropping OwnWaker" using assms(2,4) by (auto simp: own_guards_def split: pc.splits guard.splits)
  with Wake assms(3,4) show ?thesis
    by (auto simp: wake_inv_def waker_laws_def Let_def split: prod.splits) (metis snd_conv option.distinct(1))
next
  case (Unlock t)
  then show ?thesis using assms(2,4) by (auto simp: wake_inv_def own_guards_def split: pc.splits) (metis guard.exhaust)
next
  case (Register t)
  then show ?thesis using assms(3,4) by (auto simp: wake_inv_def waker_laws_def split: if_splits)
next
  case (Access t f)
  then show ?thesis using assms(1,4) by (auto simp: wake_inv_def split: pc.splits)
qed (use assms in \<open>auto simp: wake_inv_def split: if_splits\<close>)

lemma wake_inv_reached:
  assumes "reached ops by_future v s" "waker_laws ops"
  shows "wake_inv ops s \<and> own_guards s"
  using assms(1)
proof (induction rule: reached.induct)
  case start
  show ?case using assms(2) by (simp add: wake_inv_def own_guards_def lock_init_def mutex_new_def waker_laws_def)
qed (use assms(2) wake_inv_step own_guards_step in blast)

section \<open>Properties\<close>

text \<open>
  C10: mutual exclusion. Whatever mixture of \<open>lock\<close>, \<open>lock_or_spin\<close> and \<open>try_lock\<close> any
  number of agents use and however their atomic steps interleave, at most one of them owns a
  guard at a time, and the flag \<open>locked\<close> is set exactly while one does.
\<close>

theorem mutex_exclusion:
  assumes "reached ops A v s"
  shows "(\<forall>t u. holding s t \<longrightarrow> holding s u \<longrightarrow> t = u) \<and> (locked (mutex s) \<longleftrightarrow> (\<exists>t. holding s t))"
  using lock_inv_reached [OF assms] by (auto simp: lock_inv_def split: if_splits)

text \<open>A waker cell as an optional agent, for concrete runs.\<close>

definition cell_ops :: "agent option waker_ops" where
  "cell_ops = \<lparr>waker_new = None, waker_register = (\<lambda>t _. Some t), waker_take = (\<lambda>w. (w, None))\<rparr>"

lemma cell_laws: "waker_laws cell_ops"
  by (simp add: waker_laws_def registered_def cell_ops_def)

lemmas run_simps = lock_init_def mutex_new_def cell_ops_def attempt_def check_def registered_def holding_def

theorem mutex_exclusion_witness:
  "\<exists>s :: (nat, agent option) lock_state. for_in [Poll 0, Spin 1, Access 0 Suc] (lock_step cell_ops) (lock_init cell_ops 7) = Some s
    \<and> mdata (mutex s) = 8 \<and> (\<forall>t u. holding s t \<longrightarrow> holding s u \<longrightarrow> t = u) \<and> (locked (mutex s) \<longleftrightarrow> (\<exists>t. holding s t))"
proof -
  obtain s where s: "for_in [Poll 0, Spin 1, Access 0 Suc] (lock_step cell_ops) (lock_init cell_ops 7) = Some s" "mdata (mutex s) = 8"
    by (simp add: run_simps)
  have "reached cell_ops (\<lambda>_. True) 7 s" using reached_run [OF reached.start s(1)] by simp
  from mutex_exclusion [OF this] s show ?thesis by blast
qed

text \<open>
  C16: no lost wake-up among users of \<open>lock().await\<close>. In every reachable state, if the waker
  registered last belongs to a task whose poll returned \<^verbatim>\<open>Pending\<close>, then some agent owns a guard, and
  releasing it leads to the destructor's second statement, or some agent is at that statement;
  and executing it wakes that task.
\<close>

theorem lock_future_woken:
  assumes "waker_laws ops" "reached ops by_future v s" "registered ops (waker (mutex s)) = Some t" "pcs s t = Waiting"
  shows "\<exists>u. (pcs s u = Holding OwnWaker \<and> (\<exists>s'. lock_step ops (Unlock u) s = Some s' \<and> pcs s' u = Dropping OwnWaker
        \<and> registered ops (waker (mutex s')) = Some t \<and> pcs s' t = Waiting))
    \<or> (pcs s u = Dropping OwnWaker \<and> (\<exists>s'. lock_step ops (Wake u) s = Some s' \<and> woken s' = woken s @ [t]))"
proof -
  have i: "wake_inv ops s" "own_guards s" using wake_inv_reached [OF assms(2,1)] by simp_all
  then consider "locked (mutex s)" | u where "pcs s u = Dropping OwnWaker"
    using assms(3,4) by (auto simp: wake_inv_def)
  then show ?thesis
  proof cases
    case 1
    then obtain u g where "pcs s u = Holding g" using lock_inv_reached [OF assms(2)] by (auto simp: lock_inv_def holding_def)
    moreover from this have "g = OwnWaker" "u \<noteq> t" using i(2) assms(4) by (auto simp: own_guards_def) (metis guard.exhaust)
    ultimately show ?thesis using assms(3,4) by (intro exI [of _ u]) auto
  next
    case 2
    then show ?thesis using assms(3) by (intro exI [of _ u]) (auto simp: registered_def Let_def split: prod.splits)
  qed
qed

theorem lock_future_woken_witness:
  "\<exists>s :: (nat, agent option) lock_state. for_in [Poll 0, Poll 1, Register 1, Recheck 1] (lock_step cell_ops) (lock_init cell_ops 7) = Some s
    \<and> pcs s 1 = Waiting \<and> (\<exists>u. (pcs s u = Holding OwnWaker \<and> (\<exists>s'. lock_step cell_ops (Unlock u) s = Some s' \<and> pcs s' u = Dropping OwnWaker
        \<and> registered cell_ops (waker (mutex s')) = Some 1 \<and> pcs s' 1 = Waiting))
    \<or> (pcs s u = Dropping OwnWaker \<and> (\<exists>s'. lock_step cell_ops (Wake u) s = Some s' \<and> woken s' = woken s @ [1])))"
proof -
  obtain s where s: "for_in [Poll 0, Poll 1, Register 1, Recheck 1] (lock_step cell_ops) (lock_init cell_ops (7 :: nat)) = Some s"
    "pcs s 1 = Waiting" "registered cell_ops (waker (mutex s)) = Some 1" by (simp add: run_simps)
  have "reached cell_ops by_future 7 s" using reached_run [OF reached.start s(1)] by simp
  from lock_future_woken [OF cell_laws this s(3,2)] s(1,2) show ?thesis by blast
qed

definition spin_trace :: "'a action list" where
  "spin_trace = [Spin 0, Poll 1, Register 1, Recheck 1, Unlock 0, Wake 0]"

text \<open>
  C23: a guard of \<open>lock_or_spin\<close> loses wake-ups, because its destructor wakes \<^verbatim>\<open>NEW_WAKER\<close> and
  not the mutex's waker: a state is reachable in which a task waits with its waker registered, the
  mutex is free, every other agent is outside the mutex, and no wake-up was ever sent.
\<close>

theorem lock_or_spin_loses_wakeup:
  assumes "waker_laws ops"
  shows "\<exists>s. reached ops (\<lambda>_. True) v s \<and> pcs s 1 = Waiting \<and> registered ops (waker (mutex s)) = Some 1
    \<and> \<not> locked (mutex s) \<and> (\<forall>u. u \<noteq> 1 \<longrightarrow> pcs s u = Idle) \<and> woken s = []"
proof -
  obtain w where n: "waker_take ops (waker_new ops) = (None, w)"
    using assms by (cases "waker_take ops (waker_new ops)") (simp add: waker_laws_def registered_def)
  obtain s where s: "for_in spin_trace (lock_step ops) (lock_init ops v) = Some s" "pcs s 1 = Waiting"
    "registered ops (waker (mutex s)) = Some 1" "\<not> locked (mutex s)" "\<forall>u. u \<noteq> 1 \<longrightarrow> pcs s u = Idle" "woken s = []"
    using assms by (simp add: spin_trace_def lock_init_def mutex_new_def attempt_def check_def waker_laws_def n)
  with reached_run [OF reached.start s(1), of "\<lambda>_. True"] show ?thesis by (auto simp: list_all_iff)
qed

theorem lock_or_spin_loses_wakeup_witness:
  "\<exists>s. reached cell_ops (\<lambda>_. True) (7 :: nat) s \<and> pcs s 1 = Waiting \<and> registered cell_ops (waker (mutex s)) = Some 1
    \<and> \<not> locked (mutex s) \<and> (\<forall>u. u \<noteq> 1 \<longrightarrow> pcs s u = Idle) \<and> woken s = []"
  by (rule lock_or_spin_loses_wakeup [OF cell_laws])

definition two_waiters_trace :: "'a action list" where
  "two_waiters_trace = [Poll 0, Poll 1, Register 1, Recheck 1, Poll 2, Register 2, Recheck 2, Unlock 0, Wake 0,
     Poll 2, Unlock 2, Wake 2]"

text \<open>
  C24: two tasks that wait for the same guard: the mutex has room for one waker, so the first
  task's registration is overwritten. Even if only \<open>lock().await\<close> is used, a state is
  reachable in which the second task was woken, took and released the mutex, and the first
  task still waits although the mutex is free and nobody is going to wake it.
\<close>

theorem second_waiter_forgets_first:
  assumes "waker_laws ops"
  shows "\<exists>s. reached ops by_future v s \<and> pcs s 1 = Waiting \<and> registered ops (waker (mutex s)) = None
    \<and> \<not> locked (mutex s) \<and> (\<forall>u. u \<noteq> 1 \<longrightarrow> pcs s u = Idle) \<and> woken s = [2]"
proof -
  let ?w = "waker_register ops 2 (waker_register ops (Suc 0) (waker_new ops))"
  obtain w1 where w1: "waker_take ops ?w = (Some 2, w1)"
    using assms by (cases "waker_take ops ?w") (simp add: waker_laws_def registered_def, metis fst_conv)
  obtain w2 where w2: "waker_take ops w1 = (None, w2)" and n: "registered ops w2 = None"
    using assms w1 by (cases "waker_take ops w1") (simp add: waker_laws_def registered_def, metis fst_conv snd_conv)
  obtain s where s: "for_in two_waiters_trace (lock_step ops) (lock_init ops v) = Some s" "pcs s 1 = Waiting"
    "registered ops (waker (mutex s)) = None" "\<not> locked (mutex s)" "\<forall>u. u \<noteq> 1 \<longrightarrow> pcs s u = Idle" "woken s = [2]"
    by (simp add: two_waiters_trace_def lock_init_def mutex_new_def attempt_def check_def w1 w2 n)
  have "list_all by_future two_waiters_trace" by (simp add: two_waiters_trace_def)
  from reached_run [OF reached.start s(1) this] s show ?thesis by blast
qed

theorem second_waiter_forgets_first_witness:
  "\<exists>s. reached cell_ops by_future (7 :: nat) s \<and> pcs s 1 = Waiting \<and> registered cell_ops (waker (mutex s)) = None
    \<and> \<not> locked (mutex s) \<and> (\<forall>u. u \<noteq> 1 \<longrightarrow> pcs s u = Idle) \<and> woken s = [2]"
  by (rule second_waiter_forgets_first [OF cell_laws])

end
