(* ===== verification/Serial.thy ===== *)
theory Serial
  imports Lock "HOL-Library.Sublist"
begin

text \<open>
  Printing to the serial port (\<^verbatim>\<open>serial.rs\<close>): \<open>_print\<close> formats a message into the port behind the mutex \<^verbatim>\<open>SERIAL1\<close>, which the first caller
  initialises. Any number of contexts (cores, or an interrupted one and its handler) print; each step is one atomic access.

  The port is a value of the \<^verbatim>\<open>uart_16550\<close> crate: its \<^verbatim>\<open>init\<close> and \<^verbatim>\<open>write_str\<close> are parameters. \<^verbatim>\<open>write_fmt\<close> of the standard library writes
  the pieces of a message one after the other and stops at the first error.
\<close>

section \<open>State\<close>

record 'p uart_ops =
  uart_init :: "'p \<Rightarrow> 'p"
  uart_write_str :: "string \<Rightarrow> 'p \<Rightarrow> bool \<times> 'p"

text \<open>
  Where a context is in \<open>_print\<close>: in \<open>lock_or_spin\<close>, as the one that initialises or not; before the initialisation; with some pieces still
  to write; in the destructor of the guard; or in the panic of \<^verbatim>\<open>expect\<close>, which does not run the destructor.
\<close>

datatype serial_pc = Outside | Locking bool "string list" | Initialising "string list" | Writing bool "string list" "string list"
  | Releasing | Panicked bool "string list" "string list"

record ('p, 'w) serial_state =
  INIT :: bool
  SERIAL1 :: "('p, 'w) lock_state"
  printing :: "agent \<Rightarrow> serial_pc"
  finished :: "(bool \<times> string list) list"

definition serial_start :: "'w waker_ops \<Rightarrow> 'p \<Rightarrow> ('p, 'w) serial_state" where
  "serial_start ops p = \<lparr>INIT = False, SERIAL1 = lock_init ops p, printing = (\<lambda>_. Outside), finished = []\<rparr>"

section \<open>Steps\<close>

text \<open>A call of \<open>_print\<close> with the pieces of its message, up to the swap of \<^verbatim>\<open>INIT\<close>.\<close>

definition print_call :: "agent \<Rightarrow> string list \<Rightarrow> ('p, 'w) serial_state \<Rightarrow> ('p, 'w) serial_state option" where
  "print_call t args s =
     (if printing s t = Outside then Some (s\<lparr>INIT := True, printing := (printing s)(t := Locking (\<not> INIT s) args)\<rparr>) else None)"

text \<open>The rest of \<open>serial1\<close> and of \<open>_print\<close>, one access at a time.\<close>

definition print_step :: "'w waker_ops \<Rightarrow> 'p uart_ops \<Rightarrow> agent \<Rightarrow> ('p, 'w) serial_state \<Rightarrow> ('p, 'w) serial_state option" where
  "print_step ops U t s =
     (let to = (\<lambda>l pc. Some (s\<lparr>SERIAL1 := l, printing := (printing s)(t := pc)\<rparr>))
      in case printing s t of
        Locking first args \<Rightarrow> do {
          l \<leftarrow> lock_step ops (Spin t) (SERIAL1 s);
          if pcs l t = Spinning then to l (Locking first args)
          else if first then to l (Initialising args) else to l (Writing first args args) }
      | Initialising args \<Rightarrow> do {
          l \<leftarrow> lock_step ops (Access t (uart_init U)) (SERIAL1 s);
          to l (Writing True args args) }
      | Writing first args [] \<Rightarrow> do {
          l \<leftarrow> lock_step ops (Unlock t) (SERIAL1 s);
          Some (s\<lparr>SERIAL1 := l, printing := (printing s)(t := Releasing), finished := finished s @ [(first, args)]\<rparr>) }
      | Writing first args (piece # rest) \<Rightarrow> do {
          let ok = fst (uart_write_str U piece (mdata (mutex (SERIAL1 s))));
          l \<leftarrow> lock_step ops (Access t (\<lambda>p. snd (uart_write_str U piece p))) (SERIAL1 s);
          if ok then to l (Writing first args rest) else to l (Panicked first args rest) }
      | Releasing \<Rightarrow> do {
          l \<leftarrow> lock_step ops (Wake t) (SERIAL1 s);
          to l Outside }
      | _ \<Rightarrow> None)"

inductive serial_step :: "'w waker_ops \<Rightarrow> 'p uart_ops \<Rightarrow> ('p, 'w) serial_state \<Rightarrow> ('p, 'w) serial_state \<Rightarrow> bool"
  for ops U where
  call: "print_call t args s = Some s' \<Longrightarrow> serial_step ops U s s'"
| step: "print_step ops U t s = Some s' \<Longrightarrow> serial_step ops U s s'"

section \<open>Invariant\<close>

text \<open>What a message does to the port, all of it or up to the pieces \<open>rest\<close>.\<close>

definition write_pieces :: "'p uart_ops \<Rightarrow> string list \<Rightarrow> 'p \<Rightarrow> 'p" where
  "write_pieces U ps p = foldl (\<lambda>p piece. snd (uart_write_str U piece p)) p ps"

definition print_message :: "'p uart_ops \<Rightarrow> bool \<times> string list \<Rightarrow> 'p \<Rightarrow> 'p" where
  "print_message U m p = write_pieces U (snd m) (if fst m then uart_init U p else p)"

definition print_all :: "'p uart_ops \<Rightarrow> (bool \<times> string list) list \<Rightarrow> 'p \<Rightarrow> 'p" where
  "print_all U ms p = foldl (\<lambda>p m. print_message U m p) p ms"

text \<open>The pieces that a context has written while it has the guard, and whether it has the guard.\<close>

fun partial_message :: "serial_pc \<Rightarrow> (bool \<times> string list) option" where
  "partial_message (Initialising args) = Some (False, [])"
| "partial_message (Writing first args rest) = Some (first, take (length args - length rest) args)"
| "partial_message (Panicked first args rest) = Some (first, take (length args - length rest) args)"
| "partial_message _ = None"

fun pc_ok :: "serial_pc \<Rightarrow> pc \<Rightarrow> bool" where
  "pc_ok Outside l \<longleftrightarrow> l = Idle"
| "pc_ok (Locking _ _) l \<longleftrightarrow> l = Idle \<or> l = Spinning"
| "pc_ok (Initialising _) l \<longleftrightarrow> l = Holding NewWaker"
| "pc_ok (Writing _ args rest) l \<longleftrightarrow> l = Holding NewWaker \<and> suffix rest args"
| "pc_ok (Panicked _ args rest) l \<longleftrightarrow> l = Holding NewWaker \<and> suffix rest args"
| "pc_ok Releasing l \<longleftrightarrow> l = Dropping NewWaker"

fun takes_init :: "serial_pc \<Rightarrow> bool" where
  "takes_init (Locking first _) = first"
| "takes_init (Initialising _) = True"
| "takes_init (Writing first _ _) = first"
| "takes_init (Panicked first _ _) = first"
| "takes_init _ = False"

definition init_once :: "('p, 'w) serial_state \<Rightarrow> bool" where
  "init_once s \<longleftrightarrow> (if INIT s
     then (\<exists>t. \<forall>u. takes_init (printing s u) \<longleftrightarrow> u = t) \<and> filter fst (finished s) = []
        \<or> (\<forall>u. \<not> takes_init (printing s u)) \<and> length (filter fst (finished s)) = 1
     else finished s = [] \<and> (\<forall>t. printing s t = Outside))"

text \<open>The port has seen the finished messages and what the owner of the guard has written so far.\<close>

definition port_is :: "'p uart_ops \<Rightarrow> 'p \<Rightarrow> ('p, 'w) serial_state \<Rightarrow> bool" where
  "port_is U p s \<longleftrightarrow>
     (\<forall>t m. partial_message (printing s t) = Some m \<longrightarrow> mdata (mutex (SERIAL1 s)) = print_message U m (print_all U (finished s) p))
     \<and> ((\<forall>t. partial_message (printing s t) = None) \<longrightarrow> mdata (mutex (SERIAL1 s)) = print_all U (finished s) p)"

definition serial_inv :: "'p uart_ops \<Rightarrow> 'p \<Rightarrow> ('p, 'w) serial_state \<Rightarrow> bool" where
  "serial_inv U p s \<longleftrightarrow> lock_inv (SERIAL1 s) \<and> (\<forall>t. pc_ok (printing s t) (pcs (SERIAL1 s) t)) \<and> port_is U p s \<and> init_once s"

lemma serial_start_inv: "serial_inv U p (serial_start ops p)"
  by (simp add: serial_inv_def serial_start_def lock_inv_def lock_init_def mutex_new_def holding_def port_is_def print_all_def init_once_def)

lemma partial_holds: "\<lbrakk>pc_ok pc l; partial_message pc \<noteq> None\<rbrakk> \<Longrightarrow> l = Holding NewWaker"
  by (cases pc) auto

lemma holds_partial: "\<lbrakk>pc_ok pc (Holding g)\<rbrakk> \<Longrightarrow> partial_message pc \<noteq> None"
  by (cases pc) auto

lemma one_partial:
  assumes "lock_inv l" "\<forall>t. pc_ok (pr t) (pcs l t)" "partial_message (pr t) \<noteq> None" "partial_message (pr u) \<noteq> None"
  shows "t = u"
proof -
  have "holding l t" "holding l u" using partial_holds assms(2-4) unfolding holding_def by blast+
  then show ?thesis using assms(1) by (auto simp: lock_inv_def split: if_splits)
qed

lemma no_partial:
  assumes "lock_inv l" "\<forall>t. pc_ok (pr t) (pcs l t)" "\<not> locked (mutex l)"
  shows "partial_message (pr t) = None"
  using assms partial_holds [of "pr t" "pcs l t"] by (fastforce simp: lock_inv_def holding_def)

lemma print_message_simps:
  "print_message U (False, []) p = p" "print_message U (True, []) p = uart_init U p"
  "print_message U (first, ps @ [piece]) p = snd (uart_write_str U piece (print_message U (first, ps) p))"
  "print_all U (ms @ [m]) p = print_message U m (print_all U ms p)"
  by (simp_all add: print_message_def write_pieces_def print_all_def)

lemma take_piece:
  assumes "suffix (piece # rest) args"
  shows "take (length args - length rest) args = take (length args - Suc (length rest)) args @ [piece]"
  using assms by (auto simp: suffix_def)

lemma serial_frame:
  assumes inv: "serial_inv U p s" and l: "lock_inv l" "pcs l = (pcs (SERIAL1 s))(t := lpc)" and pc: "pc_ok pc lpc"
    and s': "s' = s\<lparr>INIT := i, SERIAL1 := l, printing := (printing s)(t := pc), finished := fin\<rparr>"
    and port: "port_is U p s'" and once: "init_once s'"
  shows "serial_inv U p s'"
  using inv l pc port once unfolding serial_inv_def s' by simp

lemma init_once_move:
  assumes "init_once s" "printing s t \<noteq> Outside" "takes_init pc \<longleftrightarrow> takes_init (printing s t)"
  shows "init_once (s\<lparr>SERIAL1 := l, printing := (printing s)(t := pc)\<rparr>)"
  using assms unfolding init_once_def by (cases "INIT s") (auto simp: fun_upd_def)

text \<open>Only the owner of the guard touches the port.\<close>

lemma port_by_owner:
  assumes inv: "serial_inv U p s" and t: "partial_message (printing s t) \<noteq> None" and m: "partial_message pc = Some m"
    and d: "mdata (mutex l) = print_message U m (print_all U (finished s) p)"
  shows "port_is U p (s\<lparr>SERIAL1 := l, printing := (printing s)(t := pc)\<rparr>)"
proof -
  have "partial_message (printing s u) = None" if "u \<noteq> t" for u
    using one_partial [of "SERIAL1 s" "printing s" u t] inv t that unfolding serial_inv_def by blast
  then show ?thesis using m d by (auto simp: port_is_def)
qed

lemma port_partial: "\<lbrakk>port_is U p s; partial_message (printing s t) = Some m\<rbrakk> \<Longrightarrow> mdata (mutex (SERIAL1 s)) = print_message U m (print_all U (finished s) p)"
  unfolding port_is_def by blast

lemma port_same:
  assumes "port_is U p s" "partial_message pc = None" "partial_message (printing s t) = None" "mdata (mutex l) = mdata (mutex (SERIAL1 s))"
  shows "port_is U p (s\<lparr>SERIAL1 := l, printing := (printing s)(t := pc)\<rparr>)"
  using assms unfolding port_is_def by (auto split: if_splits) (metis)

section \<open>The steps keep the invariant\<close>

lemma serial_invD:
  assumes "serial_inv U p s"
  shows "lock_inv (SERIAL1 s)" "\<And>t. pc_ok (printing s t) (pcs (SERIAL1 s) t)" "port_is U p s" "init_once s"
  using assms by (simp_all add: serial_inv_def)

lemma serial_move:
  assumes inv: "serial_inv U p s" and l: "lock_step ops a (SERIAL1 s) = Some l" "pcs l = (pcs (SERIAL1 s))(t := lpc)" and pc: "pc_ok pc lpc"
    and port: "port_is U p (s\<lparr>SERIAL1 := l, printing := (printing s)(t := pc)\<rparr>)"
    and once: "printing s t \<noteq> Outside" "takes_init pc \<longleftrightarrow> takes_init (printing s t)"
  shows "serial_inv U p (s\<lparr>SERIAL1 := l, printing := (printing s)(t := pc)\<rparr>)"
proof -
  have "lock_inv l" by (rule lock_inv_step [OF serial_invD(1) [OF inv] l(1)])
  then show ?thesis
    using serial_frame [where i = "INIT s" and fin = "finished s", OF inv _ l(2) pc refl] port init_once_move [OF serial_invD(4) [OF inv] once, of l] by simp
qed

lemma lock_inv_call:
  assumes inv: "serial_inv U p s" and st: "print_call t args s = Some s'"
  shows "serial_inv U p s'"
proof -
  note i = serial_invD [OF inv]
  have o: "printing s t = Outside" and s': "s' = s\<lparr>INIT := True, printing := (printing s)(t := Locking (\<not> INIT s) args)\<rparr>"
    using st by (auto simp: print_call_def split: if_splits)
  have "takes_init (printing s' u) = takes_init (printing s u)" if "INIT s" for u using o s' that by simp
  then have "init_once s'" using i(4) o s' unfolding init_once_def by (cases "INIT s") auto
  moreover have "partial_message (printing s' u) = partial_message (printing s u)" for u using o s' by simp
  then have "port_is U p s'" using i(3) s' by (simp add: port_is_def)
  moreover have "pc_ok (printing s' u) (pcs (SERIAL1 s') u)" for u using i(2) [of u] o s' by auto
  ultimately show ?thesis using i(1) s' by (simp add: serial_inv_def)
qed

lemma print_locking:
  assumes inv: "serial_inv U p s" and pc: "printing s t = Locking first args" and st: "print_step ops U t s = Some s'"
  shows "serial_inv U p s'"
proof -
  note i = serial_invD [OF inv]
  let ?l = "attempt t (Holding NewWaker) Spinning (SERIAL1 s)"
  have ls: "lock_step ops (Spin t) (SERIAL1 s) = Some ?l" using i(2) [of t] pc by auto
  show ?thesis
  proof (cases rule: attempt_cases [of "SERIAL1 s" t "Holding NewWaker" Spinning])
    case err
    then have s': "s' = s\<lparr>SERIAL1 := ?l, printing := (printing s)(t := Locking first args)\<rparr>" using st pc ls by (simp add: print_step_def)
    have "port_is U p s'" unfolding s' using port_same [OF i(3), of "Locking first args" t ?l] pc err by simp
    then show ?thesis unfolding s' using serial_move [OF inv ls, of t Spinning "Locking first args"] err pc by simp
  next
    case ok
    let ?pc = "if first then Initialising args else Writing first args args"
    have s': "s' = s\<lparr>SERIAL1 := ?l, printing := (printing s)(t := ?pc)\<rparr>" using st pc ls ok by (auto simp: print_step_def)
    have none: "partial_message (printing s u) = None" for u using no_partial [OF i(1) _ ok(1), of "printing s" u] i(2) by blast
    have "partial_message ?pc = Some (False, [])" by simp
    moreover have "mdata (mutex ?l) = print_all U (finished s) p" using ok none i(3) unfolding port_is_def by simp
    ultimately have "port_is U p s'" unfolding s' port_is_def using none by (auto simp: print_message_simps)
    then show ?thesis unfolding s' using serial_move [OF inv ls, of t "Holding NewWaker" ?pc] ok pc by simp
  qed
qed

lemma print_access:
  assumes inv: "serial_inv U p s" and t: "partial_message (printing s t) = Some m" and pc': "partial_message pc = Some m'"
    and d: "f (print_message U m (print_all U (finished s) p)) = print_message U m' (print_all U (finished s) p)"
    and l: "lock_step ops (Access t f) (SERIAL1 s) = Some l" and ok: "pc_ok pc (Holding NewWaker)" "takes_init pc \<longleftrightarrow> takes_init (printing s t)"
  shows "serial_inv U p (s\<lparr>SERIAL1 := l, printing := (printing s)(t := pc)\<rparr>)"
proof -
  note i = serial_invD [OF inv]
  have h: "pcs (SERIAL1 s) t = Holding NewWaker" using partial_holds [OF i(2) [of t]] t by simp
  have l': "l = (SERIAL1 s)\<lparr>mutex := (mutex (SERIAL1 s))\<lparr>mdata := f (mdata (mutex (SERIAL1 s)))\<rparr>\<rparr>" using l h by simp
  have "mdata (mutex (SERIAL1 s)) = print_message U m (print_all U (finished s) p)" by (rule port_partial [OF i(3) t])
  then have "port_is U p (s\<lparr>SERIAL1 := l, printing := (printing s)(t := pc)\<rparr>)" using port_by_owner [OF inv _ pc', of t l] t d l' by simp
  moreover have "pcs l = (pcs (SERIAL1 s))(t := Holding NewWaker)" using l' h by auto
  moreover have "printing s t \<noteq> Outside" using t by auto
  ultimately show ?thesis using serial_move [OF inv l _ ok(1)] ok(2) by simp
qed

lemma print_finish:
  assumes inv: "serial_inv U p s" and pc: "printing s t = Writing first args []" and st: "print_step ops U t s = Some s'"
  shows "serial_inv U p s'"
proof -
  note i = serial_invD [OF inv]
  have h: "pcs (SERIAL1 s) t = Holding NewWaker" using i(2) [of t] pc by simp
  obtain l where l: "lock_step ops (Unlock t) (SERIAL1 s) = Some l" "mdata (mutex l) = mdata (mutex (SERIAL1 s))" "pcs l = (pcs (SERIAL1 s))(t := Dropping NewWaker)"
    using h by simp
  have s': "s' = s\<lparr>SERIAL1 := l, printing := (printing s)(t := Releasing), finished := finished s @ [(first, args)]\<rparr>"
    using st pc l(1) by (simp add: print_step_def)
  have others: "partial_message (printing s u) = None" if "u \<noteq> t" for u
    using one_partial [OF i(1) allI [OF i(2)], of u t] pc that by (cases "partial_message (printing s u)") auto
  have "partial_message (printing s t) = Some (first, args)" using pc by simp
  then have "mdata (mutex (SERIAL1 s)) = print_message U (first, args) (print_all U (finished s) p)" by (rule port_partial [OF i(3)])
  then have "port_is U p s'" unfolding s' port_is_def using others l(2) by (auto simp: print_message_simps)
  moreover have "init_once s'"
  proof (cases first)
    case True
    then have t: "takes_init (printing s t)" using pc by simp
    have I: "INIT s"
    proof (rule ccontr)
      assume "\<not> INIT s"
      then show False using i(4) pc by (simp add: init_once_def)
    qed
    then have "(\<exists>t. \<forall>u. takes_init (printing s u) \<longleftrightarrow> u = t) \<and> filter fst (finished s) = []" using i(4) t unfolding init_once_def by simp blast
    then have "\<forall>u. takes_init (printing s u) \<longleftrightarrow> u = t" "filter fst (finished s) = []" using t by metis+
    then show ?thesis using True I unfolding s' init_once_def by simp
  next
    case False
    then have "takes_init (printing s' u) = takes_init (printing s u)" for u using pc s' by simp
    then show ?thesis using i(4) pc False s' unfolding init_once_def by (auto split: if_splits)
  qed
  ultimately show ?thesis using serial_frame [where i = "INIT s" and fin = "finished s @ [(first, args)]", OF inv lock_inv_step [OF i(1) l(1)] l(3), of Releasing s'] s' by simp
qed

lemma serial_inv_step:
  assumes inv: "serial_inv U p s" and st: "serial_step ops U s s'"
  shows "serial_inv U p s'"
  using st
proof cases
  case (call t args)
  then show ?thesis by (rule lock_inv_call [OF inv])
next
  case (step t)
  note i = serial_invD [OF inv]
  show ?thesis
  proof (cases "printing s t")
    case (Locking first args)
    then show ?thesis by (rule print_locking [OF inv _ step])
  next
    case (Initialising args)
    then obtain l where "lock_step ops (Access t (uart_init U)) (SERIAL1 s) = Some l" "s' = s\<lparr>SERIAL1 := l, printing := (printing s)(t := Writing True args args)\<rparr>"
      using step by (auto simp: print_step_def split: bind_splits)
    then show ?thesis using print_access [OF inv, of t "(False, [])" "Writing True args args" "(True, [])" "uart_init U" ops l] Initialising
      by (simp add: print_message_simps)
  next
    case (Writing first args rest)
    show ?thesis
    proof (cases rest)
      case Nil
      then show ?thesis using print_finish [OF inv _ step] Writing by simp
    next
      case (Cons piece more)
      let ?pc = "if fst (uart_write_str U piece (mdata (mutex (SERIAL1 s)))) then Writing first args more else Panicked first args more"
      obtain l where l: "lock_step ops (Access t (\<lambda>p. snd (uart_write_str U piece p))) (SERIAL1 s) = Some l" "s' = s\<lparr>SERIAL1 := l, printing := (printing s)(t := ?pc)\<rparr>"
        using step Writing Cons by (auto simp: print_step_def split: bind_splits if_splits)
      have sx: "suffix (piece # more) args" using i(2) [of t] Writing Cons by simp
      then have "suffix more args" by (metis suffix_ConsD)
      then have "pc_ok ?pc (Holding NewWaker)" "partial_message ?pc = Some (first, take (length args - Suc (length more)) args @ [piece])"
        using take_piece [OF sx] by auto
      then show ?thesis
        using print_access [OF inv, of t "(first, take (length args - Suc (length more)) args)" ?pc _ _ ops l, OF _ _ _ l(1)] l(2) Writing Cons
        by (simp add: print_message_simps)
    qed
  next
    case Releasing
    have h: "pcs (SERIAL1 s) t = Dropping NewWaker" using i(2) [of t] Releasing by simp
    obtain l where l: "lock_step ops (Wake t) (SERIAL1 s) = Some l" "mutex l = mutex (SERIAL1 s)" "pcs l = (pcs (SERIAL1 s))(t := Idle)"
      using h by (cases "waker_take ops (new_waker (SERIAL1 s))") simp
    have s': "s' = s\<lparr>SERIAL1 := l, printing := (printing s)(t := Outside)\<rparr>" using step Releasing l(1) by (simp add: print_step_def)
    have "port_is U p s'" unfolding s' using port_same [OF i(3), of Outside t l] Releasing l(2) by simp
    then show ?thesis unfolding s' using serial_move [OF inv l(1,3), of Outside] Releasing by simp
  qed (use step in \<open>simp_all add: print_step_def\<close>)
qed

lemma serial_reachable: "(serial_step ops U)\<^sup>*\<^sup>* (serial_start ops p) s \<Longrightarrow> serial_inv U p s"
  by (induction rule: rtranclp_induct) (blast intro: serial_start_inv serial_inv_step)+

section \<open>Properties\<close>

lemma messages_whole:
  assumes "(serial_step ops U)\<^sup>*\<^sup>* (serial_start ops p) s"
  shows "\<not> locked (mutex (SERIAL1 s)) \<Longrightarrow> mdata (mutex (SERIAL1 s)) = print_all U (finished s) p"
    "printing s t = Writing first args rest \<Longrightarrow>
      mdata (mutex (SERIAL1 s)) = print_message U (first, take (length args - length rest) args) (print_all U (finished s) p) \<and> suffix rest args"
    "length (filter fst (finished s)) \<le> 1"
proof -
  note inv = serial_reachable [OF assms]
  note i = serial_invD [OF inv]
  show "mdata (mutex (SERIAL1 s)) = print_all U (finished s) p" if "\<not> locked (mutex (SERIAL1 s))"
    using no_partial [OF i(1) allI [OF i(2)] that] i(3) by (simp add: port_is_def)
  show "mdata (mutex (SERIAL1 s)) = print_message U (first, take (length args - length rest) args) (print_all U (finished s) p) \<and> suffix rest args"
    if "printing s t = Writing first args rest"
  proof -
    have "partial_message (printing s t) = Some (first, take (length args - length rest) args)" using that by simp
    note port_partial [OF i(3) this]
    then show ?thesis using i(2) [of t] that by simp
  qed
  show "length (filter fst (finished s)) \<le> 1" using i(4) by (auto simp: init_once_def split: if_splits)
qed

text \<open>
  C19: the messages of all contexts reach the serial port whole and one after the other, under every interleaving: whenever nobody has the guard of \<^verbatim>\<open>SERIAL1\<close>,
  the port is what the finished messages make of it, each with all its pieces in order; while a context writes, it is that and the pieces this context has
  written so far. The port is initialised at most once, by the context that swapped \<^verbatim>\<open>INIT\<close> first, before the pieces of its message.
\<close>

theorem serial_messages_whole:
  assumes "(serial_step ops U)\<^sup>*\<^sup>* (serial_start ops p) s"
  shows "(\<not> locked (mutex (SERIAL1 s)) \<longrightarrow> mdata (mutex (SERIAL1 s)) = print_all U (finished s) p)
    \<and> (\<forall>t first args rest. printing s t = Writing first args rest \<longrightarrow>
         mdata (mutex (SERIAL1 s)) = print_message U (first, take (length args - length rest) args) (print_all U (finished s) p) \<and> suffix rest args)
    \<and> length (filter fst (finished s)) \<le> 1"
  using messages_whole [OF assms] by blast

text \<open>A port that records what it is told, and concrete runs.\<close>

definition log_port :: "(string list) uart_ops" where
  "log_port = \<lparr>uart_init = (\<lambda>p. p @ [''init'']), uart_write_str = (\<lambda>piece p. (piece \<noteq> ''fail'', p @ [piece]))\<rparr>"

datatype serial_move = Call agent "string list" | Go agent

fun serial_run :: "'w waker_ops \<Rightarrow> 'p uart_ops \<Rightarrow> serial_move list \<Rightarrow> ('p, 'w) serial_state \<Rightarrow> ('p, 'w) serial_state option" where
  "serial_run ops U [] s = Some s"
| "serial_run ops U (Call t args # ms) s = do { s \<leftarrow> print_call t args s; serial_run ops U ms s }"
| "serial_run ops U (Go t # ms) s = do { s \<leftarrow> print_step ops U t s; serial_run ops U ms s }"

lemma serial_run_reach: "serial_run ops U ms s = Some s' \<Longrightarrow> (serial_step ops U)\<^sup>*\<^sup>* s s'"
proof (induction ops U ms s rule: serial_run.induct)
  case (2 ops U t args ms s)
  then show ?case by (auto simp: bind_eq_Some_conv intro: converse_rtranclp_into_rtranclp serial_step.call)
next
  case (3 ops U t ms s)
  then show ?case by (auto simp: bind_eq_Some_conv intro: converse_rtranclp_into_rtranclp serial_step.step)
qed simp

lemma two_prints_run:
  "map_option (\<lambda>s. (mdata (mutex (SERIAL1 s)), finished s, locked (mutex (SERIAL1 s))))
     (serial_run cell_ops log_port ([Call 0 [''a'', ''b''], Call 1 [''c'']] @ replicate 2 (Go 0) @ [Go 1] @ replicate 4 (Go 0) @ replicate 4 (Go 1)) (serial_start cell_ops []))
   = Some ([''init'', ''a'', ''b'', ''c''], [(True, [''a'', ''b'']), (False, [''c''])], False)"
  by code_simp

theorem serial_messages_whole_witness:
  "\<exists>s :: (string list, agent option) serial_state. finished s = [(True, [''a'', ''b'']), (False, [''c''])] \<and> mdata (mutex (SERIAL1 s)) = print_all log_port (finished s) []"
proof -
  obtain s where s: "serial_run cell_ops log_port ([Call 0 [''a'', ''b''], Call 1 [''c'']] @ replicate 2 (Go 0) @ [Go 1] @ replicate 4 (Go 0) @ replicate 4 (Go 1))
      (serial_start cell_ops []) = Some s" "finished s = [(True, [''a'', ''b'']), (False, [''c''])]" "\<not> locked (mutex (SERIAL1 s))"
    using two_prints_run by auto
  then show ?thesis using serial_messages_whole [OF serial_run_reach [OF s(1)]] by blast
qed

text \<open>
  C27: the swap of \<^verbatim>\<open>INIT\<close> does not wait for the initialisation: a context that comes second can win the mutex and print to a port that nobody has
  initialised, and the initialisation then happens after its message.
\<close>

theorem serial_init_race:
  "\<exists>s :: (string list, agent option) serial_state. (serial_step cell_ops log_port)\<^sup>*\<^sup>* (serial_start cell_ops []) s
     \<and> finished s = [(False, [''b''])] \<and> mdata (mutex (SERIAL1 s)) = [''b''] \<and> INIT s"
proof -
  have "map_option (\<lambda>s. (finished s, mdata (mutex (SERIAL1 s)), INIT s))
     (serial_run cell_ops log_port ([Call 0 [''a''], Call 1 [''b'']] @ replicate 3 (Go 1)) (serial_start cell_ops [])) = Some ([(False, [''b''])], [''b''], True)"
    by code_simp
  then obtain s where "serial_run cell_ops log_port ([Call 0 [''a''], Call 1 [''b'']] @ replicate 3 (Go 1)) (serial_start cell_ops []) = Some s"
    "finished s = [(False, [''b''])]" "mdata (mutex (SERIAL1 s)) = [''b'']" "INIT s" by auto
  then show ?thesis using serial_run_reach by blast
qed

text \<open>While the context with the guard does not step, nobody prints and nobody gets past the mutex.\<close>

fun mover :: "serial_move \<Rightarrow> agent" where
  "mover (Call t _) = t"
| "mover (Go t) = t"

definition stuck :: "agent \<Rightarrow> ('p, 'w) serial_state \<Rightarrow> ('p, 'w) serial_state \<Rightarrow> bool" where
  "stuck t s s' \<longleftrightarrow> printing s' t = printing s t \<and> finished s' = finished s \<and> mdata (mutex (SERIAL1 s')) = mdata (mutex (SERIAL1 s))
     \<and> (\<forall>u first args. printing s u = Locking first args \<longrightarrow> printing s' u = Locking first args)
     \<and> (\<forall>u. printing s u = Outside \<longrightarrow> printing s' u = Outside \<or> (\<exists>first args. printing s' u = Locking first args))"

lemma stuck_call: "\<lbrakk>print_call u as s = Some s'; printing s t \<noteq> Outside\<rbrakk> \<Longrightarrow> stuck t s s'"
  by (auto simp: stuck_def print_call_def split: if_splits)

lemma stuck_print:
  assumes inv: "serial_inv U p s" and t: "partial_message (printing s t) = Some m" "u \<noteq> t" and st: "print_step ops U u s = Some s'"
  shows "stuck t s s'"
proof -
  note i = serial_invD [OF inv]
  have h: "pcs (SERIAL1 s) t = Holding NewWaker" using partial_holds [OF i(2)] t(1) by simp
  then have lk: "locked (mutex (SERIAL1 s))" using i(1) by (auto simp: lock_inv_def holding_def split: if_splits)
  have none: "partial_message (printing s u) = None"
    using one_partial [OF i(1) allI [OF i(2)], of u t] t by (cases "partial_message (printing s u)") auto
  show ?thesis
  proof (cases "printing s u")
    case (Locking f as)
    have "attempt u (Holding NewWaker) Spinning (SERIAL1 s) = (SERIAL1 s)\<lparr>pcs := (pcs (SERIAL1 s))(u := Spinning)\<rparr>"
      using lk by (simp add: attempt_def check_def)
    then have "s' = s\<lparr>SERIAL1 := (SERIAL1 s)\<lparr>pcs := (pcs (SERIAL1 s))(u := Spinning)\<rparr>, printing := (printing s)(u := Locking f as)\<rparr>"
      using st Locking i(2) [of u] by (auto simp: print_step_def)
    then show ?thesis using t(2) Locking by (simp add: stuck_def)
  next
    case Releasing
    then have "pcs (SERIAL1 s) u = Dropping NewWaker" using i(2) [of u] by simp
    then show ?thesis using st Releasing t(2) by (auto simp: print_step_def stuck_def Let_def split: prod.splits)
  qed (use none st in \<open>simp_all add: print_step_def\<close>)
qed

lemma stuck_trans: "\<lbrakk>stuck t r s; stuck t s s'\<rbrakk> \<Longrightarrow> stuck t r s'"
  unfolding stuck_def by metis

lemma stuck_run:
  assumes "serial_run ops U ms s = Some s'" "serial_inv U p s" "partial_message (printing s t) \<noteq> None" "t \<notin> mover ` set ms"
  shows "stuck t s s'"
  using assms
proof (induction ops U ms s rule: serial_run.induct)
  case (1 ops U s)
  then show ?case by (simp add: stuck_def)
next
  case (2 ops U u args ms s)
  then obtain s1 where s1: "print_call u args s = Some s1" "serial_run ops U ms s1 = Some s'" by (auto simp: bind_eq_Some_conv)
  have st: "stuck t s s1" using stuck_call [OF s1(1)] "2.prems"(3) by (cases "printing s t") auto
  then have "stuck t s1 s'" using "2.IH" [OF s1] serial_inv_step [OF "2.prems"(2) serial_step.call [OF s1(1)]] "2.prems"(3,4) by (simp add: stuck_def)
  then show ?case by (rule stuck_trans [OF st])
next
  case (3 ops U u ms s)
  then obtain s1 where s1: "print_step ops U u s = Some s1" "serial_run ops U ms s1 = Some s'" by (auto simp: bind_eq_Some_conv)
  have st: "stuck t s s1" using stuck_print [OF "3.prems"(2) _ _ s1(1)] "3.prems"(3,4) by auto
  then have "stuck t s1 s'" using "3.IH" [OF s1] serial_inv_step [OF "3.prems"(2) serial_step.step [OF s1(1)]] "3.prems"(3,4) by (simp add: stuck_def)
  then show ?case by (rule stuck_trans [OF st])
qed

text \<open>A context that alone steps prints a whole message, if the mutex is free.\<close>

lemma write_all:
  assumes "\<forall>piece p. fst (uart_write_str U piece p)" "printing s u = Writing first args rest" "pcs (SERIAL1 s) u = Holding NewWaker"
  shows "\<exists>s'. serial_run ops U (replicate (length rest) (Go u)) s = Some s' \<and> printing s' u = Writing first args [] \<and> pcs (SERIAL1 s') u = Holding NewWaker
    \<and> finished s' = finished s \<and> INIT s' = INIT s"
  using assms(2,3)
proof (induction rest arbitrary: s)
  case (Cons piece rest)
  then obtain s1 where s1: "print_step ops U u s = Some s1" "printing s1 u = Writing first args rest" "pcs (SERIAL1 s1) u = Holding NewWaker"
    "finished s1 = finished s" "INIT s1 = INIT s" using assms(1) by (auto simp: print_step_def)
  then show ?case using Cons.IH [OF s1(2,3)] by simp
qed simp

lemma close_message:
  assumes "printing s u = Writing first args []" "pcs (SERIAL1 s) u = Holding NewWaker"
  shows "\<exists>s'. serial_run ops U [Go u, Go u] s = Some s' \<and> printing s' u = Outside \<and> \<not> locked (mutex (SERIAL1 s'))
    \<and> finished s' = finished s @ [(first, args)] \<and> INIT s' = INIT s"
  using assms by (auto simp: print_step_def split: prod.splits)

lemma serial_run_append: "serial_run ops U (xs @ ys) s = do { s \<leftarrow> serial_run ops U xs s; serial_run ops U ys s }"
  by (induction ops U xs s rule: serial_run.induct) (auto split: bind_splits)

lemma open_message:
  assumes "printing s u = Outside" "pcs (SERIAL1 s) u = Idle" "\<not> locked (mutex (SERIAL1 s))"
  shows "\<exists>s'. serial_run ops U (Call u args # replicate (if INIT s then 1 else 2) (Go u)) s = Some s' \<and> printing s' u = Writing (\<not> INIT s) args args
    \<and> pcs (SERIAL1 s') u = Holding NewWaker \<and> finished s' = finished s"
  using assms by (simp add: print_call_def print_step_def attempt_def check_def numeral_2_eq_2)

lemma print_alone:
  assumes inv: "serial_inv U p s" and w: "\<forall>piece p. fst (uart_write_str U piece p)" and u: "printing s u = Outside" "\<not> locked (mutex (SERIAL1 s))"
  shows "\<exists>ms s'. mover ` set ms \<subseteq> {u} \<and> serial_run ops U ms s = Some s' \<and> printing s' u = Outside \<and> \<not> locked (mutex (SERIAL1 s'))
    \<and> map snd (finished s') = map snd (finished s) @ [args]"
proof -
  have "pcs (SERIAL1 s) u = Idle" using serial_invD(2) [OF inv, of u] u(1) by simp
  from open_message [OF u(1) this u(2)] obtain s1 where
    s1: "serial_run ops U (Call u args # replicate (if INIT s then 1 else 2) (Go u)) s = Some s1" "printing s1 u = Writing (\<not> INIT s) args args"
      "pcs (SERIAL1 s1) u = Holding NewWaker" "finished s1 = finished s" by blast
  obtain s2 where s2: "serial_run ops U (replicate (length args) (Go u)) s1 = Some s2" "printing s2 u = Writing (\<not> INIT s) args []"
    "pcs (SERIAL1 s2) u = Holding NewWaker" "finished s2 = finished s1" using write_all [OF w s1(2,3)] by blast
  obtain s3 where s3: "serial_run ops U [Go u, Go u] s2 = Some s3" "printing s3 u = Outside" "\<not> locked (mutex (SERIAL1 s3))"
    "finished s3 = finished s2 @ [(\<not> INIT s, args)]" using close_message [OF s2(2,3)] by blast
  let ?ms = "(Call u args # replicate (if INIT s then 1 else 2) (Go u)) @ replicate (length args) (Go u) @ [Go u, Go u]"
  have "serial_run ops U ?ms s = Some s3" unfolding serial_run_append s1(1) s2(1) s3(1) Option.bind.bind_lunit ..
  moreover have "mover ` set ?ms \<subseteq> {u}" by auto
  ultimately show ?thesis using s1(4) s2(4) s3(2-4) by (intro exI [of _ ?ms] exI [of _ s3]) simp
qed

lemma prints_alone:
  assumes "serial_inv U p s" "\<forall>piece p. fst (uart_write_str U piece p)" "printing s u = Outside" "\<not> locked (mutex (SERIAL1 s))"
  shows "\<exists>ms s'. mover ` set ms \<subseteq> {u} \<and> serial_run ops U ms s = Some s' \<and> printing s' u = Outside
    \<and> map snd (finished s') = map snd (finished s) @ msgs"
  using assms(1,3,4)
proof (induction msgs arbitrary: s)
  case Nil
  then show ?case by (intro exI [of _ "[]"]) simp
next
  case (Cons args msgs)
  obtain ms s1 where s1: "mover ` set ms \<subseteq> {u}" "serial_run ops U ms s = Some s1" "printing s1 u = Outside" "\<not> locked (mutex (SERIAL1 s1))"
    "map snd (finished s1) = map snd (finished s) @ [args]" using print_alone [OF Cons.prems(1) assms(2) Cons.prems(2,3)] by blast
  have inv: "serial_inv U p s1" using serial_run_reach [OF s1(2)] Cons.prems(1) by (induction rule: rtranclp_induct) (blast intro: serial_inv_step)+
  obtain ms' s' where "mover ` set ms' \<subseteq> {u}" "serial_run ops U ms' s1 = Some s'" "printing s' u = Outside" "map snd (finished s') = map snd (finished s1) @ msgs"
    using Cons.IH [OF inv s1(3,4)] by blast
  then show ?case using s1(1,2,5) by (intro exI [of _ "ms @ ms'"] exI [of _ s']) (auto simp: serial_run_append)
qed

end
