(* ===== verification/Faults.thy ===== *)
theory Faults
  imports Kernel Serial
begin

text \<open>
  Exceptions and panics: the handlers of \<^verbatim>\<open>interrupts.rs\<close> that report an exception, and \<^verbatim>\<open>panic_handler\<close> and \<^verbatim>\<open>hlt_loop\<close> of \<^verbatim>\<open>main.rs\<close>. A handler prints messages to the serial
  port and then returns or halts its core for ever. The text of a stack frame, an error code, an address or a panic comes from the
  \<^verbatim>\<open>x86_64\<close> crate and the core library, and is a list of pieces here.
\<close>

section \<open>The handlers\<close>

datatype ending = Returns | Halts

type_synonym report = "string list list \<times> ending"

record fault =
  stack_frame :: "string list"
  accessed_address :: "string list"
  error_code :: "string list"

definition sprintln :: "string list \<Rightarrow> string list" where
  "sprintln args = args @ [[CHR 0x0A]]"

definition hlt_loop :: ending where "hlt_loop = Halts"

definition panic_handler :: "string list \<Rightarrow> report" where
  "panic_handler info = ([sprintln info], hlt_loop)"

definition breakpoint_handler :: "fault \<Rightarrow> report" where
  "breakpoint_handler f = ([sprintln ((''EXCEPTION: BREAKPOINT'' @ [CHR 0x0A]) # stack_frame f)], Returns)"

text \<open>\<open>panic_info\<close> is what \<^verbatim>\<open>PanicInfo\<close> shows of the message of a panic.\<close>

definition double_fault_handler :: "(string list \<Rightarrow> string list) \<Rightarrow> fault \<Rightarrow> report" where
  "double_fault_handler panic_info f = panic_handler (panic_info ((''EXCEPTION: DOUBLE FAULT'' @ [CHR 0x0A]) # stack_frame f))"

definition page_fault_handler :: "fault \<Rightarrow> report" where
  "page_fault_handler f =
     ([sprintln [''EXCEPTION: PAGE FAULT''], sprintln (''Accessed Address: '' # accessed_address f),
       sprintln (''Error Code: '' # error_code f), sprintln (stack_frame f)], hlt_loop)"

text \<open>\<^verbatim>\<open>Logger\<close>: every record is enabled, and is printed with its level.\<close>

definition logger_log :: "string list \<Rightarrow> string list \<Rightarrow> string list" where
  "logger_log level args = sprintln (level @ '' - '' # args)"

text \<open>The report of an exception, by the handler that the loaded table has for its vector; the timer's handlers print nothing.\<close>

fun exception_report :: "(string list \<Rightarrow> string list) \<Rightarrow> fault \<Rightarrow> handler \<Rightarrow> report option" where
  "exception_report panic_info f Breakpoint_Handler = Some (breakpoint_handler f)"
| "exception_report panic_info f Double_Fault_Handler = Some (double_fault_handler panic_info f)"
| "exception_report panic_info f Page_Fault_Handler = Some (page_fault_handler f)"
| "exception_report panic_info f _ = None"

definition raise_exception :: "'i idt_ops \<Rightarrow> (string list \<Rightarrow> string list) \<Rightarrow> fault \<Rightarrow> ('g, 'i) processor \<Rightarrow> nat \<Rightarrow> report option" where
  "raise_exception I panic_info f pr v = do {
     idt \<leftarrow> idtr pr;
     h \<leftarrow> idt_handler I idt v;
     exception_report panic_info f h }"

section \<open>Properties\<close>

lemma raise_exception_report:
  assumes "idt_laws I" "v \<in> {3, 8, 14}"
  obtains msgs e where "raise_exception I panic_info f (init_idt I pr) v = Some (msgs, e)" "msgs \<noteq> []" "e = Returns \<longleftrightarrow> v = 3"
  using assms(2) IDT_handlers [OF assms(1)] that
  by (auto simp: raise_exception_def init_idt_def breakpoint_handler_def double_fault_handler_def panic_handler_def page_fault_handler_def hlt_loop_def)

lemma logger_prints:
  assumes "(serial_step ops U)\<^sup>*\<^sup>* (serial_start ops p) s" "\<forall>piece p. fst (uart_write_str U piece p)" "printing s u = Outside" "\<not> locked (mutex (SERIAL1 s))"
  shows "\<exists>ms s'. mover ` set ms \<subseteq> {u} \<and> serial_run ops U ms s = Some s' \<and> map snd (finished s') = map snd (finished s) @ [logger_log level args]"
  using print_alone [OF serial_reachable [OF assms(1)] assms(2-4)] by blast

text \<open>
  C26: after \<open>init_idt\<close> a breakpoint, a double fault and a page fault have a handler that reports them; only that of a breakpoint returns. When nobody has the
  guard of the serial port, the core \<open>u\<close> that runs the handler gets the whole report out, message by message. But disabling interrupts does not keep exceptions out: when the guard is held by a
  context \<open>t\<close> that does not go on, because the exception interrupted it on the same core or because it panicked in \<^verbatim>\<open>_print\<close>, nothing is printed any more, and
  the handler never gets past the mutex: it neither reports the fault nor halts nor returns.
\<close>

theorem fault_reports:
  assumes "idt_laws I" "v \<in> {3, 8, 14}" "(serial_step ops U)\<^sup>*\<^sup>* (serial_start ops p) s" "\<forall>piece p. fst (uart_write_str U piece p)" "printing s u = Outside"
  shows "\<exists>msgs e. raise_exception I panic_info f (init_idt I pr) v = Some (msgs, e) \<and> msgs \<noteq> [] \<and> (e = Returns \<longleftrightarrow> v = 3)
    \<and> (\<not> locked (mutex (SERIAL1 s)) \<longrightarrow> (\<exists>ms s'. mover ` set ms \<subseteq> {u} \<and> serial_run ops U ms s = Some s' \<and> printing s' u = Outside
          \<and> map snd (finished s') = map snd (finished s) @ msgs))
    \<and> (\<forall>t ms s'. partial_message (printing s t) \<noteq> None \<and> t \<notin> mover ` set ms \<and> serial_run ops U ms s = Some s' \<longrightarrow>
          finished s' = finished s \<and> (printing s' u = Outside \<or> (\<exists>first args. printing s' u = Locking first args)))"
proof -
  obtain msgs e where r: "raise_exception I panic_info f (init_idt I pr) v = Some (msgs, e)" "msgs \<noteq> []" "e = Returns \<longleftrightarrow> v = 3"
    by (rule raise_exception_report [OF assms(1,2)])
  note inv = serial_reachable [OF assms(3)]
  have A: "\<not> locked (mutex (SERIAL1 s)) \<longrightarrow> (\<exists>ms s'. mover ` set ms \<subseteq> {u} \<and> serial_run ops U ms s = Some s' \<and> printing s' u = Outside
      \<and> map snd (finished s') = map snd (finished s) @ msgs)" using prints_alone [OF inv assms(4,5)] by blast
  have B: "finished s' = finished s \<and> (printing s' u = Outside \<or> (\<exists>first args. printing s' u = Locking first args))"
    if "partial_message (printing s t) \<noteq> None \<and> t \<notin> mover ` set ms \<and> serial_run ops U ms s = Some s'" for t ms s'
    using stuck_run [of ops U ms s s' p t] inv that assms(5) by (simp add: stuck_def)
  show ?thesis by (intro exI [of _ msgs] exI [of _ e] conjI allI impI r(1-3) A [rule_format]; (erule B [THEN conjunct1] | erule B [THEN conjunct2])?)
qed

text \<open>A core that faults while it prints.\<close>

definition good_port :: "(string list) uart_ops" where
  "good_port = \<lparr>uart_init = (\<lambda>p. p @ [''init'']), uart_write_str = (\<lambda>piece p. (True, p @ [piece]))\<rparr>"

theorem fault_reports_witness:
  "\<exists>s :: (string list, agent option) serial_state. printing s 0 = Writing True [''a'', ''b''] [''b'']
     \<and> (\<forall>ms s'. 0 \<notin> mover ` set ms \<and> serial_run cell_ops good_port ms s = Some s' \<longrightarrow> finished s' = [])"
proof -
  have "map_option (\<lambda>s. (printing s 0, printing s 1, finished s)) (serial_run cell_ops good_port (Call 0 [''a'', ''b''] # replicate 3 (Go 0)) (serial_start cell_ops []))
     = Some (Writing True [''a'', ''b''] [''b''], Outside, [])" by code_simp
  then obtain s where s: "serial_run cell_ops good_port (Call 0 [''a'', ''b''] # replicate 3 (Go 0)) (serial_start cell_ops []) = Some s"
    "printing s 0 = Writing True [''a'', ''b''] [''b'']" "printing s 1 = Outside" "finished s = []" by auto
  have w: "\<forall>piece p. fst (uart_write_str good_port piece p)" by (simp add: good_port_def)
  have I: "idt_laws (idts demo_board)" using demo_board_laws by (simp add: board_laws_def)
  have v: "14 \<in> {3, 8, 14 :: nat}" by simp
  from fault_reports [OF I v serial_run_reach [OF s(1)] w s(3)] obtain msgs :: "string list list" where
    "\<forall>t ms s'. partial_message (printing s t) \<noteq> None \<and> t \<notin> mover ` set ms \<and> serial_run cell_ops good_port ms s = Some s' \<longrightarrow> finished s' = finished s" by blast
  moreover have "partial_message (printing s 0) \<noteq> None" using s(2) by simp
  ultimately have "\<forall>ms s'. 0 \<notin> mover ` set ms \<and> serial_run cell_ops good_port ms s = Some s' \<longrightarrow> finished s' = []" using s(4) by metis
  then show ?thesis using s(2) by blast
qed

end
