(* ===== verification/Boot_Tool.thy ===== *)
theory Boot_Tool
  imports Prelude "HOL-Library.Sublist"
begin

text \<open>
  The tool that builds the kernel and puts it on a disk (\<^verbatim>\<open>nacl_boot/src/main.rs\<close>): it runs \<^verbatim>\<open>cargo build\<close>, finds the
  path of the kernel in cargo's messages, copies the boot loader and the kernel below \<^verbatim>\<open>iso_root\<close> and starts qemu.

  The file system is a map from absolute paths to directories and files, without symbolic links. \<open>io n\<close> makes the \<open>n\<close>-th
  call of the operating system fail, for a copy after that many bytes. Programs that the tool
  runs are a parameter \<open>exec\<close>, and so is the search of the regex crate.
\<close>

section \<open>Files\<close>

type_synonym path = "string list"

datatype node = Dir | File string

record command =
  program :: string
  arguments :: "string list"
  environment :: "(string \<times> string) list"
  workdir :: path

record host =
  nodes :: "path \<Rightarrow> node option"
  calls :: nat
  started :: "command list"

datatype tool_error = Io | Env_Var | Exit_Status | No_Executable | Regex_Match | Running_Qemu | Qemu_Exit_Status | Panic

type_synonym 'a tool = "host \<Rightarrow> (tool_error + 'a) \<times> host"

definition bind_tool :: "(tool_error + 'a) \<times> host \<Rightarrow> ('a \<Rightarrow> 'b tool) \<Rightarrow> (tool_error + 'b) \<times> host" where
  "bind_tool rh f = (case rh of (Inl e, h) \<Rightarrow> (Inl e, h) | (Inr x, h) \<Rightarrow> f x h)"

text \<open>The components of a path: empty ones and \<^verbatim>\<open>.\<close> are skipped; \<^verbatim>\<open>..\<close> is the parent directory when a path is made absolute.\<close>

fun split_at :: "char \<Rightarrow> string \<Rightarrow> string list" where
  "split_at c [] = [[]]"
| "split_at c (x # xs) = (if x = c then [] # split_at c xs else (case split_at c xs of [] \<Rightarrow> [[x]] | p # ps \<Rightarrow> (x # p) # ps))"

definition components :: "string \<Rightarrow> path" where
  "components s = filter (\<lambda>c. c \<noteq> [] \<and> c \<noteq> ''.'') (split_at (CHR ''/'') s)"

definition resolve :: "path \<Rightarrow> string \<Rightarrow> path" where
  "resolve cwd s = foldl (\<lambda>p c. if c = ''..'' then butlast p else p @ [c]) (if take 1 s = ''/'' then [] else cwd) (components s)"

definition call :: "(nat \<Rightarrow> nat option) \<Rightarrow> host \<Rightarrow> nat option \<times> host" where
  "call io h = (io (calls h), h\<lparr>calls := Suc (calls h)\<rparr>)"

definition canonicalize :: "(nat \<Rightarrow> nat option) \<Rightarrow> path \<Rightarrow> string \<Rightarrow> path tool" where
  "canonicalize io cwd s h =
     (let (bad, h) = call io h; p = resolve cwd s
      in if bad = None \<and> nodes h p \<noteq> None then (Inr p, h) else (Inl Io, h))"

text \<open>A file system with the directory \<open>par\<close> and its parents.\<close>

definition with_dirs :: "path \<Rightarrow> (path \<Rightarrow> node option) \<Rightarrow> path \<Rightarrow> node option" where
  "with_dirs par ns = (\<lambda>q. if prefix q par then Some Dir else ns q)"

definition create_dir_all :: "(nat \<Rightarrow> nat option) \<Rightarrow> path \<Rightarrow> unit tool" where
  "create_dir_all io p h =
     (let (bad, h) = call io h
      in if bad = None \<and> (\<forall>q \<in> set (prefixes p). nodes h q = None \<or> nodes h q = Some Dir)
         then (Inr (), h\<lparr>nodes := with_dirs p (nodes h)\<rparr>) else (Inl Io, h))"

definition file_open :: "(nat \<Rightarrow> nat option) \<Rightarrow> path \<Rightarrow> unit tool" where
  "file_open io p h =
     (let (bad, h) = call io h in if bad = None \<and> nodes h p \<noteq> None then (Inr (), h) else (Inl Io, h))"

definition file_create :: "(nat \<Rightarrow> nat option) \<Rightarrow> path \<Rightarrow> unit tool" where
  "file_create io p h =
     (let (bad, h) = call io h
      in if bad = None \<and> p \<noteq> [] \<and> nodes h (butlast p) = Some Dir \<and> nodes h p \<noteq> Some Dir
         then (Inr (), h\<lparr>nodes := (nodes h)(p \<mapsto> File [])\<rparr>) else (Inl Io, h))"

text \<open>\<^verbatim>\<open>io::copy\<close> of an open file to a new one; reading a directory is an error.\<close>

definition io_copy :: "(nat \<Rightarrow> nat option) \<Rightarrow> path \<Rightarrow> path \<Rightarrow> unit tool" where
  "io_copy io src dst h =
     (let (bad, h) = call io h
      in case nodes h src of
           Some (File c) \<Rightarrow>
             (case bad of
                None \<Rightarrow> (Inr (), h\<lparr>nodes := (nodes h)(dst \<mapsto> File c)\<rparr>)
              | Some k \<Rightarrow> (Inl Io, h\<lparr>nodes := (nodes h)(dst \<mapsto> File (take k c))\<rparr>))
         | _ \<Rightarrow> (Inl Io, h))"

definition file_name :: "path \<Rightarrow> string option" where
  "file_name p = (if p = [] then None else Some (last p))"

section \<open>The disk image\<close>

definition boot_files :: "(string \<times> string) list" where
  "boot_files = [(''./limine/BOOTX64.EFI'', ''EFI/BOOT''), (''./limine/limine-uefi-cd.bin'', ''''), (''./limine/limine-bios-cd.bin'', ''''),
     (''./limine/limine-bios.sys'', ''''), (''./limine.conf'', '''')]"

definition image_path :: "path \<Rightarrow> string \<Rightarrow> string \<Rightarrow> path" where
  "image_path cwd dest name =
     (if dest = [] then resolve cwd (''./iso_root/'' @ name) else resolve cwd ''./iso_root'' @ components dest @ [name])"

definition copy_file :: "(nat \<Rightarrow> nat option) \<Rightarrow> path \<Rightarrow> string \<times> string \<Rightarrow> unit tool" where
  "copy_file io cwd fd h =
     bind_tool (canonicalize io cwd (fst fd) h) (\<lambda>file h.
       case file_name file of
         None \<Rightarrow> (Inl Panic, h)
       | Some name \<Rightarrow>
           let dest = image_path cwd (snd fd) name
           in bind_tool (create_dir_all io (butlast dest) h) (\<lambda>_ h.
              bind_tool (file_open io file h) (\<lambda>_ h.
              bind_tool (file_create io dest h) (\<lambda>_ h. io_copy io file dest h))))"

fun copy_files :: "(nat \<Rightarrow> nat option) \<Rightarrow> path \<Rightarrow> (string \<times> string) list \<Rightarrow> unit tool" where
  "copy_files io cwd [] h = (Inr (), h)"
| "copy_files io cwd (fd # fds) h = bind_tool (copy_file io cwd fd h) (\<lambda>_ h. copy_files io cwd fds h)"

definition create_disk_images :: "(nat \<Rightarrow> nat option) \<Rightarrow> path \<Rightarrow> string \<Rightarrow> unit tool" where
  "create_disk_images io cwd kernel_binary_path h =
     bind_tool (create_dir_all io (resolve cwd ''./iso_root/'') h) (\<lambda>_ h. copy_files io cwd (boot_files @ [(kernel_binary_path, '''')]) h)"

section \<open>The path of the kernel\<close>

definition quote :: char where "quote = CHR 0x22"
definition REGEX_HDR :: string where "REGEX_HDR = quote # ''executable'' @ [quote, CHR '':'', quote]"

text \<open>\<^verbatim>\<open>Range::advance_by\<close> and \<^verbatim>\<open>advance_back_by\<close>: an error if the range is too short.\<close>

definition advance_by :: "nat \<Rightarrow> nat \<times> nat \<Rightarrow> (nat \<times> nat) option" where
  "advance_by n r = (if n \<le> snd r - fst r then Some (fst r + n, snd r) else None)"

definition advance_back_by :: "nat \<Rightarrow> nat \<times> nat \<Rightarrow> (nat \<times> nat) option" where
  "advance_back_by n r = (if n \<le> snd r - fst r then Some (fst r, snd r - n) else None)"

definition str_slice :: "string \<Rightarrow> nat \<times> nat \<Rightarrow> string option" where
  "str_slice s r = (if fst r \<le> snd r \<and> snd r \<le> length s then Some (take (snd r - fst r) (drop (fst r) s)) else None)"

definition kernel_path :: "(string \<Rightarrow> (nat \<times> nat) option) \<Rightarrow> string \<Rightarrow> tool_error + string" where
  "kernel_path re_find output =
     (case re_find output of
        None \<Rightarrow> Inl No_Executable
      | Some r \<Rightarrow>
          (case advance_by (length REGEX_HDR) r of
             None \<Rightarrow> Inl Regex_Match
           | Some r \<Rightarrow>
               (case advance_back_by 1 r of
                  None \<Rightarrow> Inl Regex_Match
                | Some r \<Rightarrow> (case str_slice output r of None \<Rightarrow> Inl Panic | Some p \<Rightarrow> Inr p))))"

section \<open>The tool\<close>

definition RUN_ARGS :: "string list" where "RUN_ARGS = [''--no-reboot'', ''-s'']"

definition cargo_build :: "string \<Rightarrow> path \<Rightarrow> command" where
  "cargo_build cargo dir =
     \<lparr>program = cargo, arguments = [''build'', ''--release'', ''--target'', ''x86_64-unknown-none'', ''--message-format=json''],
       environment = [(''RUSTFLAGS'', ''-C relocation-model=static'')], workdir = dir\<rparr>"

definition run_qemu :: "path \<Rightarrow> command" where
  "run_qemu cwd = \<lparr>program = ''qemu-system-x86_64-uefi'',
     arguments = [''-enable-kvm'', ''-drive'', ''format=raw,file=fat:rw:iso_root'', ''-serial'', ''stdio'', ''-m'', ''1G''] @ RUN_ARGS, environment = [], workdir = cwd\<rparr>"

text \<open>The exit status of a program, its output and what it made of the file system; \<open>None\<close> if it cannot be started.\<close>

definition run_command :: "(command \<Rightarrow> (path \<Rightarrow> node option) \<Rightarrow> (bool \<times> string \<times> (path \<Rightarrow> node option)) option) \<Rightarrow> tool_error \<Rightarrow> tool_error \<Rightarrow> command \<Rightarrow> string tool" where
  "run_command exec no_start bad_exit c h =
     (case exec c (nodes h) of
        None \<Rightarrow> (Inl no_start, h)
      | Some (ok, out, ns) \<Rightarrow> (if ok then Inr out else Inl bad_exit, h\<lparr>nodes := ns, started := started h @ [c]\<rparr>))"

fun no_run :: "string list \<Rightarrow> tool_error + bool" where
  "no_run [] = Inr False"
| "no_run (arg # _) = (if arg = ''--no-run'' then Inr True else Inl Panic)"

definition tool_main :: "(nat \<Rightarrow> nat option) \<Rightarrow> (command \<Rightarrow> (path \<Rightarrow> node option) \<Rightarrow> (bool \<times> string \<times> (path \<Rightarrow> node option)) option) \<Rightarrow> (string \<Rightarrow> (nat \<times> nat) option)
    \<Rightarrow> path \<Rightarrow> string option \<Rightarrow> string list \<Rightarrow> unit tool" where
  "tool_main io exec re_find cwd cargo args h =
     (case cargo of
        None \<Rightarrow> (Inl Env_Var, h)
      | Some cargo \<Rightarrow>
          bind_tool (canonicalize io cwd ''./nacl'' h) (\<lambda>dir h.
          bind_tool (run_command exec Io Exit_Status (cargo_build cargo dir) h) (\<lambda>output h.
          bind_tool (kernel_path re_find output, h) (\<lambda>kernel_binary_path h.
          bind_tool (no_run args, h) (\<lambda>no_boot h.
          bind_tool (create_disk_images io cwd kernel_binary_path h) (\<lambda>_ h.
          if no_boot then (Inr (), h)
          else bind_tool (run_command exec Running_Qemu Qemu_Exit_Status (run_qemu cwd) h) (\<lambda>_ h. (Inr (), h))))))))"

section \<open>Paths\<close>

definition good_name :: "string \<Rightarrow> bool" where
  "good_name c \<longleftrightarrow> c \<noteq> [] \<and> c \<noteq> ''.'' \<and> c \<noteq> ''..'' \<and> CHR ''/'' \<notin> set c"

lemma split_at_no: "c \<notin> set s \<Longrightarrow> split_at c s = [s]"
  by (induction s) auto

lemma split_at_pieces: "x \<in> set (split_at c s) \<Longrightarrow> c \<notin> set x"
  by (induction s arbitrary: x) (auto split: if_splits list.splits)

lemma component_good: "\<lbrakk>x \<in> set (components s); x \<noteq> ''..''\<rbrakk> \<Longrightarrow> good_name x"
  by (auto simp: components_def good_name_def dest: split_at_pieces)

lemma resolve_good:
  assumes "\<forall>c \<in> set cwd. good_name c"
  shows "\<forall>c \<in> set (resolve cwd s). good_name c"
proof -
  have "\<forall>c \<in> set (foldl (\<lambda>p c. if c = ''..'' then butlast p else p @ [c]) p xs). good_name c"
    if "\<forall>c \<in> set p. good_name c" "\<forall>x \<in> set xs. x = ''..'' \<or> good_name x" for p xs
    using that
  proof (induction xs arbitrary: p)
    case (Cons a xs)
    have "\<forall>c \<in> set (if a = ''..'' then butlast p else p @ [a]). good_name c"
      using Cons.prems by (cases "a = ''..''") (simp_all add: in_set_butlastD)
    moreover have "\<forall>x \<in> set xs. x = ''..'' \<or> good_name x" using Cons.prems(2) by simp
    ultimately show ?case using Cons.IH unfolding foldl_Cons by blast
  qed simp
  moreover have "\<forall>x \<in> set (components s). x = ''..'' \<or> good_name x" using component_good by blast
  moreover have "\<forall>c \<in> set (if take 1 s = ''/'' then [] else cwd). good_name c" using assms by simp
  ultimately show ?thesis unfolding resolve_def by blast
qed

definition iso_root :: "path \<Rightarrow> path" where "iso_root cwd = cwd @ [''iso_root'']"

lemma resolve_iso_root: "resolve cwd ''./iso_root/'' = iso_root cwd" "resolve cwd ''./iso_root'' = iso_root cwd"
  by (simp_all add: resolve_def components_def iso_root_def)

lemma image_path_plain:
  assumes "good_name name"
  shows "image_path cwd [] name = iso_root cwd @ [name]"
proof -
  have "split_at (CHR ''/'') (''./iso_root/'' @ name) = [''.'', ''iso_root'', name]"
    using assms by (simp add: split_at_no good_name_def)
  then show ?thesis using assms by (simp add: image_path_def resolve_def components_def iso_root_def good_name_def)
qed

lemma image_path_efi: "image_path cwd ''EFI/BOOT'' name = iso_root cwd @ [''EFI'', ''BOOT'', name]"
  by (simp add: image_path_def resolve_iso_root components_def)

section \<open>What copying does\<close>

definition clear_dirs :: "path \<Rightarrow> (path \<Rightarrow> node option) \<Rightarrow> bool" where
  "clear_dirs par ns \<longleftrightarrow> (\<forall>q. prefix q par \<longrightarrow> ns q = None \<or> ns q = Some Dir)"

definition source_of :: "path \<Rightarrow> string \<times> string \<Rightarrow> path" where "source_of cwd fd = resolve cwd (fst fd)"
definition target_of :: "path \<Rightarrow> string \<times> string \<Rightarrow> path" where "target_of cwd fd = image_path cwd (snd fd) (last (source_of cwd fd))"

lemmas call_defs = call_def canonicalize_def create_dir_all_def file_open_def file_create_def io_copy_def file_name_def

lemma bind_tool_simps [simp]: "bind_tool (Inl e, h) f = (Inl e, h)" "bind_tool (Inr x, h) f = f x h"
  by (simp_all add: bind_tool_def)

lemma create_dir_all_cases:
  assumes "create_dir_all io par h = (r, h')"
  obtains "r = Inl Io" "nodes h' = nodes h" | "r = Inr ()" "nodes h' = with_dirs par (nodes h)" "clear_dirs par (nodes h)"
  using assms by (auto simp: create_dir_all_def call_def clear_dirs_def split: if_splits)

lemma copy_file_cases:
  assumes "copy_file io cwd fd h = (r, h')"
  obtains (none) "r \<noteq> Inr ()" "nodes h' = nodes h"
  | (dirs) "r \<noteq> Inr ()" "nodes h' = with_dirs (butlast (target_of cwd fd)) (nodes h)" "clear_dirs (butlast (target_of cwd fd)) (nodes h)"
  | (made) c where "nodes h' = (with_dirs (butlast (target_of cwd fd)) (nodes h))(target_of cwd fd \<mapsto> File c)" "clear_dirs (butlast (target_of cwd fd)) (nodes h)"
      "with_dirs (butlast (target_of cwd fd)) (nodes h) (target_of cwd fd) \<noteq> Some Dir"
      "r = Inr () \<longrightarrow> ((with_dirs (butlast (target_of cwd fd)) (nodes h))(target_of cwd fd \<mapsto> File [])) (source_of cwd fd) = Some (File c)"
proof -
  let ?p = "source_of cwd fd" and ?dst = "target_of cwd fd"
  let ?par = "butlast ?dst"
  obtain r1 h1 where c1: "canonicalize io cwd (fst fd) h = (r1, h1)" by fastforce
  then have n1: "nodes h1 = nodes h" "r1 = Inr ?p \<or> r1 = Inl Io" by (auto simp: canonicalize_def call_def source_of_def Let_def split: if_splits)
  show thesis
  proof (cases "r1 = Inr ?p \<and> ?p \<noteq> []")
    case False
    then show thesis using none n1 c1 assms by (auto simp: copy_file_def file_name_def)
  next
    case True
    obtain r2 h2 where c2: "create_dir_all io ?par h1 = (r2, h2)" by fastforce
    have rest: "bind_tool (r2, h2) (\<lambda>_ h. bind_tool (file_open io ?p h) (\<lambda>_ h. bind_tool (file_create io ?dst h) (\<lambda>_ h. io_copy io ?p ?dst h))) = (r, h')"
      using assms c1 c2 True by (simp add: copy_file_def file_name_def target_of_def Let_def)
    from c2 show thesis
    proof (cases rule: create_dir_all_cases)
      case 1
      then show thesis using none n1 rest by auto
    next
      case 2
      obtain r3 h3 where c3: "file_open io ?p h2 = (r3, h3)" by fastforce
      then have n3: "nodes h3 = nodes h2" "r3 = Inr () \<or> r3 = Inl Io" by (auto simp: file_open_def call_def split: if_splits)
      obtain r4 h4 where c4: "file_create io ?dst h3 = (r4, h4)" by fastforce
      show thesis
      proof (cases "r3 = Inr () \<and> r4 = Inr ()")
        case False
        have "nodes h4 = nodes h3 \<and> r4 = Inl Io" if "r4 \<noteq> Inr ()" using c4 that by (auto simp: file_create_def call_def split: if_splits)
        then show thesis using False dirs 2 n1 n3 rest c3 c4 by auto
      next
        case ok: True
        then have n4: "nodes h4 = (nodes h3)(?dst \<mapsto> File [])" "nodes h3 ?dst \<noteq> Some Dir" using c4 by (auto simp: file_create_def call_def split: if_splits)
        have cp: "io_copy io ?p ?dst h4 = (r, h')" using rest 2(1) c3 c4 ok by simp
        note w = 2(2) [unfolded n1(1)] n3(1) n4
        consider (new) c where "nodes h' = (nodes h4)(?dst \<mapsto> File c)" "r = Inr () \<longrightarrow> nodes h4 ?p = Some (File c)" | (old) "nodes h' = nodes h4" "r \<noteq> Inr ()"
          using cp by (auto simp: io_copy_def call_def split: option.splits node.splits)
        then show thesis
        proof cases
          case (new c)
          then show thesis using made [of c] w 2(3) n1(1) by simp
        next
          case old
          then show thesis using made [of "[]"] w 2(3) n1(1) by simp
        qed
      qed
    qed
  qed
qed

text \<open>Targets lie below \<^verbatim>\<open>iso_root\<close>, and the working directory exists.\<close>

definition inside :: "path \<Rightarrow> path \<Rightarrow> bool" where "inside cwd q \<longleftrightarrow> prefix (iso_root cwd) q"

definition cwd_ok :: "path \<Rightarrow> (path \<Rightarrow> node option) \<Rightarrow> bool" where
  "cwd_ok cwd ns \<longleftrightarrow> (\<forall>c \<in> set cwd. good_name c) \<and> (\<forall>q. prefix q cwd \<longrightarrow> ns q = Some Dir)"

definition image_ok :: "path \<Rightarrow> string \<times> string \<Rightarrow> bool" where
  "image_ok cwd fd \<longleftrightarrow> snd fd \<in> {[], ''EFI/BOOT''} \<and> source_of cwd fd \<noteq> []"

lemma target_inside:
  assumes "cwd_ok cwd ns" "image_ok cwd fd"
  obtains d name where "target_of cwd fd = iso_root cwd @ d @ [name]" "d = [] \<or> d = [''EFI'', ''BOOT'']" "name = last (source_of cwd fd)"
proof -
  have "good_name (last (source_of cwd fd))"
    using resolve_good [of cwd "fst fd"] assms unfolding cwd_ok_def image_ok_def source_of_def by (meson last_in_set)
  then show thesis using that [of "[]"] that [of "[''EFI'', ''BOOT'']"] assms(2) image_path_plain image_path_efi
    by (auto simp: target_of_def image_ok_def)
qed

lemma prefix_outside:
  assumes "\<not> inside cwd q" "prefix q (iso_root cwd @ d)"
  shows "prefix q cwd"
  using assms by (auto simp: inside_def iso_root_def prefix_append prefix_Cons)

lemma with_dirs_outside:
  assumes "cwd_ok cwd ns" "\<not> inside cwd q"
  shows "with_dirs (iso_root cwd @ d) ns q = ns q"
  using assms prefix_outside [OF assms(2)] by (auto simp: with_dirs_def cwd_ok_def)

lemma no_name: "file_name [] = None"
  by (simp add: file_name_def)

lemma copy_file_outside:
  assumes ok: "cwd_ok cwd (nodes h)" and c: "copy_file io cwd fd h = (r, h')" and d: "snd fd \<in> {[], ''EFI/BOOT''}" and q: "\<not> inside cwd q"
  shows "nodes h' q = nodes h q"
proof (cases "source_of cwd fd = []")
  case True
  then show ?thesis using c no_name
    by (auto simp: copy_file_def canonicalize_def call_def source_of_def Let_def split: if_splits)
next
  case False
  then have "image_ok cwd fd" using d by (simp add: image_ok_def)
  from target_inside [OF ok this] obtain d name where t: "target_of cwd fd = iso_root cwd @ d @ [name]" by metis
  then have "butlast (target_of cwd fd) = iso_root cwd @ d" "q \<noteq> target_of cwd fd" using q by (auto simp: butlast_append inside_def)
  then show ?thesis using with_dirs_outside [OF ok q] by (cases rule: copy_file_cases [OF c]) auto
qed

lemma cwd_ok_outside:
  assumes "cwd_ok cwd ns" "\<And>q. \<not> inside cwd q \<Longrightarrow> ns' q = ns q"
  shows "cwd_ok cwd ns'"
proof -
  have "\<not> inside cwd q" if "prefix q cwd" for q using that by (auto simp: inside_def iso_root_def prefix_def)
  then show ?thesis using assms by (simp add: cwd_ok_def)
qed

lemma copy_files_outside:
  assumes "cwd_ok cwd (nodes h)" "copy_files io cwd fds h = (r, h')" "\<forall>fd \<in> set fds. snd fd \<in> {[], ''EFI/BOOT''}" "\<not> inside cwd q"
  shows "nodes h' q = nodes h q"
  using assms
proof (induction fds arbitrary: h)
  case (Cons fd fds)
  obtain r1 h1 where c: "copy_file io cwd fd h = (r1, h1)" by fastforce
  have out: "nodes h1 q = nodes h q" if "\<not> inside cwd q" for q using copy_file_outside [OF Cons.prems(1) c _ that] Cons.prems(3) by simp
  then have ok: "cwd_ok cwd (nodes h1)" using cwd_ok_outside [OF Cons.prems(1)] by blast
  show ?case
  proof (cases r1)
    case (Inl e)
    then show ?thesis using Cons.prems(2,4) c out by simp
  next
    case (Inr u)
    then show ?thesis using Cons.IH [OF ok] Cons.prems(2-4) c out by simp
  qed
qed simp

text \<open>A file that is copied stays as it is when the others are.\<close>

lemma copy_files_kept:
  assumes "copy_files io cwd fds h = (Inr (), h')" "nodes h x = Some (File c)" "x \<notin> target_of cwd ` set fds"
  shows "nodes h' x = Some (File c)"
  using assms
proof (induction fds arbitrary: h)
  case (Cons fd fds)
  obtain r1 h1 where f: "copy_file io cwd fd h = (r1, h1)" by fastforce
  then have r1: "r1 = Inr ()" using Cons.prems(1) by (cases r1) simp_all
  from f have "nodes h1 x = Some (File c)"
  proof (cases rule: copy_file_cases)
    case (made c')
    then show ?thesis using Cons.prems(2,3) by (auto simp: with_dirs_def clear_dirs_def)
  qed (use r1 in simp_all)
  then show ?case using Cons.IH [of h1] Cons.prems f r1 by simp
qed simp

lemma copy_files_contents:
  assumes ok: "cwd_ok cwd (nodes h)" and c: "copy_files io cwd fds h = (Inr (), h')" and im: "\<forall>fd \<in> set fds. image_ok cwd fd \<and> \<not> inside cwd (source_of cwd fd)"
    and d: "distinct (map (target_of cwd) fds)" and fd: "fd \<in> set fds"
  shows "\<exists>b. nodes h (source_of cwd fd) = Some (File b) \<and> nodes h' (target_of cwd fd) = Some (File b)"
  using assms
proof (induction fds arbitrary: h)
  case (Cons g fds)
  obtain r1 h1 where f: "copy_file io cwd g h = (r1, h1)" by fastforce
  then have r1: "r1 = Inr ()" using Cons.prems(2) by (cases r1) simp_all
  then have cs: "copy_files io cwd fds h1 = (Inr (), h')" using Cons.prems(2) f by simp
  have g: "image_ok cwd g" "\<not> inside cwd (source_of cwd g)" using Cons.prems(3) by simp_all
  then have out: "nodes h1 q = nodes h q" if "\<not> inside cwd q" for q using copy_file_outside [OF Cons.prems(1) f _ that] by (simp add: image_ok_def)
  have ok1: "cwd_ok cwd (nodes h1)" using cwd_ok_outside [OF Cons.prems(1) out] by blast
  show ?case
  proof (cases "fd = g")
    case False
    then have "fd \<in> set fds" using Cons.prems(5) by simp
    then show ?thesis using Cons.IH [OF ok1 cs] Cons.prems(3,4) out by auto
  next
    case True
    from target_inside [OF Cons.prems(1) g(1)] obtain d name where t: "target_of cwd g = iso_root cwd @ d @ [name]" by metis
    then have t': "butlast (target_of cwd g) = iso_root cwd @ d" "source_of cwd g \<noteq> target_of cwd g" using g(2) by (auto simp: butlast_append inside_def)
    from f obtain b where "nodes h (source_of cwd g) = Some (File b)" "nodes h1 (target_of cwd g) = Some (File b)"
    proof (cases rule: copy_file_cases)
      case (made b)
      then show ?thesis using that [of b] r1 t' with_dirs_outside [OF Cons.prems(1) g(2)] by simp
    qed (use r1 in simp_all)
    moreover have "target_of cwd g \<notin> target_of cwd ` set fds" using Cons.prems(4) by simp
    ultimately show ?thesis using copy_files_kept [OF cs] True by auto
  qed
qed simp

text \<open>Copying works when nothing is in the way.\<close>

definition room_for :: "path \<Rightarrow> (path \<Rightarrow> node option) \<Rightarrow> path \<Rightarrow> bool" where
  "room_for cwd ns t \<longleftrightarrow> clear_dirs (butlast t) ns \<and> ns t \<noteq> Some Dir"

lemma copy_file_succeeds:
  assumes ok: "cwd_ok cwd (nodes h)" and io: "\<forall>n. io n = None" and im: "image_ok cwd fd" "\<not> inside cwd (source_of cwd fd)"
    and src: "nodes h (source_of cwd fd) = Some (File b)" and room: "room_for cwd (nodes h) (target_of cwd fd)"
  shows "\<exists>h'. copy_file io cwd fd h = (Inr (), h') \<and> nodes h' = (with_dirs (butlast (target_of cwd fd)) (nodes h))(target_of cwd fd \<mapsto> File b)"
proof -
  from target_inside [OF ok im(1)] obtain d name where t: "target_of cwd fd = iso_root cwd @ d @ [name]" by metis
  have p: "source_of cwd fd \<noteq> []" "source_of cwd fd \<noteq> target_of cwd fd" using im t by (auto simp: image_ok_def inside_def)
  have b: "butlast (target_of cwd fd) = iso_root cwd @ d" using t by (simp add: butlast_append)
  have np: "\<not> prefix (target_of cwd fd) (butlast (target_of cwd fd))" "target_of cwd fd \<noteq> []"
    unfolding b using t by (auto dest: prefix_length_le)
  have w: "with_dirs (butlast (target_of cwd fd)) (nodes h) (source_of cwd fd) = Some (File b)" unfolding b using with_dirs_outside [OF ok im(2)] src by simp
  have cl: "\<forall>q \<in> set (prefixes (butlast (target_of cwd fd))). nodes h q = None \<or> nodes h q = Some Dir" using room by (simp add: room_for_def clear_dirs_def)
  have nd: "nodes h (target_of cwd fd) \<noteq> Some Dir" using room by (simp add: room_for_def)
  have "image_path cwd (snd fd) (last (source_of cwd fd)) = target_of cwd fd" by (simp add: target_of_def)
  then show ?thesis
    using io p src w cl nd np by (simp add: copy_file_def call_defs Let_def source_of_def [symmetric] with_dirs_def)
qed

lemma copy_files_succeeds:
  assumes "cwd_ok cwd (nodes h)" "\<forall>n. io n = None" "\<forall>fd \<in> set fds. image_ok cwd fd \<and> \<not> inside cwd (source_of cwd fd)"
    "\<forall>fd \<in> set fds. \<exists>b. nodes h (source_of cwd fd) = Some (File b)" "\<forall>fd \<in> set fds. room_for cwd (nodes h) (target_of cwd fd)"
    "\<forall>f \<in> set fds. \<forall>g \<in> set fds. \<not> prefix (target_of cwd f) (butlast (target_of cwd g))"
  shows "\<exists>h'. copy_files io cwd fds h = (Inr (), h')"
  using assms
proof (induction fds arbitrary: h)
  case (Cons fd fds)
  obtain b where b: "nodes h (source_of cwd fd) = Some (File b)" using Cons.prems(4) by auto
  obtain h1 where h1: "copy_file io cwd fd h = (Inr (), h1)" "nodes h1 = (with_dirs (butlast (target_of cwd fd)) (nodes h))(target_of cwd fd \<mapsto> File b)"
    using copy_file_succeeds [OF Cons.prems(1,2) _ _ b] Cons.prems(3,5) by auto
  have out: "nodes h1 q = nodes h q" if "\<not> inside cwd q" for q using copy_file_outside [OF Cons.prems(1) h1(1) _ that] Cons.prems(3) by (simp add: image_ok_def)
  have "room_for cwd (nodes h1) (target_of cwd g)" if "g \<in> set fds" for g
    using that Cons.prems(5,6) unfolding room_for_def clear_dirs_def h1(2) by (auto simp: with_dirs_def)
  moreover have "cwd_ok cwd (nodes h1)" using cwd_ok_outside [OF Cons.prems(1) out] by blast
  moreover have "\<forall>g \<in> set fds. \<exists>b. nodes h1 (source_of cwd g) = Some (File b)" using Cons.prems(3,4) out by auto
  ultimately have "\<exists>h'. copy_files io cwd fds h1 = (Inr (), h')" by (intro Cons.IH) (use Cons.prems(2,3,6) in simp_all)
  then show ?case using h1(1) by simp
qed simp

section \<open>The files of the image\<close>

definition image_files :: "string \<Rightarrow> (string \<times> string) list" where
  "image_files bin = boot_files @ [(bin, [])]"

definition reserved :: "string set" where
  "reserved = {''limine-uefi-cd.bin'', ''limine-bios-cd.bin'', ''limine-bios.sys'', ''limine.conf'', ''EFI''}"

lemma boot_sources:
  "map (source_of cwd) boot_files = map ((@) cwd) [[''limine'', ''BOOTX64.EFI''], [''limine'', ''limine-uefi-cd.bin''], [''limine'', ''limine-bios-cd.bin''],
     [''limine'', ''limine-bios.sys''], [''limine.conf'']]"
  by (simp add: boot_files_def source_of_def resolve_def components_def)

lemma source_outside: "\<lbrakk>fd \<in> set boot_files\<rbrakk> \<Longrightarrow> \<not> inside cwd (source_of cwd fd) \<and> source_of cwd fd \<noteq> []"
proof -
  assume "fd \<in> set boot_files"
  then have "source_of cwd fd \<in> set (map (source_of cwd) boot_files)" by simp
  then show ?thesis unfolding boot_sources by (auto simp: inside_def iso_root_def)
qed

lemma boot_targets:
  assumes "cwd_ok cwd ns" "source_of cwd (bin, []) \<noteq> []"
  shows "map (target_of cwd) (image_files bin) = map ((@) (iso_root cwd)) [[''EFI'', ''BOOT'', ''BOOTX64.EFI''], [''limine-uefi-cd.bin''], [''limine-bios-cd.bin''],
     [''limine-bios.sys''], [''limine.conf''], [last (source_of cwd (bin, []))]]"
proof -
  have "good_name (last (source_of cwd (bin, [])))"
    using resolve_good [of cwd bin] assms unfolding cwd_ok_def source_of_def by (metis fst_conv last_in_set)
  moreover have "good_name x" if "x \<in> {''limine-uefi-cd.bin'', ''limine-bios-cd.bin'', ''limine-bios.sys'', ''limine.conf''}" for x
    using that by (auto simp: good_name_def)
  ultimately show ?thesis using boot_sources [of cwd]
    by (simp add: image_files_def boot_files_def target_of_def image_path_efi image_path_plain)
qed

lemma image_files_ok:
  assumes "source_of cwd (bin, []) \<noteq> []" "\<not> inside cwd (source_of cwd (bin, []))" "fd \<in> set (image_files bin)"
  shows "image_ok cwd fd \<and> \<not> inside cwd (source_of cwd fd)"
proof (cases "fd = (bin, [])")
  case False
  then have "fd \<in> set boot_files" using assms(3) by (simp add: image_files_def)
  moreover from this have "snd fd \<in> {[], ''EFI/BOOT''}" by (auto simp: boot_files_def)
  ultimately show ?thesis using source_outside by (auto simp: image_ok_def)
qed (use assms in \<open>simp add: image_ok_def\<close>)

lemma image_targets:
  assumes "cwd_ok cwd ns" "source_of cwd (bin, []) \<noteq> []" "last (source_of cwd (bin, [])) \<notin> reserved"
  shows "distinct (map (target_of cwd) (image_files bin))"
    "\<lbrakk>f \<in> set (image_files bin); g \<in> set (image_files bin)\<rbrakk> \<Longrightarrow> \<not> prefix (target_of cwd f) (butlast (target_of cwd g))"
    "f \<in> set (image_files bin) \<Longrightarrow> inside cwd (target_of cwd f) \<and> (\<exists>d. butlast (target_of cwd f) = iso_root cwd @ d)"
proof -
  note t = boot_targets [OF assms(1,2)]
  show "distinct (map (target_of cwd) (image_files bin))" unfolding t using assms(3) by (auto simp: reserved_def)
  have m: "target_of cwd f \<in> set (map ((@) (iso_root cwd)) [[''EFI'', ''BOOT'', ''BOOTX64.EFI''], [''limine-uefi-cd.bin''], [''limine-bios-cd.bin''],
     [''limine-bios.sys''], [''limine.conf''], [last (source_of cwd (bin, []))]])" if "f \<in> set (image_files bin)" for f
    unfolding t [symmetric] using that by simp
  show "\<not> prefix (target_of cwd f) (butlast (target_of cwd g))" if "f \<in> set (image_files bin)" "g \<in> set (image_files bin)"
    using m [OF that(1)] m [OF that(2)] assms(3) by (auto simp: butlast_append reserved_def)
  show "inside cwd (target_of cwd f) \<and> (\<exists>d. butlast (target_of cwd f) = iso_root cwd @ d)" if "f \<in> set (image_files bin)"
    using m [OF that] by (auto simp: inside_def butlast_append)
qed

section \<open>The regular expression\<close>

text \<open>
  What the regex crate documents of a search for \<^verbatim>\<open>"executable":".+?"\<close>: the leftmost match, and of those the shortest, because \<^verbatim>\<open>+?\<close> is lazy;
  \<^verbatim>\<open>.\<close> is any character but a newline.
\<close>

definition re_match :: "string \<Rightarrow> nat \<Rightarrow> nat \<Rightarrow> bool" where
  "re_match s i j \<longleftrightarrow> i + length REGEX_HDR + 2 \<le> j \<and> j \<le> length s \<and> take (length REGEX_HDR) (drop i s) = REGEX_HDR
     \<and> CHR 0x0A \<notin> set (take (j - 1 - (i + length REGEX_HDR)) (drop (i + length REGEX_HDR) s)) \<and> s ! (j - 1) = quote"

definition regex_laws :: "(string \<Rightarrow> (nat \<times> nat) option) \<Rightarrow> bool" where
  "regex_laws re_find \<longleftrightarrow> (\<forall>s. case re_find s of
     None \<Rightarrow> \<forall>i j. \<not> re_match s i j
   | Some (i, j) \<Rightarrow> re_match s i j \<and> (\<forall>i' j'. re_match s i' j' \<longrightarrow> i < i' \<or> i = i' \<and> j \<le> j'))"

definition all_matches :: "string \<Rightarrow> (nat \<times> nat) list" where
  "all_matches s = [(i, j). i \<leftarrow> [0..<length s], j \<leftarrow> [0..<Suc (length s)], re_match s i j]"

definition first_match :: "string \<Rightarrow> (nat \<times> nat) option" where
  "first_match s = (case all_matches s of [] \<Rightarrow> None | m # _ \<Rightarrow> Some m)"

lemma re_match_range: "re_match s i j \<Longrightarrow> i < length s \<and> j \<le> length s"
  by (simp add: re_match_def)

lemma sorted_pairs:
  "sorted_wrt (\<lambda>a b. fst a < fst b \<or> fst a = fst b \<and> snd a < (snd b :: nat)) [(i, j). i \<leftarrow> [a..<b], j \<leftarrow> [0..<n], P i j]"
proof (induction b)
  case (Suc b)
  have "sorted_wrt (\<lambda>a b. fst a < fst b \<or> fst a = fst b \<and> snd a < (snd b :: nat)) [(b, j). j \<leftarrow> [0..<n], P b j]"
    by (induction n) (auto simp: sorted_wrt_append)
  then show ?case using Suc by (auto simp: sorted_wrt_append)
qed simp

lemma first_match_laws: "regex_laws first_match"
  unfolding regex_laws_def
proof
  fix s
  have mem: "(i, j) \<in> set (all_matches s) \<longleftrightarrow> re_match s i j" for i j
    unfolding all_matches_def using re_match_range [of s i j] by (cases "j = length s") (auto intro!: bexI [of _ i])
  have srt: "sorted_wrt (\<lambda>a b. fst a < fst b \<or> fst a = fst b \<and> snd a < snd b) (all_matches s)" unfolding all_matches_def by (rule sorted_pairs)
  show "case first_match s of None \<Rightarrow> \<forall>i j. \<not> re_match s i j
   | Some (i, j) \<Rightarrow> re_match s i j \<and> (\<forall>i' j'. re_match s i' j' \<longrightarrow> i < i' \<or> i = i' \<and> j \<le> j')"
  proof (cases "all_matches s")
    case Nil
    then show ?thesis using mem by (simp add: first_match_def)
  next
    case (Cons m ms)
    obtain i j where m: "m = (i, j)" by fastforce
    have "re_match s i j" using mem [of i j] unfolding Cons m by simp
    moreover have "i < i' \<or> i = i' \<and> j \<le> j'" if "re_match s i' j'" for i' j'
    proof -
      have "(i', j') = (i, j) \<or> (i', j') \<in> set ms" using mem [of i' j'] that unfolding Cons m by simp
      then show ?thesis using srt unfolding Cons m by auto
    qed
    ultimately show ?thesis unfolding first_match_def Cons m by simp
  qed
qed

lemma find_message:
  assumes laws: "regex_laws re_find" and out: "output = before @ REGEX_HDR @ path @ quote # rest"
    and p: "path \<noteq> []" "quote \<notin> set path" "CHR 0x0A \<notin> set path"
    and first: "\<forall>i < length before. take (length REGEX_HDR) (drop i output) \<noteq> REGEX_HDR"
  shows "re_find output = Some (length before, length before + length REGEX_HDR + length path + 1)"
proof -
  let ?n = "length REGEX_HDR" and ?b = "length before"
  have d: "drop ?b output = REGEX_HDR @ path @ quote # rest" "drop (?b + ?n) output = path @ quote # rest" using out by (simp_all flip: drop_drop)
  have nth: "output ! (?b + ?n + k) = (path @ quote # rest) ! k" for k using out by (simp add: nth_append)
  have m: "re_match output ?b (?b + ?n + length path + 1)"
    using d p nth [of "length path"] out by (auto simp: re_match_def Suc_le_eq)
  have law: "case re_find output of None \<Rightarrow> \<forall>i j. \<not> re_match output i j
    | Some (i, j) \<Rightarrow> re_match output i j \<and> (\<forall>i' j'. re_match output i' j' \<longrightarrow> i < i' \<or> i = i' \<and> j \<le> j')"
    using laws unfolding regex_laws_def by blast
  obtain i j where f: "re_find output = Some (i, j)" "re_match output i j" "\<And>i' j'. re_match output i' j' \<Longrightarrow> i < i' \<or> i = i' \<and> j \<le> j'"
    using law m by (auto split: option.splits)
  have "\<not> i < ?b" using first f(2) by (auto simp: re_match_def)
  then have i: "i = ?b" "j \<le> ?b + ?n + length path + 1" using f(3) [OF m] by auto
  have j: "?b + ?n + 2 \<le> j" "output ! (j - 1) = quote" using f(2) i(1) by (simp_all add: re_match_def)
  have "\<not> j - 1 < ?b + ?n + length path"
  proof
    assume lt: "j - 1 < ?b + ?n + length path"
    obtain k where k: "j - 1 = ?b + ?n + k" using le_Suc_ex [OF j(1)] by auto
    then have "path ! k = quote" "k < length path" using j(2) nth [of k] lt by (simp_all add: nth_append)
    then show False using p(2) nth_mem by metis
  qed
  then have "j = ?b + ?n + length path + 1" using i(2) j(1) by linarith
  then show ?thesis using f(1) i(1) by simp
qed

section \<open>Properties\<close>

lemma disk_image:
  assumes ok: "cwd_ok cwd (nodes h)" and k: "source_of cwd (bin, []) \<noteq> []" "\<not> inside cwd (source_of cwd (bin, []))"
    "last (source_of cwd (bin, [])) \<notin> reserved" and run: "create_disk_images io cwd bin h = (r, h')"
  shows "\<lbrakk>r = Inr (); fd \<in> set (image_files bin)\<rbrakk> \<Longrightarrow>
      \<exists>b. nodes h (source_of cwd fd) = Some (File b) \<and> nodes h' (target_of cwd fd) = Some (File b)"
    "\<not> inside cwd q \<Longrightarrow> nodes h' q = nodes h q"
    "\<lbrakk>\<forall>n. io n = None; \<forall>q. inside cwd q \<longrightarrow> nodes h q = None;
      \<forall>fd \<in> set (image_files bin). \<exists>b. nodes h (source_of cwd fd) = Some (File b)\<rbrakk> \<Longrightarrow> r = Inr ()"
proof -
  obtain r1 h1 where d: "create_dir_all io (iso_root cwd) h = (r1, h1)" by fastforce
  have c: "copy_files io cwd (image_files bin) h1 = (r, h')" if "r1 = Inr ()"
    using run d that by (simp add: create_disk_images_def resolve_iso_root image_files_def)
  have fail: "h' = h1 \<and> r = Inl e" if "r1 = Inl e" for e using run d that by (simp add: create_disk_images_def resolve_iso_root)
  have out: "nodes h1 q = nodes h q" if "\<not> inside cwd q" for q
    using with_dirs_outside [OF ok that, of "[]"] by (cases rule: create_dir_all_cases [OF d]) auto
  have ok1: "cwd_ok cwd (nodes h1)" using cwd_ok_outside [OF ok out] by blast
  note im = image_files_ok [OF k(1,2)] and tg = image_targets [OF ok1 k(1,3)]
  show "nodes h' q = nodes h q" if "\<not> inside cwd q"
    using copy_files_outside [OF ok1 c _ that] fail out [OF that] im by (cases r1) (auto simp: image_ok_def)
  show "\<exists>b. nodes h (source_of cwd fd) = Some (File b) \<and> nodes h' (target_of cwd fd) = Some (File b)"
    if "r = Inr ()" "fd \<in> set (image_files bin)"
  proof -
    have "r1 = Inr ()" using fail that(1) by (cases r1) auto
    then show ?thesis using copy_files_contents [OF ok1 _ _ tg(1) that(2), of io h'] c im out that by auto
  qed
  assume io: "\<forall>n. io n = None" and fresh: "\<forall>q. inside cwd q \<longrightarrow> nodes h q = None"
    and src: "\<forall>fd \<in> set (image_files bin). \<exists>b. nodes h (source_of cwd fd) = Some (File b)"
  have free: "nodes h q = None \<or> nodes h q = Some Dir" if "prefix q (iso_root cwd @ d)" for q d
    using fresh that prefix_outside [of cwd q d] ok by (auto simp: cwd_ok_def)
  then have h1: "r1 = Inr ()" "nodes h1 = with_dirs (iso_root cwd) (nodes h)" using d io free [of _ "[]"] by (auto simp: create_dir_all_def call_def)
  have "room_for cwd (nodes h1) (target_of cwd fd)" if fd: "fd \<in> set (image_files bin)" for fd
  proof -
    obtain d where "butlast (target_of cwd fd) = iso_root cwd @ d" using tg(3) [OF fd] by blast
    moreover have "\<not> prefix (target_of cwd fd) (iso_root cwd)" using tg(2) [OF fd fd] calculation by (metis prefix_prefix)
    ultimately show ?thesis using free tg(3) [OF fd] fresh by (auto simp: room_for_def clear_dirs_def h1(2) with_dirs_def)
  qed
  then have "\<exists>h2. copy_files io cwd (image_files bin) h1 = (Inr (), h2)"
    by (intro copy_files_succeeds [OF ok1 io]) (use im src out tg(2) in auto)
  then show "r = Inr ()" using c [OF h1(1)] by auto
qed

text \<open>
  C31: \<open>create_disk_images\<close> puts the boot loader, its configuration and the kernel below \<^verbatim>\<open>iso_root\<close>. When it returns without an error, every
  file of the image has the contents of its source; whatever fails on the way, nothing outside \<^verbatim>\<open>iso_root\<close> is changed;
  and it does return without an error when \<^verbatim>\<open>iso_root\<close> does not exist yet, all sources are files and no call of the operating system fails.
  The kernel may have any name but those of the other files, and lies outside \<^verbatim>\<open>iso_root\<close>.
\<close>

theorem disk_image_complete:
  assumes "cwd_ok cwd (nodes h)" "source_of cwd (bin, []) \<noteq> []" "\<not> inside cwd (source_of cwd (bin, []))"
    "last (source_of cwd (bin, [])) \<notin> reserved" "create_disk_images io cwd bin h = (r, h')"
  shows "(\<forall>q. \<not> inside cwd q \<longrightarrow> nodes h' q = nodes h q)
    \<and> (r = Inr () \<longrightarrow> (\<forall>fd \<in> set (image_files bin).
         \<exists>b. nodes h (source_of cwd fd) = Some (File b) \<and> nodes h' (target_of cwd fd) = Some (File b)))
    \<and> ((\<forall>n. io n = None) \<and> (\<forall>q. inside cwd q \<longrightarrow> nodes h q = None)
         \<and> (\<forall>fd \<in> set (image_files bin). \<exists>b. nodes h (source_of cwd fd) = Some (File b)) \<longrightarrow> r = Inr ())"
  using disk_image [OF assms] by blast

text \<open>One run with a kernel outside the image, in an otherwise empty project.\<close>

definition demo_host :: host where
  "demo_host = \<lparr>nodes = (\<lambda>q. if q = [] then Some Dir else if q \<in> set ([''k''] # map (source_of []) boot_files) then Some (File (last q)) else None),
     calls = 0, started = []\<rparr>"

theorem disk_image_complete_witness:
  "fst (create_disk_images (\<lambda>_. None) [] ''k'' demo_host) = Inr ()
   \<and> (\<exists>b. nodes (snd (create_disk_images (\<lambda>_. None) [] ''k'' demo_host)) (target_of [] (''k'', [])) = Some (File b))"
proof -
  have k: "source_of [] (''k'', []) = [''k'']" by (simp add: source_of_def resolve_def components_def)
  have sources: "map (source_of []) boot_files = [[''limine'', ''BOOTX64.EFI''], [''limine'', ''limine-uefi-cd.bin''], [''limine'', ''limine-bios-cd.bin''],
     [''limine'', ''limine-bios.sys''], [''limine.conf'']]" using boot_sources [of "[]"] by simp
  have ok: "cwd_ok [] (nodes demo_host)" by (simp add: cwd_ok_def demo_host_def)
  have c: "source_of [] (''k'', []) \<noteq> []" "\<not> inside [] (source_of [] (''k'', []))" "last (source_of [] (''k'', [])) \<notin> reserved"
    unfolding k by (simp_all add: inside_def iso_root_def reserved_def)
  obtain r h' where run: "create_disk_images (\<lambda>_. None) [] ''k'' demo_host = (r, h')" by fastforce
  note d = disk_image_complete [OF ok c run]
  have "\<forall>q. inside [] q \<longrightarrow> nodes demo_host q = None" unfolding demo_host_def sources by (auto simp: inside_def iso_root_def prefix_def)
  moreover have "\<exists>b. nodes demo_host (source_of [] fd) = Some (File b)" if "fd \<in> set (image_files ''k'')" for fd
  proof -
    have "source_of [] fd \<in> set ([''k''] # map (source_of []) boot_files)" using that k by (auto simp: image_files_def)
    moreover from this have "source_of [] fd \<noteq> []" unfolding sources by auto
    ultimately show ?thesis by (simp add: demo_host_def)
  qed
  ultimately have r: "r = Inr ()" using d by simp
  have "(''k'', []) \<in> set (image_files ''k'')" by (simp add: image_files_def)
  then have "\<exists>b. nodes h' (target_of [] (''k'', [])) = Some (File b)" using d r by blast
  then show ?thesis using run r by simp
qed

lemma kernel_path_result:
  assumes laws: "regex_laws re_find"
  shows "\<lbrakk>output = before @ REGEX_HDR @ path @ quote # rest; path \<noteq> []; quote \<notin> set path; CHR 0x0A \<notin> set path;
      \<forall>i < length before. take (length REGEX_HDR) (drop i output) \<noteq> REGEX_HDR\<rbrakk> \<Longrightarrow> kernel_path re_find output = Inr path"
    "kernel_path re_find output = Inl e \<Longrightarrow> e = No_Executable \<and> (\<forall>i j. \<not> re_match output i j)"
proof -
  show "kernel_path re_find output = Inr path"
    if m: "output = before @ REGEX_HDR @ path @ quote # rest" "path \<noteq> []" "quote \<notin> set path" "CHR 0x0A \<notin> set path"
      "\<forall>i < length before. take (length REGEX_HDR) (drop i output) \<noteq> REGEX_HDR"
    using find_message [OF laws m] m(1) by (simp add: kernel_path_def advance_by_def advance_back_by_def str_slice_def)
  assume e: "kernel_path re_find output = Inl e"
  have law: "case re_find output of None \<Rightarrow> \<forall>i j. \<not> re_match output i j
    | Some (i, j) \<Rightarrow> re_match output i j \<and> (\<forall>i' j'. re_match output i' j' \<longrightarrow> i < i' \<or> i = i' \<and> j \<le> j')"
    using laws unfolding regex_laws_def by blast
  show "e = No_Executable \<and> (\<forall>i j. \<not> re_match output i j)"
  proof (cases "re_find output")
    case None
    then show ?thesis using e law by (simp add: kernel_path_def)
  next
    case (Some m)
    obtain i j where m: "m = (i, j)" by fastforce
    then have "i + length REGEX_HDR + 2 \<le> j" "j \<le> length output" using Some law by (simp_all add: re_match_def)
    then have "length REGEX_HDR \<le> j - i" "1 \<le> j - (i + length REGEX_HDR)" "i + length REGEX_HDR \<le> j - 1" "j - 1 \<le> length output" by simp_all
    then show ?thesis using e Some m by (simp add: kernel_path_def advance_by_def advance_back_by_def str_slice_def)
  qed
qed

text \<open>
  C32: the tool finds the kernel that cargo reports: when the first \<^verbatim>\<open>"executable":"\<close> in cargo's output is followed by a path
  without quotes and line breaks and a closing quote, the path that is used is exactly that one. In no case does the arithmetic on the range
  of the match fail or slice out of bounds; without a match the tool reports that no executable was generated.
\<close>

theorem kernel_path_found:
  assumes "regex_laws re_find"
  shows "(\<forall>before path rest. output = before @ REGEX_HDR @ path @ quote # rest \<and> path \<noteq> [] \<and> quote \<notin> set path \<and> CHR 0x0A \<notin> set path
        \<and> (\<forall>i < length before. take (length REGEX_HDR) (drop i output) \<noteq> REGEX_HDR) \<longrightarrow> kernel_path re_find output = Inr path)
    \<and> (\<forall>e. kernel_path re_find output = Inl e \<longrightarrow> e = No_Executable \<and> (\<forall>i j. \<not> re_match output i j))"
  using kernel_path_result [OF assms] by blast

theorem kernel_path_found_witness:
  "kernel_path first_match (REGEX_HDR @ ''/k'' @ [quote]) = Inr ''/k''"
  using kernel_path_found [OF first_match_laws, of "REGEX_HDR @ ''/k'' @ [quote]", THEN conjunct1, rule_format, of "[]" "''/k''" "[]"] by (simp add: quote_def)

section \<open>The order of the steps\<close>

lemma started_kept:
  "started (snd (canonicalize io cwd f h)) = started h" "started (snd (create_disk_images io cwd bin h)) = started h"
proof -
  have d: "started (snd (create_dir_all io p h)) = started h" for p h by (simp add: create_dir_all_def call_def)
  show c: "started (snd (canonicalize io cwd f h)) = started h" for f h by (simp add: canonicalize_def call_def Let_def)
  have b: "started (snd (bind_tool rh g)) = n" if "started (snd rh) = n" "\<And>x h. started h = n \<Longrightarrow> started (snd (g x h)) = n" for rh :: "(tool_error + 'x) \<times> host" and g :: "'x \<Rightarrow> unit tool" and n
    using that by (auto simp: bind_tool_def split: sum.splits prod.splits)
  have o: "started (snd (file_open io p h)) = started h" "started (snd (file_create io p h)) = started h" "started (snd (io_copy io p q h)) = started h" for p q h
    by (simp_all add: file_open_def file_create_def io_copy_def call_def split: option.splits node.splits)
  have f: "started (snd (copy_file io cwd fd h)) = started h" for fd h
    unfolding copy_file_def by (intro b) (auto simp: c o d Let_def split: option.splits intro!: b)
  have "started (snd (copy_files io cwd fds h)) = started h" for fds h
    by (induction fds arbitrary: h) (auto intro!: b simp: f)
  then show "started (snd (create_disk_images io cwd bin h)) = started h" unfolding create_disk_images_def by (intro b) (simp_all add: d)
qed

lemma canonicalize_result: "canonicalize io cwd f h = (r, h1) \<Longrightarrow> (r = Inr (resolve cwd f) \<or> r = Inl Io) \<and> nodes h1 = nodes h \<and> started h1 = started h"
  by (auto simp: canonicalize_def call_def Let_def split: if_splits)

lemma run_command_result:
  assumes "run_command exec a b c h = (r, h1)"
  obtains "r = Inl a" "h1 = h" | ok out ns where "exec c (nodes h) = Some (ok, out, ns)" "r = (if ok then Inr out else Inl b)" "nodes h1 = ns" "started h1 = started h @ [c]"
  using assms by (auto simp: run_command_def split: option.splits prod.splits)

text \<open>What the tool does after the build.\<close>

definition after_build :: "(nat \<Rightarrow> nat option) \<Rightarrow> (command \<Rightarrow> (path \<Rightarrow> node option) \<Rightarrow> (bool \<times> string \<times> (path \<Rightarrow> node option)) option)
    \<Rightarrow> (string \<Rightarrow> (nat \<times> nat) option) \<Rightarrow> path \<Rightarrow> string list \<Rightarrow> string \<Rightarrow> unit tool" where
  "after_build io exec re_find cwd args output h =
     bind_tool (kernel_path re_find output, h) (\<lambda>kernel_binary_path h.
     bind_tool (no_run args, h) (\<lambda>no_boot h.
     bind_tool (create_disk_images io cwd kernel_binary_path h) (\<lambda>_ h.
     if no_boot then (Inr (), h)
     else bind_tool (run_command exec Running_Qemu Qemu_Exit_Status (run_qemu cwd) h) (\<lambda>_ h. (Inr (), h)))))"

lemma tool_main_after_build:
  "tool_main io exec re_find cwd (Some cargo) args h =
     bind_tool (canonicalize io cwd ''./nacl'' h) (\<lambda>dir h.
     bind_tool (run_command exec Io Exit_Status (cargo_build cargo dir) h) (\<lambda>output h. after_build io exec re_find cwd args output h))"
  by (simp add: tool_main_def after_build_def)

lemma after_build_order:
  assumes "after_build io exec re_find cwd args output h = (r, h')"
  shows "started h' = started h \<and> (r = Inr () \<longrightarrow> (\<exists>as. args = ''--no-run'' # as)) \<or> started h' = started h @ [run_qemu cwd] \<and> args = []"
    "\<lbrakk>args = a # as; a \<noteq> ''--no-run''\<rbrakk> \<Longrightarrow> r \<noteq> Inr () \<and> h' = h"
proof -
  have img: "started h2 = started h1" if "create_disk_images io cwd p h1 = (r2, h2)" for p h1 r2 h2
    using started_kept(2) [of io cwd p h1] that by simp
  have q: "started h2 = started h1 \<and> (\<exists>e. r2 = Inl e) \<or> started h2 = started h1 @ [run_qemu cwd]"
    if "run_command exec Running_Qemu Qemu_Exit_Status (run_qemu cwd) h1 = (r2, h2)" for h1 r2 h2
    using that by (cases rule: run_command_result) auto
  show "started h' = started h \<and> (r = Inr () \<longrightarrow> (\<exists>as. args = ''--no-run'' # as)) \<or> started h' = started h @ [run_qemu cwd] \<and> args = []"
  proof (cases "kernel_path re_find output")
    case (Inl e)
    then show ?thesis using assms by (auto simp: after_build_def)
  next
    case (Inr p)
    obtain r2 h2 where c: "create_disk_images io cwd p h = (r2, h2)" by fastforce
    obtain r3 h3 where u: "run_command exec Running_Qemu Qemu_Exit_Status (run_qemu cwd) h2 = (r3, h3)" by fastforce
    show ?thesis using assms Inr c u img [OF c] q [OF u]
      by (cases args; cases r2; cases r3) (auto simp: after_build_def split: if_splits)
  qed
  show "r \<noteq> Inr () \<and> h' = h" if "args = a # as" "a \<noteq> ''--no-run''"
    using assms that by (cases "kernel_path re_find output") (auto simp: after_build_def)
qed

lemma main_order:
  assumes "tool_main io exec re_find cwd (Some cargo) args h = (r, h')"
  defines "build \<equiv> cargo_build cargo (resolve cwd ''./nacl'')"
  shows "\<exists>cs. started h' = started h @ cs \<and> prefix cs [build, run_qemu cwd] \<and> (length cs = 2 \<longrightarrow> args = [])"
    "r = Inr () \<Longrightarrow> args = [] \<and> started h' = started h @ [build, run_qemu cwd] \<or> (\<exists>as. args = ''--no-run'' # as) \<and> started h' = started h @ [build]"
    "\<lbrakk>args = a # as; a \<noteq> ''--no-run''\<rbrakk> \<Longrightarrow> r \<noteq> Inr () \<and> (nodes h' = nodes h \<or> (\<exists>ok out. exec build (nodes h) = Some (ok, out, nodes h')))"
proof -
  obtain r1 h1 where c: "canonicalize io cwd ''./nacl'' h = (r1, h1)" by fastforce
  note c' = canonicalize_result [OF c]
  obtain r2 h2 where b: "run_command exec Io Exit_Status build h1 = (r2, h2)" by fastforce
  have early: "r \<noteq> Inr () \<and> nodes h' = nodes h \<and> started h' = started h" if "r1 = Inl Io"
    using assms(1) c c' that by (auto simp: tool_main_after_build)
  have main: "bind_tool (r2, h2) (\<lambda>output h. after_build io exec re_find cwd args output h) = (r, h')" if "r1 = Inr (resolve cwd ''./nacl'')"
    using assms(1) c b that by (simp add: tool_main_after_build build_def)
  consider (stop) "r \<noteq> Inr ()" "nodes h' = nodes h" "started h' = started h"
    | (failed) ok out where "exec build (nodes h) = Some (ok, out, nodes h')" "r \<noteq> Inr ()" "started h' = started h @ [build]"
    | (built) out ok where "exec build (nodes h) = Some (ok, out, nodes h2)" "started h2 = started h @ [build]" "after_build io exec re_find cwd args out h2 = (r, h')"
    using b
  proof (cases rule: run_command_result)
    case 1
    then show ?thesis using c' early main that(1) by auto
  next
    case (2 ok out ns)
    then show ?thesis using c' early main that by (cases ok) auto
  qed
  note cases = this
  show "\<exists>cs. started h' = started h @ cs \<and> prefix cs [build, run_qemu cwd] \<and> (length cs = 2 \<longrightarrow> args = [])"
    using cases by cases (auto dest!: after_build_order(1))
  show "args = [] \<and> started h' = started h @ [build, run_qemu cwd] \<or> (\<exists>as. args = ''--no-run'' # as) \<and> started h' = started h @ [build]" if "r = Inr ()"
    using cases that by cases (auto dest!: after_build_order(1))
  show "r \<noteq> Inr () \<and> (nodes h' = nodes h \<or> (\<exists>ok out. exec build (nodes h) = Some (ok, out, nodes h')))" if "args = a # as" "a \<noteq> ''--no-run''"
    using cases
  proof cases
    case (built out ok)
    then show ?thesis using after_build_order(2) [OF built(3) that] by auto
  qed auto
qed

text \<open>
  C28: the tool builds the kernel first and starts qemu last and only without arguments: the commands it starts are a first part of
  \<^verbatim>\<open>cargo build\<close> in \<^verbatim>\<open>./nacl\<close>, then qemu; if it succeeds, it ran both, or with \<^verbatim>\<open>--no-run\<close> only the build. With any other first argument it fails, after the
  build, and writes no file itself.
\<close>

theorem tool_main_order:
  assumes "tool_main io exec re_find cwd (Some cargo) args h = (r, h')"
  shows "let build = cargo_build cargo (resolve cwd ''./nacl'')
    in (\<exists>cs. started h' = started h @ cs \<and> prefix cs [build, run_qemu cwd] \<and> (length cs = 2 \<longrightarrow> args = []))
     \<and> (r = Inr () \<longrightarrow> args = [] \<and> started h' = started h @ [build, run_qemu cwd] \<or> (\<exists>as. args = ''--no-run'' # as) \<and> started h' = started h @ [build])
     \<and> (\<forall>a as. args = a # as \<and> a \<noteq> ''--no-run'' \<longrightarrow> r \<noteq> Inr () \<and> (nodes h' = nodes h \<or> (\<exists>ok out. exec build (nodes h) = Some (ok, out, nodes h'))))"
  unfolding Let_def using main_order [OF assms] by blast

definition demo_exec :: "command \<Rightarrow> (path \<Rightarrow> node option) \<Rightarrow> (bool \<times> string \<times> (path \<Rightarrow> node option)) option" where
  "demo_exec c ns = Some (True, REGEX_HDR @ ''/k'' @ [quote], ns([''nacl''] \<mapsto> Dir))"

definition demo_project :: host where
  "demo_project = demo_host\<lparr>nodes := (nodes demo_host)([''nacl''] \<mapsto> Dir)\<rparr>"

lemma demo_tool_run: "fst (tool_main (\<lambda>_. None) demo_exec first_match [] (Some ''cargo'') [] demo_project) = Inr ()"
  by code_simp

theorem tool_main_order_witness:
  "started (snd (tool_main (\<lambda>_. None) demo_exec first_match [] (Some ''cargo'') [] demo_project))
     = started demo_project @ [cargo_build ''cargo'' (resolve [] ''./nacl''), run_qemu []]"
proof -
  obtain r h' where run: "tool_main (\<lambda>_. None) demo_exec first_match [] (Some ''cargo'') [] demo_project = (r, h')" by fastforce
  then have "r = Inr ()" using demo_tool_run by simp
  then show ?thesis using tool_main_order [OF run] run by (simp add: Let_def)
qed

end
