(* ===== verification/Spec2Isabelle.thy ===== *)
theory Spec2Isabelle
  imports Steal_Interleaving Find_Task Executor Block_Protocol Injector_Progress Injector_Spec Faults Boot_Tool
begin

text \<open>
  \<^bold>\<open>NaCl, a kernel with an asynchronous executor.\<close>

  NaCl is a kernel for x86-64, written in Rust. Its loader hands it a memory map, a frame buffer and the ACPI
  tables; it sets up a heap, a console, descriptor tables and interrupt controllers, and then runs asynchronous tasks on an executor per
  core. The executors share work through work-stealing queues. A host tool builds the kernel and
  an image for the loader. Paths below are relative to \<^verbatim>\<open>src/nacl/src\<close>.

  \<^bold>\<open>Parts and theories.\<close>

  \<^item> Work-stealing queues, \<^verbatim>\<open>task/crossbeam.rs\<close>. \<open>Buffer\<close> has the ring buffers (\<^verbatim>\<open>struct Buffer\<close>) and their memory; \<open>Steal_Outcome\<close>
    the enum \<^verbatim>\<open>Steal\<close>; \<open>Worker_Queue\<close> the owner's operations (\<^verbatim>\<open>Inner\<close>, \<^verbatim>\<open>Worker\<close>); \<open>Stealer_Ops\<close> those of thieves (\<^verbatim>\<open>Stealer\<close>); \<open>Steal_Interleaving\<close> a steal
    among operations of other threads. The properties: every operation returns and does to the list of tasks what it should,
    given as a function of how many tasks thieves take at each of its gaps (and every behaviour of thieves is such a schedule); a steal is atomic at its \<^verbatim>\<open>compare_exchange\<close>; batches arrive in the order of the source.
  \<^item> The injector, also \<^verbatim>\<open>task/crossbeam.rs\<close>. \<open>Injector\<close> has the operations of \<^verbatim>\<open>Slot\<close>, \<^verbatim>\<open>Block\<close> and \<^verbatim>\<open>Injector\<close> as whole operations over a heap of blocks, \<open>Injector_Rep\<close>
    and \<open>Injector_Spec\<close> what they do to the list of tasks without interference. \<open>Injector_Threads\<close> has \<^verbatim>\<open>push\<close>, \<^verbatim>\<open>steal\<close> and the batch operations as steps of
    any number of threads, one access to the shared indices and links each: under every interleaving the injector is a queue. \<open>Injector_Progress\<close> shows that its four
    waits end, that for the task of a slot included. \<open>Block_Protocol\<close> has the other half of the same operations, the accesses to the slots of one block and \<^verbatim>\<open>Block::destroy\<close>: under
    every interleaving a block is freed exactly once, after its last use. The two halves meet in the slots that \<open>Injector_Threads\<close> hands out: pushers win them one by one, thieves
    in consecutive ranges, which are the hypotheses of \<open>Block_Protocol\<close>.
  \<^item> Tasks and the executor, \<^verbatim>\<open>task/mod.rs\<close> and \<^verbatim>\<open>task/executor.rs\<close>. \<open>Tasks\<close> has identifiers, tasks and \<^verbatim>\<open>Yield\<close>; \<open>Find_Task\<close> the search for
    a task in local queue, injector and other queues; \<open>Executor\<close> the loop that polls ready tasks, which is shown to implement round robin and to complete every task, and the stealing of an idle core.
  \<^item> Per-core state, \<^verbatim>\<open>cores.rs\<close>: \<open>Cores\<close>, the tables behind \<open>cpu()\<close> and their invariant.
  \<^item> The mutex, \<^verbatim>\<open>task/lock.rs\<close>: \<open>Lock\<close>, a step relation of any number of agents; mutual exclusion, and which waiting tasks are woken.
  \<^item> The serial port, \<^verbatim>\<open>serial.rs\<close>: \<open>Serial\<close>, steps of any number of contexts over the mutex of \<open>Lock\<close>; messages come out whole.
  \<^item> Exceptions, panics and the logger, \<^verbatim>\<open>arch/x86_64/interrupts.rs\<close> and \<^verbatim>\<open>main.rs\<close>: \<open>Faults\<close>, whose handlers print through \<open>Serial\<close>; they report every fault, unless it comes while the serial port is locked.
  \<^item> The console, \<^verbatim>\<open>font/mod.rs\<close>: \<open>Psf\<close> has the font's table of characters, \<open>Screen\<close> the drawing and the grid of characters, which implements a scrolling terminal.
  \<^item> Memory, \<^verbatim>\<open>arch/x86_64/memory\<close>: \<open>Memory\<close>, the frame allocator and the mapping of the heap.
  \<^item> Interrupt controllers and timer, \<^verbatim>\<open>arch/x86_64/apic.rs\<close>, \<^verbatim>\<open>time.rs\<close> and part of \<^verbatim>\<open>interrupts.rs\<close>: \<open>Apic\<close> and \<open>Time\<close>.
  \<^item> Start of the kernel, \<^verbatim>\<open>main.rs\<close>, \<^verbatim>\<open>arch/x86_64/mod.rs\<close>, \<^verbatim>\<open>gdt.rs\<close>, \<^verbatim>\<open>interrupts.rs\<close> and \<^verbatim>\<open>acpi.rs\<close>: \<open>Kernel\<close>, which composes \<open>Memory\<close>, \<open>Screen\<close>, \<open>Apic\<close> and \<open>Time\<close> in the order of the
    code and shows that \<open>kernel_start\<close> reaches the executor with every interrupt of the I/O APICs and of the local timer masked or handled, and the LINT inputs and the old controllers masked.
  \<^item> The host tool, \<^verbatim>\<open>src/nacl_boot/src/main.rs\<close>: \<open>Boot_Tool\<close>, over a file system that is a map from paths.

  \<open>Prelude\<close> has the integers, loops and lemmas that the others share.

  \<^bold>\<open>Interfaces.\<close> \<open>Queue_Interface\<close> states what users of a queue rely on as locales: \<open>task_queue\<close> with its extensions \<open>fifo_queue\<close> and \<open>lifo_queue\<close>, interpreted on both
  flavors of \<open>worker_push\<close> and \<open>worker_pop\<close> in \<open>Worker_Queue\<close>; and \<open>steal_source\<close>, interpreted on \<open>stealer_steal\<close> in \<open>Stealer_Ops\<close> and on \<open>injector_steal\<close> in \<open>Injector_Spec\<close>. \<open>frame_alloc\<close> in \<open>Memory\<close> is the
  contract between the mapping of pages and the allocator of frames, interpreted on \<open>allocate_frame\<close>.

  \<^bold>\<open>Conventions.\<close> A 64-bit integer is a word where it wraps; the build is a release build, in which arithmetic does not trap. The result
  \<open>None\<close> is undefined behaviour, a panic or a loop that never ends (loops that may not end are \<open>partial_function (option)\<close>), so that \<open>\<exists>r. f x = Some r\<close> says that \<open>f\<close> returns. Other threads enter in one of two ways:
  as an environment \<open>env k\<close> at each gap between two accesses of an operation, or as a step relation in which every step is one access of some thread. Memory is sequentially consistent.

  \<^bold>\<open>Bounds.\<close> A worker queue holds at most \<open>2 ^ 62\<close> tasks, so that the difference of its 64-bit indices is their number; an injector has seen fewer than \<open>2 ^ 61\<close> pushes (\<open>2 ^ 62\<close> positions, as each block skips one and
  an index has a flag bit); fewer than \<open>2 ^ 61\<close> operations fall into one gap of a steal. No machine that runs for less than centuries reaches them. Frame buffers are smaller than \<open>2 ^ 63\<close> bytes, an I/O APIC
  has at most 120 entries, as many as its 8-bit register numbers allow.

  \<^bold>\<open>Parameters.\<close> Code outside the repository is an argument of the definitions that use it: \<^verbatim>\<open>AtomicWaker\<close>, page tables, descriptor tables and addresses of \<^verbatim>\<open>x86_64\<close>,
  responses of \<^verbatim>\<open>limine\<close>, tables of \<^verbatim>\<open>acpi\<close>, the old interrupt controller of \<^verbatim>\<open>pic8259\<close>, the port of \<^verbatim>\<open>uart_16550\<close>, regular expressions, futures, the devices behind volatile accesses, the arrival of timer interrupts,
  the file system calls that fail, and the programs the host tool runs. Their documented behaviour is a named predicate (\<open>waker_laws\<close>, \<open>paging_laws\<close>, \<open>mapper_laws\<close>, \<open>ioapic_laws\<close>, \<open>lapic_timer_laws\<close>,
  \<open>lint_laws\<close>, \<open>old_pic_laws\<close>, \<open>gdt_laws\<close>, \<open>idt_laws\<close>, \<open>regex_laws\<close> and others), each satisfied by a concrete instance in a witness.

  \<^bold>\<open>What the proofs show to be wrong.\<close> Tasks stolen by an idle core are lost (\<open>Executor\<close>); a task that waits for the mutex may miss its wake-up (\<open>Lock\<close>); the identification register of the
  APIC is used unshifted, so that \<open>cpu()\<close> panics on all cores but one, short delays do not wait, and a delay may end at a reload of the timer (\<open>Time\<close>); a spurious interrupt has no handler (\<open>Kernel\<close>); glyphs are drawn one column off (\<open>Screen\<close>); the serial port
  may be used before it is initialised, and a fault while printing hangs its core without a report (\<open>Serial\<close>, \<open>Faults\<close>).

  \<^bold>\<open>Not modelled.\<close> \<^verbatim>\<open>arch/x86_64/smp.rs\<close> is not compiled. \<^verbatim>\<open>task/gc.rs\<close> forwards to \<^verbatim>\<open>crossbeam-epoch\<close>: a retired buffer stays readable while a thief is pinned, which the queues' \<open>garbage\<close> stands for. Memory orderings weaker than sequential consistency, fences, and the \<^verbatim>\<open>Debug\<close> output have no counterpart. \<^verbatim>\<open>Executor::run\<close> never returns and is given by the body of its loop.

  \<^bold>\<open>Plan.\<close> Join the two halves of the injector into one step relation, so that freeing a block and handing out its slots are one theorem;
  let the owner's operations of a worker queue be interrupted at single accesses of thieves; the executors of several cores as one system.
\<close>

end
